(* ===== verification/Prelude.thy ===== *)
theory Prelude
  imports Main "HOL-Library.Monad_Syntax" "HOL-Library.Word" "HOL-Library.Disjoint_Sets"
begin

text \<open>
  What the components share: the result of a fallible Rust function, the state-passing
  composition that Rust's question mark operator gives, the arithmetic of \<open>usize\<close> and
  \<open>u64\<close> values (the kernel is built in the release profile, where unchecked arithmetic
  wraps), bounds-checked array access, and the facts about lists, linked chains and
  powers of two that the component theories use.

  A function that mutates a state of type \<open>'s\<close> and returns \<open>Result<A, E>\<close> is modelled by
  a function into \<open>(('e, 'a) result \<times> 's) option\<close>: \<open>None\<close> stands for a run that does not
  return (a panic such as an out-of-bounds index or a failed \<open>expect\<close>, or a loop that
  never ends); \<open>Some (r, s)\<close> is a run that returns \<open>r\<close> and leaves the state \<open>s\<close>, also when
  \<open>r\<close> is an error, because Rust does not undo the writes made before an early return.
\<close>

named_theorems usize_simps \<open>facts that remove wrap-around where a bound is known\<close>
named_theorems run_simps \<open>facts that compute with results and state passing\<close>

section \<open>Results and state passing\<close>

datatype ('e, 'a) result = Ok 'a | Err 'e

type_synonym ('s, 'e, 'a) run = "(('e, 'a) result \<times> 's) option"

text \<open>The question mark operator: an error returns early with the state reached so far.\<close>

definition and_then :: "('s, 'e, 'a) run \<Rightarrow> ('a \<Rightarrow> 's \<Rightarrow> ('s, 'e, 'b) run) \<Rightarrow> ('s, 'e, 'b) run" where
  "and_then m k = (case m of None \<Rightarrow> None
     | Some (r, s) \<Rightarrow> (case r of Err e \<Rightarrow> Some (Err e, s) | Ok a \<Rightarrow> k a s))"

fun ok_or :: "'e \<Rightarrow> 'a option \<Rightarrow> ('e, 'a) result" where
  "ok_or e None = Err e"
| "ok_or e (Some a) = Ok a"

text \<open>\<open>Result::ok\<close>.\<close>

fun to_option :: "('e, 'a) result \<Rightarrow> 'a option" where
  "to_option (Ok a) = Some a"
| "to_option (Err e) = None"

lemma to_option_Some [simp]: "to_option r = Some a \<longleftrightarrow> r = Ok a"
  by (cases r) simp_all

lemma and_then_simps [simp, run_simps]:
  "and_then None k = None"
  "and_then (Some (Ok a, s)) k = k a s"
  "and_then (Some (Err e, s)) k = Some (Err e, s)"
  by (simp_all add: and_then_def)

lemma and_then_SomeE:
  assumes "and_then m k = Some (r, t)"
  obtains (err) e where "m = Some (Err e, t)" "r = Err e"
  | (ok) a s where "m = Some (Ok a, s)" "k a s = Some (r, t)"
  using assms by (auto simp: and_then_def split: option.splits prod.splits result.splits)

lemma and_then_bind:
  "and_then m k = Option.bind m (\<lambda>y. case fst y of Err e \<Rightarrow> Some (Err e, snd y) | Ok a \<Rightarrow> k a (snd y))"
  by (auto simp: and_then_def split: option.split result.split)

lemma and_then_mono [partial_function_mono]:
  assumes F: "mono_option F" and G: "\<And>a s. mono_option (\<lambda>f. G f a s)"
  shows "mono_option (\<lambda>f. and_then (F f) (\<lambda>a s. G f a s))"
  unfolding and_then_bind
proof (rule bind_mono [OF F])
  fix y :: "('c, 'd) result \<times> 'e"
  show "mono_option (\<lambda>f. case fst y of Err e \<Rightarrow> Some (Err e, snd y) | Ok a \<Rightarrow> G f a (snd y))"
    using G by (cases "fst y") (simp_all add: option.const_mono)
qed

section \<open>Arrays\<close>

text \<open>Reading \<open>xs[i]\<close> panics out of range.\<close>

definition at :: "'a list \<Rightarrow> nat \<Rightarrow> 'a option" where
  "at xs i = (if i < length xs then Some (xs ! i) else None)"

text \<open>Writing \<open>xs[i] = v\<close> panics out of range.\<close>

definition put :: "'a list \<Rightarrow> nat \<Rightarrow> 'a \<Rightarrow> 'a list option" where
  "put xs i v = (if i < length xs then Some (xs[i := v]) else None)"

lemma at_in [simp, run_simps]: "i < length xs \<Longrightarrow> at xs i = Some (xs ! i)"
  by (simp add: at_def)

lemma put_in [simp, run_simps]: "i < length xs \<Longrightarrow> put xs i v = Some (xs[i := v])"
  by (simp add: put_def)

lemma at_out [simp, run_simps]: "\<not> i < length xs \<Longrightarrow> at xs i = None"
  by (simp add: at_def)

lemma put_out [simp, run_simps]: "\<not> i < length xs \<Longrightarrow> put xs i v = None"
  by (simp add: put_def)

section \<open>Unsigned machine integers as bounded naturals\<close>

text \<open>
  \<open>usize\<close> and \<open>u64\<close> quantities that are counted or ordered are natural numbers below
  \<open>2 ^ 64\<close>. Unchecked addition and subtraction wrap, \<open>checked_add\<close>, \<open>saturating_add\<close> and
  their kin are written out.
\<close>

type_synonym usize = nat

definition usize_range :: nat where
  "usize_range = 2 ^ 64"

lemma usize_range_pos [simp]: "0 < usize_range"
  by (simp add: usize_range_def)

definition wadd :: "usize \<Rightarrow> usize \<Rightarrow> usize" where
  "wadd a b = (a + b) mod usize_range"

definition wsub :: "usize \<Rightarrow> usize \<Rightarrow> usize" where
  "wsub a b = (a + (usize_range - b mod usize_range)) mod usize_range"

definition wmul :: "usize \<Rightarrow> usize \<Rightarrow> usize" where
  "wmul a b = (a * b) mod usize_range"

definition checked_add :: "usize \<Rightarrow> usize \<Rightarrow> usize option" where
  "checked_add a b = (if a + b < usize_range then Some (a + b) else None)"

lemma wadd_exact [usize_simps]: "a + b < usize_range \<Longrightarrow> wadd a b = a + b"
  by (simp add: wadd_def)

lemma wsub_exact [usize_simps]: 
  assumes "b \<le> a" "a < usize_range"
  shows "wsub a b = a - b"
proof -
  have "b mod usize_range = b" using assms by simp
  moreover have "a + (usize_range - b) = (a - b) + usize_range" using assms by simp
  moreover have "a - b < usize_range" using assms by simp
  ultimately show ?thesis by (simp add: wsub_def)
qed

lemma wmul_exact [usize_simps]: "a * b < usize_range \<Longrightarrow> wmul a b = a * b"
  by (simp add: wmul_def)

lemma checked_add_Some [simp]: "checked_add a b = Some c \<longleftrightarrow> c = a + b \<and> a + b < usize_range"
  by (auto simp: checked_add_def)

lemma checked_add_None [simp]: "checked_add a b = None \<longleftrightarrow> usize_range \<le> a + b"
  by (auto simp: checked_add_def)

end
