(* ===== verification/Frame_Ranges.thy ===== *)
theory Frame_Ranges
  imports Prelude
begin

text \<open>
  The usable memory of the machine as the frame allocator sees it: the fixed-capacity
  \<open>RangeList\<close> of \<open>aether-frame/src/mm/buddy.rs\<close> with its shifting insert and remove, and
  \<open>collect_usable_ranges\<close>, which fills it from the boot loader's memory map. The lemmas
  show that the list stays sorted with gaps between its ranges and that it holds exactly
  the frames of the usable regions.
\<close>

unbundle bit_operations_syntax

section \<open>Errors and constants\<close>

datatype frame_alloc_error =
    InvalidCount
  | OutOfMemory
  | InvalidFrame
  | InvalidCpu
  | InvalidMemoryMap
  | RefCountOverflow
  | RefCountUnderflow
  | MetadataExhausted

definition PAGE_SHIFT :: nat where
  "PAGE_SHIFT = 12"

definition PAGE_SIZE :: nat where
  "PAGE_SIZE = 2 ^ PAGE_SHIFT"

text \<open>
  \<open>!(align - 1)\<close> is \<open>2 ^ 64 - align\<close> for an alignment between \<open>1\<close> and \<open>2 ^ 64 - 1\<close>; the
  addition in \<open>align_up\<close> is unchecked and wraps.
\<close>

definition align_down :: "usize \<Rightarrow> usize \<Rightarrow> usize" where
  "align_down a align = a AND (usize_range - align)"

definition align_up :: "usize \<Rightarrow> usize \<Rightarrow> usize" where
  "align_up a align = (wsub (wadd a align) 1) AND (usize_range - align)"

section \<open>The range list\<close>

text \<open>An array of pairs of a first frame and a frame count; only the first \<open>rl_len\<close> are live.\<close>

record range_list =
  rl_entries :: "(usize \<times> usize) list"
  rl_len :: usize

definition rl_new :: "nat \<Rightarrow> range_list" where
  "rl_new cap = \<lparr>rl_entries = replicate cap (0, 0), rl_len = 0\<rparr>"

definition rl_clear :: "range_list \<Rightarrow> range_list" where
  "rl_clear r = r\<lparr>rl_len := 0\<rparr>"

definition rl_get :: "range_list \<Rightarrow> usize \<Rightarrow> (usize \<times> usize) option" where
  "rl_get r index = at (rl_entries r) index"

definition as_slice :: "range_list \<Rightarrow> (usize \<times> usize) list option" where
  "as_slice r = (if rl_len r \<le> length (rl_entries r) then Some (take (rl_len r) (rl_entries r)) else None)"

partial_function (option) total_frames_from ::
    "range_list \<Rightarrow> usize \<Rightarrow> usize \<Rightarrow> (frame_alloc_error, usize) result option" where [code]:
  "total_frames_from r index acc =
     (if index < rl_len r
      then do {
        e \<leftarrow> at (rl_entries r) index;
        case checked_add acc (snd e) of
          None \<Rightarrow> Some (Err InvalidMemoryMap)
        | Some acc' \<Rightarrow> total_frames_from r (index + 1) acc'
      }
      else Some (Ok acc))"

definition rl_total_frames :: "range_list \<Rightarrow> (frame_alloc_error, usize) result option" where
  "rl_total_frames r = total_frames_from r 0 0"

text \<open>The loop of \<open>insert_at\<close> moves the entries from \<open>index\<close> on up by one place.\<close>

fun shift_up :: "(usize \<times> usize) list \<Rightarrow> usize \<Rightarrow> usize \<Rightarrow> (usize \<times> usize) list option" where
  "shift_up es 0 index = Some es"
| "shift_up es (Suc cursor) index =
     (if Suc cursor > index
      then do {
        e \<leftarrow> at es cursor;
        es' \<leftarrow> put es (Suc cursor) e;
        shift_up es' cursor index
      }
      else Some es)"

definition insert_at ::
    "range_list \<Rightarrow> usize \<Rightarrow> usize \<times> usize \<Rightarrow> (range_list, frame_alloc_error, unit) run" where
  "insert_at r index entry =
     (if rl_len r = length (rl_entries r) then Some (Err MetadataExhausted, r)
      else do {
        es \<leftarrow> shift_up (rl_entries r) (rl_len r) index;
        es' \<leftarrow> put es index entry;
        Some (Ok (), r\<lparr>rl_entries := es', rl_len := rl_len r + 1\<rparr>)
      })"

text \<open>The loop of \<open>remove_at\<close> moves the entries after \<open>index\<close> down by one place.\<close>

function shift_down :: "(usize \<times> usize) list \<Rightarrow> usize \<Rightarrow> usize \<Rightarrow> (usize \<times> usize) list option" where
  "shift_down es cursor len =
     (if cursor < len
      then do {
        e \<leftarrow> at es cursor;
        es' \<leftarrow> put es (cursor - 1) e;
        shift_down es' (cursor + 1) len
      }
      else Some es)"
  by pat_completeness auto
termination
  by (relation "measure (\<lambda>(es, cursor, len). len - cursor)") auto

declare shift_down.simps [simp del]

definition remove_at :: "range_list \<Rightarrow> usize \<Rightarrow> range_list option" where
  "remove_at r index = do {
     es \<leftarrow> shift_down (rl_entries r) (index + 1) (rl_len r);
     Some (r\<lparr>rl_entries := es, rl_len := wsub (rl_len r) 1\<rparr>)
   }"

text \<open>The first loop of \<open>insert_merged_sorted\<close>: skip the ranges that start before \<open>start\<close>.\<close>

function find_slot :: "range_list \<Rightarrow> usize \<Rightarrow> usize \<Rightarrow> usize option" where
  "find_slot r start index =
     (if index < rl_len r
      then do {
        e \<leftarrow> at (rl_entries r) index;
        if fst e < start then find_slot r start (index + 1) else Some index
      }
      else Some index)"
  by pat_completeness auto
termination
  by (relation "measure (\<lambda>(r, start, index). rl_len r - index)") auto

declare find_slot.simps [simp del]

text \<open>The middle part: merge with the range before, if it ends where the new one starts.\<close>

definition merge_prev ::
    "range_list \<Rightarrow> usize \<Rightarrow> usize \<Rightarrow> usize \<Rightarrow> (range_list, frame_alloc_error, usize \<times> usize \<times> usize) run" where
  "merge_prev r index start len =
     (if index > 0
      then do {
        e \<leftarrow> at (rl_entries r) (index - 1);
        case checked_add (fst e) (snd e) of
          None \<Rightarrow> Some (Err InvalidMemoryMap, r)
        | Some prev_end \<Rightarrow>
            if start < prev_end then Some (Err InvalidMemoryMap, r)
            else if start = prev_end
            then (case checked_add (snd e) len of
                None \<Rightarrow> Some (Err InvalidMemoryMap, r)
              | Some len' \<Rightarrow> do {
                  r' \<leftarrow> remove_at r (index - 1);
                  Some (Ok (index - 1, fst e, len'), r')
                })
            else Some (Ok (index, start, len), r)
      }
      else Some (Ok (index, start, len), r))"

text \<open>The last loop: absorb the ranges that begin where the new one ends.\<close>

partial_function (option) merge_next ::
    "range_list \<Rightarrow> usize \<Rightarrow> usize \<Rightarrow> usize \<Rightarrow> (range_list, frame_alloc_error, usize) run" where [code]:
  "merge_next r index start len =
     (if index < rl_len r
      then do {
        e \<leftarrow> at (rl_entries r) index;
        case checked_add start len of
          None \<Rightarrow> Some (Err InvalidMemoryMap, r)
        | Some end' \<Rightarrow>
            if fst e < end' then Some (Err InvalidMemoryMap, r)
            else if fst e \<noteq> end' then Some (Ok len, r)
            else (case checked_add len (snd e) of
                None \<Rightarrow> Some (Err InvalidMemoryMap, r)
              | Some len' \<Rightarrow> do {
                  r' \<leftarrow> remove_at r index;
                  merge_next r' index start len'
                })
      }
      else Some (Ok len, r))"

definition insert_merged_sorted ::
    "range_list \<Rightarrow> usize \<Rightarrow> usize \<Rightarrow> (range_list, frame_alloc_error, unit) run" where
  "insert_merged_sorted r start len =
     (if len = 0 then Some (Ok (), r)
      else do {
        index \<leftarrow> find_slot r start 0;
        and_then (merge_prev r index start len) (\<lambda>(index, start, len) r.
          and_then (merge_next r index start len) (\<lambda>len r.
            insert_at r index (start, len)))
      })"

section \<open>The memory map\<close>

text \<open>The kinds of memory regions are numbers; only \<open>USABLE\<close> matters to the allocator.\<close>

record memory_region =
  region_start :: usize
  region_len :: usize
  region_kind :: nat

definition USABLE :: nat where
  "USABLE = 0"

text \<open>One turn of the loop over the map: the frames that lie wholly inside a usable region.\<close>

definition collect_region ::
    "memory_region \<Rightarrow> range_list \<Rightarrow> (range_list, frame_alloc_error, unit) run" where
  "collect_region region r =
     (if region_kind region \<noteq> USABLE then Some (Ok (), r)
      else (case checked_add (region_start region) (region_len region) of
          None \<Rightarrow> Some (Err InvalidMemoryMap, r)
        | Some region_end \<Rightarrow>
            (let start = align_up (region_start region) PAGE_SIZE;
                 end' = align_down region_end PAGE_SIZE
             in if end' \<le> start then Some (Ok (), r)
                else insert_merged_sorted r (drop_bit PAGE_SHIFT start)
                       (drop_bit PAGE_SHIFT (end' - start)))))"

fun collect_regions ::
    "memory_region list \<Rightarrow> range_list \<Rightarrow> (range_list, frame_alloc_error, unit) run" where
  "collect_regions [] r = Some (Ok (), r)"
| "collect_regions (region # regions) r =
     and_then (collect_region region r) (\<lambda>_ r. collect_regions regions r)"

definition collect_usable_ranges ::
    "memory_region list \<Rightarrow> range_list \<Rightarrow> (range_list, frame_alloc_error, unit) run" where
  "collect_usable_ranges mem_map ranges = collect_regions mem_map (rl_clear ranges)"

section \<open>The array operations on the live part\<close>

definition live :: "range_list \<Rightarrow> (usize \<times> usize) list" where
  "live r = take (rl_len r) (rl_entries r)"

definition rl_ok :: "range_list \<Rightarrow> bool" where
  "rl_ok r \<longleftrightarrow> rl_len r \<le> length (rl_entries r) \<and> length (rl_entries r) < usize_range"

lemma live_length: "rl_ok r \<Longrightarrow> length (live r) = rl_len r"
  by (simp add: live_def rl_ok_def)

lemma live_nth: "rl_ok r \<Longrightarrow> i < rl_len r \<Longrightarrow> at (rl_entries r) i = Some (live r ! i)"
  by (simp add: live_def rl_ok_def)

lemma shift_up_spec:
  "index \<le> cursor \<Longrightarrow> cursor < length es \<Longrightarrow>
   \<exists>es'. shift_up es cursor index = Some es' \<and> length es' = length es \<and>
     (\<forall>k < length es. es' ! k = (if index < k \<and> k \<le> cursor then es ! (k - 1) else es ! k))"
proof (induction es cursor index rule: shift_up.induct)
  case (1 es index)
  then show ?case by auto
next
  case (2 es cursor index)
  show ?case
  proof (cases "Suc cursor > index")
    case False
    then show ?thesis using "2.prems" by auto
  next
    case True
    let ?es = "es[Suc cursor := es ! cursor]"
    obtain es' where es': "shift_up ?es cursor index = Some es'" "length es' = length es"
      "\<forall>k < length es. es' ! k = (if index < k \<and> k \<le> cursor then ?es ! (k - 1) else ?es ! k)"
      using "2.IH" [of "es ! cursor" ?es] True "2.prems" by auto
    have "shift_up es (Suc cursor) index = Some es'"
      using True "2.prems" es'(1) by simp
    moreover have "es' ! k = (if index < k \<and> k \<le> Suc cursor then es ! (k - 1) else es ! k)"
      if "k < length es" for k
      using es'(3) that True by (cases "k = Suc cursor") (auto simp: nth_list_update)
    ultimately show ?thesis using es'(2) by blast
  qed
qed

lemma insert_at_spec:
  assumes "rl_ok r" "rl_len r < length (rl_entries r)" "index \<le> rl_len r"
  obtains r' where "insert_at r index e = Some (Ok (), r')" "rl_ok r'"
    "length (rl_entries r') = length (rl_entries r)"
    "live r' = take index (live r) @ e # drop index (live r)"
proof -
  obtain es where es: "shift_up (rl_entries r) (rl_len r) index = Some es"
    "length es = length (rl_entries r)"
    "\<forall>k < length (rl_entries r). es ! k = (if index < k \<and> k \<le> rl_len r
        then rl_entries r ! (k - 1) else rl_entries r ! k)"
    using shift_up_spec [OF assms(3,2)] by auto
  let ?r = "r\<lparr>rl_entries := es[index := e], rl_len := rl_len r + 1\<rparr>"
  have "insert_at r index e = Some (Ok (), ?r)"
    using assms es(1,2) by (simp add: insert_at_def)
  moreover have "rl_ok ?r" using assms es(2) by (simp add: rl_ok_def)
  moreover have "live ?r = take index (live r) @ e # drop index (live r)"
  proof (rule nth_equalityI)
    show "length (live ?r) = length (take index (live r) @ e # drop index (live r))"
      using assms es(2) by (simp add: live_def)
    fix k assume "k < length (live ?r)"
    then show "live ?r ! k = (take index (live r) @ e # drop index (live r)) ! k"
      using assms es(2,3)
      by (cases "k < index"; cases "k = index")
        (auto simp: live_def nth_append nth_list_update nth_Cons')
  qed
  ultimately show ?thesis using that es(2) by simp
qed

lemma shift_down_spec:
  "0 < cursor \<Longrightarrow> len \<le> length es \<Longrightarrow>
   \<exists>es'. shift_down es cursor len = Some es' \<and> length es' = length es \<and>
     (\<forall>k < length es. es' ! k = (if cursor \<le> k + 1 \<and> k + 1 < len then es ! (k + 1) else es ! k))"
proof (induction es cursor len rule: shift_down.induct)
  case (1 es cursor len)
  show ?case
  proof (cases "cursor < len")
    case False
    then show ?thesis by (auto simp: shift_down.simps)
  next
    case True
    let ?es = "es[cursor - 1 := es ! cursor]"
    obtain es' where es': "shift_down ?es (cursor + 1) len = Some es'" "length es' = length es"
      "\<forall>k < length es. es' ! k = (if cursor + 1 \<le> k + 1 \<and> k + 1 < len then ?es ! (k + 1) else ?es ! k)"
      using "1.IH" [of "es ! cursor" ?es] True "1.prems" by auto
    have "shift_down es cursor len = Some es'"
      using True "1.prems" es'(1) by (simp add: shift_down.simps [of es])
    moreover have "es' ! k = (if cursor \<le> k + 1 \<and> k + 1 < len then es ! (k + 1) else es ! k)"
      if "k < length es" for k
      using es'(3) that True "1.prems" by (cases "k + 1 = cursor") (auto simp: nth_list_update)
    ultimately show ?thesis using es'(2) by blast
  qed
qed

lemma remove_at_spec:
  assumes "rl_ok r" "index < rl_len r"
  obtains r' where "remove_at r index = Some r'" "rl_ok r'" "rl_len r' = rl_len r - 1"
    "length (rl_entries r') = length (rl_entries r)"
    "live r' = take index (live r) @ drop (index + 1) (live r)"
proof -
  obtain es where es: "shift_down (rl_entries r) (index + 1) (rl_len r) = Some es"
    "length es = length (rl_entries r)"
    "\<forall>k < length (rl_entries r). es ! k = (if index + 1 \<le> k + 1 \<and> k + 1 < rl_len r
        then rl_entries r ! (k + 1) else rl_entries r ! k)"
    using shift_down_spec [of "index + 1" "rl_len r" "rl_entries r"] assms
    by (auto simp: rl_ok_def)
  have len: "wsub (rl_len r) 1 = rl_len r - 1"
    using assms by (intro wsub_exact) (auto simp: rl_ok_def)
  let ?r = "r\<lparr>rl_entries := es, rl_len := rl_len r - 1\<rparr>"
  have "remove_at r index = Some ?r"
    using es(1) len by (simp add: remove_at_def)
  moreover have "rl_ok ?r" using assms es(2) by (auto simp: rl_ok_def)
  moreover have "live ?r = take index (live r) @ drop (index + 1) (live r)"
  proof (rule nth_equalityI)
    show "length (live ?r) = length (take index (live r) @ drop (index + 1) (live r))"
      using assms es(2) by (auto simp: live_def rl_ok_def)
    fix k assume "k < length (live ?r)"
    then show "live ?r ! k = (take index (live r) @ drop (index + 1) (live r)) ! k"
      using assms es(2,3) by (cases "k < index") (auto simp: live_def rl_ok_def nth_append)
  qed
  ultimately show ?thesis using that es(2) by simp
qed

section \<open>Sorted ranges with gaps\<close>

definition frames_of :: "(usize \<times> usize) list \<Rightarrow> usize set" where
  "frames_of xs = (\<Union>e \<in> set xs. {fst e ..< fst e + snd e})"

text \<open>Non-empty ranges in ascending order, each ending strictly before the next begins.\<close>

definition ranges_ok :: "(usize \<times> usize) list \<Rightarrow> bool" where
  "ranges_ok xs \<longleftrightarrow> sorted_wrt (\<lambda>d e. fst d + snd d < fst e) xs \<and>
     (\<forall>e \<in> set xs. 0 < snd e \<and> fst e + snd e < usize_range)"

lemma frames_of_simps [simp]:
  "frames_of [] = {}"
  "frames_of (e # xs) = {fst e ..< fst e + snd e} \<union> frames_of xs"
  "frames_of (xs @ ys) = frames_of xs \<union> frames_of ys"
  by (auto simp: frames_of_def)

lemma ranges_ok_Nil [simp]: "ranges_ok []"
  by (simp add: ranges_ok_def)

lemma ranges_ok_append:
  "ranges_ok (xs @ ys) \<longleftrightarrow> ranges_ok xs \<and> ranges_ok ys \<and>
     (\<forall>d \<in> set xs. \<forall>e \<in> set ys. fst d + snd d < fst e)"
  by (auto simp: ranges_ok_def sorted_wrt_append)

lemma ranges_ok_Cons:
  "ranges_ok (e # xs) \<longleftrightarrow> ranges_ok xs \<and> 0 < snd e \<and> fst e + snd e < usize_range \<and>
     (\<forall>d \<in> set xs. fst e + snd e < fst d)"
  by (auto simp: ranges_ok_def)

lemma find_slot_spec:
  assumes "rl_ok r" "live r = ps @ qs" "\<forall>e \<in> set ps. fst e < start"
    "qs = [] \<or> start \<le> fst (hd qs)" "index \<le> length ps"
  shows "find_slot r start index = Some (length ps)"
  using assms(5)
proof (induction "length ps - index" arbitrary: index)
  case 0
  then have "index = length ps" by simp
  then show ?case
    using assms live_length [OF assms(1)] live_nth [OF assms(1), of index]
    by (subst find_slot.simps) (cases qs; force simp: nth_append)
next
  case (Suc n)
  then have "index < length ps" by simp
  then show ?case
    using Suc assms live_length [OF assms(1)] live_nth [OF assms(1), of index]
    by (subst find_slot.simps) (auto simp: nth_append)
qed

text \<open>
  Because the ranges have gaps, the loop over the following ranges absorbs at most one of
  them: it stops at once, absorbs the first and stops, or meets an overlap.
\<close>

lemma merge_next_stop:
  assumes "rl_ok r" "live r = ps @ qs" "start + len < usize_range"
    "qs = [] \<or> start + len < fst (hd qs)"
  shows "merge_next r (length ps) start len = Some (Ok len, r)"
  using assms live_length [OF assms(1)] live_nth [OF assms(1), of "length ps"]
  by (subst merge_next.simps) (cases qs; force simp: nth_append checked_add_def)

lemma merge_next_overlap:
  assumes "rl_ok r" "live r = ps @ e # qs" "fst e < start + len"
  shows "merge_next r (length ps) start len = Some (Err InvalidMemoryMap, r)"
  using assms live_length [OF assms(1)] live_nth [OF assms(1), of "length ps"]
  by (subst merge_next.simps) (auto simp: nth_append split: option.splits)

lemma merge_next_absorb:
  assumes r: "rl_ok r" "live r = ps @ e # qs" and e: "fst e = start + len"
    and ok: "ranges_ok (e # qs)"
  obtains r' where "merge_next r (length ps) start len = Some (Ok (len + snd e), r')"
    "rl_ok r'" "live r' = ps @ qs" "length (rl_entries r') = length (rl_entries r)"
proof -
  have "length ps < rl_len r" using r live_length [OF r(1)] by simp
  then obtain r' where r': "remove_at r (length ps) = Some r'" "rl_ok r'"
    "length (rl_entries r') = length (rl_entries r)" "live r' = ps @ qs"
    using remove_at_spec [OF r(1), of "length ps"] r(2) by auto
  have len: "len + snd e < usize_range" "start + len < usize_range"
    using e ok by (auto simp: ranges_ok_Cons)
  have "merge_next r (length ps) start len = merge_next r' (length ps) start (len + snd e)"
    using \<open>length ps < rl_len r\<close> live_nth [OF r(1), of "length ps"] r(2) e len r'(1)
    by (subst merge_next.simps) (simp add: nth_append checked_add_def)
  also have "\<dots> = Some (Ok (len + snd e), r')"
    using r'(2,4) ok e by (intro merge_next_stop [where qs = qs]) (cases qs; auto simp: ranges_ok_Cons)+
  finally show ?thesis using that r' by blast
qed

lemma merge_prev_first: "merge_prev r 0 start len = Some (Ok (0, start, len), r)"
  by (simp add: merge_prev_def)

lemma merge_prev_apart:
  assumes "rl_ok r" "live r = ps @ d # qs" "fst d + snd d < start" "start < usize_range"
  shows "merge_prev r (length (ps @ [d])) start len = Some (Ok (length (ps @ [d]), start, len), r)"
  using assms live_length [OF assms(1)] live_nth [OF assms(1), of "length ps"]
  by (simp add: merge_prev_def nth_append checked_add_def)

lemma merge_prev_overlap:
  assumes "rl_ok r" "live r = ps @ d # qs" "start < fst d + snd d"
  shows "merge_prev r (length (ps @ [d])) start len = Some (Err InvalidMemoryMap, r)"
  using assms live_length [OF assms(1)] live_nth [OF assms(1), of "length ps"]
  by (simp add: merge_prev_def nth_append checked_add_def)

lemma merge_prev_join:
  assumes r: "rl_ok r" "live r = ps @ d # qs" and d: "fst d + snd d = start"
    and len: "start + len < usize_range"
  obtains r' where "merge_prev r (length (ps @ [d])) start len = Some (Ok (length ps, fst d, snd d + len), r')"
    "rl_ok r'" "live r' = ps @ qs" "length (rl_entries r') = length (rl_entries r)"
proof -
  have "length ps < rl_len r" using r live_length [OF r(1)] by simp
  then obtain r' where r': "remove_at r (length ps) = Some r'" "rl_ok r'"
    "length (rl_entries r') = length (rl_entries r)" "live r' = ps @ qs"
    using remove_at_spec [OF r(1), of "length ps"] r(2) by auto
  have "merge_prev r (length (ps @ [d])) start len = Some (Ok (length ps, fst d, snd d + len), r')"
    using \<open>length ps < rl_len r\<close> live_nth [OF r(1), of "length ps"] r d len r'(1)
    by (simp add: merge_prev_def nth_append checked_add_def)
  then show ?thesis using that r' by blast
qed

section \<open>Inserting a range\<close>

text \<open>The part of \<open>insert_merged_sorted\<close> after the range before it has been looked at.\<close>

lemma insert_tail_spec:
  assumes r: "rl_ok r" "live r = ps @ qs" and ok: "ranges_ok (ps @ qs)"
    and new: "0 < len" "start + len < usize_range"
    and before: "\<forall>d \<in> set ps. fst d + snd d < start"
    and after: "qs = [] \<or> start + len \<le> fst (hd qs)"
    and room: "rl_len r < length (rl_entries r)"
  obtains r' where
    "and_then (merge_next r (length ps) start len) (\<lambda>len r. insert_at r (length ps) (start, len)) =
       Some (Ok (), r')"
    "rl_ok r'" "ranges_ok (live r')" "length (rl_entries r') = length (rl_entries r)"
    "frames_of (live r') = frames_of (live r) \<union> {start ..< start + len}" "rl_len r' \<le> rl_len r + 1"
proof (cases "qs = [] \<or> start + len < fst (hd qs)")
  case True
  have len_ps: "length ps \<le> rl_len r" using r live_length [OF r(1)] by simp
  obtain r' where r': "insert_at r (length ps) (start, len) = Some (Ok (), r')" "rl_ok r'"
    "length (rl_entries r') = length (rl_entries r)"
    "live r' = ps @ (start, len) # qs"
    using insert_at_spec [OF r(1) room len_ps, of "(start, len)"] r(2) by auto
  have "ranges_ok (live r')"
    using ok new before True r'(4) by (cases qs) (auto simp: ranges_ok_append ranges_ok_Cons)
  moreover have "rl_len r' \<le> rl_len r + 1"
    using r'(4) r live_length [OF r'(2)] live_length [OF r(1)] by simp
  ultimately show ?thesis
    using that r' merge_next_stop [OF r new(2) True] r(2) by auto
next
  case False
  then obtain e qs' where qs: "qs = e # qs'" and e: "fst e = start + len"
    using after by (cases qs) auto
  have okq: "ranges_ok (e # qs')" using ok qs by (simp add: ranges_ok_append)
  obtain r1 where r1: "merge_next r (length ps) start len = Some (Ok (len + snd e), r1)"
    "rl_ok r1" "live r1 = ps @ qs'" "length (rl_entries r1) = length (rl_entries r)"
    using merge_next_absorb [OF r(1) _ e okq, of ps] r(2) qs by blast
  have "rl_len r1 < length (rl_entries r1)"
    using r1 live_length [OF r1(2)] live_length [OF r(1)] r(2) qs room by simp
  moreover have "length ps \<le> rl_len r1" using r1 live_length [OF r1(2)] by simp
  ultimately obtain r' where r': "insert_at r1 (length ps) (start, len + snd e) = Some (Ok (), r')"
    "rl_ok r'" "length (rl_entries r') = length (rl_entries r1)"
    "live r' = ps @ (start, len + snd e) # qs'"
    using insert_at_spec [OF r1(2), of "length ps" "(start, len + snd e)"] r1(3) by auto
  have "ranges_ok (live r')"
    using ok new before e qs r'(4) by (auto simp: ranges_ok_append ranges_ok_Cons)
  moreover have "frames_of (live r') = frames_of (live r) \<union> {start ..< start + len}"
    using r'(4) r(2) qs e by auto
  moreover have "rl_len r' \<le> rl_len r + 1"
    using r'(4) r qs live_length [OF r'(2)] live_length [OF r(1)] by simp
  ultimately show ?thesis using that r' r1(1,4) by simp
qed

lemma split_at_start:
  assumes "ranges_ok xs"
  obtains ps qs where "xs = ps @ qs" "\<forall>e \<in> set ps. fst e < start" "qs = [] \<or> start \<le> fst (hd qs)"
proof -
  have "xs = takeWhile (\<lambda>e. fst e < start) xs @ dropWhile (\<lambda>e. fst e < start) xs" by simp
  moreover have "\<forall>e \<in> set (takeWhile (\<lambda>e. fst e < start) xs). fst e < start"
    by (auto dest: set_takeWhileD)
  moreover have "dropWhile (\<lambda>e. fst e < start) xs = [] \<or> start \<le> fst (hd (dropWhile (\<lambda>e. fst e < start) xs))"
    using hd_dropWhile [of "\<lambda>e. fst e < start" xs] by force
  ultimately show ?thesis using that by blast
qed

lemma insert_merged_sorted_fits:
  assumes r: "rl_ok r" "ranges_ok (live r)" and room: "rl_len r < length (rl_entries r)"
    and new: "0 < len" "start + len < usize_range"
    and disj: "{start ..< start + len} \<inter> frames_of (live r) = {}"
  obtains r' where "insert_merged_sorted r start len = Some (Ok (), r')"
    "rl_ok r'" "ranges_ok (live r')" "length (rl_entries r') = length (rl_entries r)"
    "frames_of (live r') = frames_of (live r) \<union> {start ..< start + len}" "rl_len r' \<le> rl_len r + 1"
proof -
  obtain ps qs where xs: "live r = ps @ qs" and ps: "\<forall>e \<in> set ps. fst e < start"
    and qs: "qs = [] \<or> start \<le> fst (hd qs)"
    using split_at_start [OF r(2)] by metis
  have slot: "find_slot r start 0 = Some (length ps)"
    using find_slot_spec [OF r(1) xs ps qs] by simp
  have ok: "ranges_ok (ps @ qs)" using r(2) xs by simp
  have after: "qs = [] \<or> start + len \<le> fst (hd qs)"
  proof (cases qs)
    case (Cons e qs')
    have "fst e \<in> frames_of (live r)" using ok xs Cons by (auto simp: ranges_ok_append ranges_ok_Cons)
    then have "fst e \<notin> {start ..< start + len}" using disj by blast
    then show ?thesis using qs Cons by auto
  qed simp
  have before: "\<forall>d \<in> set ps. fst d + snd d \<le> start"
  proof
    fix d assume d: "d \<in> set ps"
    then have "{fst d ..< fst d + snd d} \<subseteq> frames_of (live r)" using xs by (auto simp: frames_of_def)
    moreover have "start \<notin> frames_of (live r)" using disj new by fastforce
    ultimately have "start \<notin> {fst d ..< fst d + snd d}" by blast
    then show "fst d + snd d \<le> start" using ps d by auto
  qed
  show ?thesis
  proof (cases ps rule: rev_cases)
    case Nil
    then show ?thesis
      using insert_tail_spec [OF r(1) xs ok new _ after room] slot new that
      by (auto simp: insert_merged_sorted_def merge_prev_first)
  next
    case (snoc ps' d)
    have xs': "live r = ps' @ d # qs" using xs snoc by simp
    have d: "fst d + snd d \<le> start" "start < usize_range" using before snoc new by auto
    have ps': "\<forall>c \<in> set ps'. fst c + snd c < fst d" "0 < snd d"
      using ok snoc by (auto simp: ranges_ok_append ranges_ok_Cons)
    show ?thesis
    proof (cases "fst d + snd d = start")
      case False
      have "merge_prev r (length ps) start len = Some (Ok (length ps, start, len), r)"
        using merge_prev_apart [OF r(1) xs' _ d(2)] False d snoc by simp
      moreover have "\<forall>c \<in> set ps. fst c + snd c < start"
        using ps' snoc False d by fastforce
      ultimately show ?thesis
        using insert_tail_spec [OF r(1) xs ok new _ after room] slot new that
        by (auto simp: insert_merged_sorted_def)
    next
      case True
      obtain r1 where r1: "merge_prev r (length ps) start len = Some (Ok (length ps', fst d, snd d + len), r1)"
        "rl_ok r1" "live r1 = ps' @ qs" "length (rl_entries r1) = length (rl_entries r)"
        using merge_prev_join [OF r(1) xs' True new(2)] snoc by metis
      have ok1: "ranges_ok (ps' @ qs)" using ok snoc by (auto simp: ranges_ok_append ranges_ok_Cons)
      have room1: "rl_len r1 < length (rl_entries r1)"
        using r1 live_length [OF r1(2)] live_length [OF r(1)] xs' room by simp
      have h: "0 < snd d + len" "fst d + (snd d + len) < usize_range"
        "\<forall>c \<in> set ps'. fst c + snd c < fst d" "qs = [] \<or> fst d + (snd d + len) \<le> fst (hd qs)"
        using new True after ps' by auto
      obtain r' where r': "and_then (merge_next r1 (length ps') (fst d) (snd d + len))
            (\<lambda>len r. insert_at r (length ps') (fst d, len)) = Some (Ok (), r')"
        "rl_ok r'" "ranges_ok (live r')" "length (rl_entries r') = length (rl_entries r1)"
        "frames_of (live r') = frames_of (live r1) \<union> {fst d ..< fst d + (snd d + len)}"
        "rl_len r' \<le> rl_len r1 + 1"
        by (rule insert_tail_spec [OF r1(2,3) ok1 h room1])
      have "{fst d ..< fst d + (snd d + len)} = {fst d ..< fst d + snd d} \<union> {start ..< start + len}"
        unfolding True [symmetric] by auto
      then have "frames_of (live r') = frames_of (live r) \<union> {start ..< start + len}"
        unfolding r'(5) r1(3) xs' by (simp add: Un_ac)
      moreover have "rl_len r' \<le> rl_len r + 1"
        using r'(6) r1(3) xs' live_length [OF r1(2)] live_length [OF r(1)] by simp
      ultimately show ?thesis
        using that r' r1 slot new by (simp add: insert_merged_sorted_def)
    qed
  qed
qed

lemma insert_merged_sorted_overlap:
  assumes r: "rl_ok r" "ranges_ok (live r)" and new: "start + len < usize_range"
    and meet: "{start ..< start + len} \<inter> frames_of (live r) \<noteq> {}"
  obtains r' where "insert_merged_sorted r start len = Some (Err InvalidMemoryMap, r')"
proof -
  obtain ps qs where xs: "live r = ps @ qs" and ps: "\<forall>e \<in> set ps. fst e < start"
    and qs: "qs = [] \<or> start \<le> fst (hd qs)"
    using split_at_start [OF r(2)] by metis
  have slot: "find_slot r start 0 = Some (length ps)"
    using find_slot_spec [OF r(1) xs ps qs] by simp
  have len: "0 < len" using meet by auto
  have ok: "ranges_ok (ps @ qs)" using r(2) xs by simp
  have next_overlap: "qs \<noteq> [] \<and> fst (hd qs) < start + len" if "\<forall>d \<in> set ps. fst d + snd d \<le> start"
  proof -
    obtain f where f: "start \<le> f" "f < start + len" "f \<in> frames_of (live r)" using meet by auto
    then obtain e where e: "e \<in> set (ps @ qs)" "fst e \<le> f" "f < fst e + snd e"
      using xs by (auto simp: frames_of_def)
    then have "e \<in> set qs" using that f by fastforce
    then show ?thesis using ok e f by (cases qs) (auto simp: ranges_ok_append ranges_ok_Cons)
  qed
  show ?thesis
  proof (cases ps rule: rev_cases)
    case Nil
    then obtain e qs' where "qs = e # qs'" "fst e < start + len" using next_overlap by (cases qs) auto
    then have "merge_next r 0 start len = Some (Err InvalidMemoryMap, r)"
      using merge_next_overlap [OF r(1), of "[]"] xs Nil by simp
    then show ?thesis
      using that slot len Nil by (simp add: insert_merged_sorted_def merge_prev_first)
  next
    case (snoc ps' d)
    have xs': "live r = ps' @ d # qs" using xs snoc by simp
    have ps': "\<forall>c \<in> set ps'. fst c + snd c < fst d" "0 < snd d" "fst d < start"
      using ok snoc ps by (auto simp: ranges_ok_append ranges_ok_Cons)
    consider (over) "start < fst d + snd d" | (join) "fst d + snd d = start" | (apart) "fst d + snd d < start"
      by linarith
    then show ?thesis
    proof cases
      case over
      then show ?thesis
        using that merge_prev_overlap [OF r(1) xs' over] slot len snoc
        by (simp add: insert_merged_sorted_def)
    next
      case apart
      then obtain e qs' where "qs = e # qs'" "fst e < start + len"
        using next_overlap ps' snoc by (cases qs) fastforce+
      then have "merge_next r (length ps) start len = Some (Err InvalidMemoryMap, r)"
        using merge_next_overlap [OF r(1)] xs by simp
      then show ?thesis
        using that slot len snoc merge_prev_apart [OF r(1) xs' apart] new
        by (simp add: insert_merged_sorted_def)
    next
      case join
      then obtain e qs' where e: "qs = e # qs'" "fst e < start + len"
        using next_overlap ps' snoc by (cases qs) fastforce+
      obtain r1 where r1: "merge_prev r (length ps) start len = Some (Ok (length ps', fst d, snd d + len), r1)"
        "rl_ok r1" "live r1 = ps' @ qs"
        using merge_prev_join [OF r(1) xs' join new] snoc by metis
      then have "merge_next r1 (length ps') (fst d) (snd d + len) = Some (Err InvalidMemoryMap, r1)"
        using merge_next_overlap [OF r1(2)] e join by simp
      then show ?thesis
        using that slot len r1(1) by (simp add: insert_merged_sorted_def)
    qed
  qed
qed

section \<open>Page alignment\<close>

lemma and_high_mask:
  assumes "a < usize_range" "k \<le> 64"
  shows "a AND (usize_range - 2 ^ k) = a div 2 ^ k * 2 ^ k"
proof -
  have mask: "usize_range - 2 ^ k = push_bit k (mask (64 - k) :: nat)"
    using assms(2) by (simp add: usize_range_def push_bit_eq_mult mask_eq_exp_minus_1 diff_mult_distrib
        flip: power_add)
  have "a AND push_bit k (mask (64 - k)) = push_bit k (drop_bit k a)"
  proof (rule bit_eqI)
    fix n
    have "n < 64" if "bit a n"
      using that assms(1) bit_take_bit_iff [of 64 a n] by (simp add: take_bit_nat_eq_self usize_range_def)
    then show "bit (a AND push_bit k (mask (64 - k))) n \<longleftrightarrow> bit (push_bit k (drop_bit k a)) n"
      by (auto simp: bit_and_iff bit_push_bit_iff bit_mask_iff bit_drop_bit_eq)
  qed
  then show ?thesis by (simp add: mask push_bit_eq_mult drop_bit_eq_div)
qed

lemma align_down_page: "a < usize_range \<Longrightarrow> align_down a PAGE_SIZE = a div PAGE_SIZE * PAGE_SIZE"
  using and_high_mask [of a 12] by (simp add: align_down_def PAGE_SIZE_def PAGE_SHIFT_def)

lemma align_up_page:
  assumes "a + PAGE_SIZE \<le> usize_range"
  shows "align_up a PAGE_SIZE = (a + PAGE_SIZE - 1) div PAGE_SIZE * PAGE_SIZE"
proof -
  have "wsub (wadd a PAGE_SIZE) 1 = a + PAGE_SIZE - 1"
  proof (cases "a + PAGE_SIZE = usize_range")
    case True
    then have "wadd a PAGE_SIZE = 0" by (simp add: wadd_def)
    then show ?thesis using True by (simp add: wsub_def usize_range_def)
  next
    case False
    then show ?thesis using assms by (simp add: usize_simps PAGE_SIZE_def PAGE_SHIFT_def)
  qed
  moreover have "a + PAGE_SIZE - 1 < usize_range" using assms by (simp add: PAGE_SIZE_def PAGE_SHIFT_def)
  ultimately show ?thesis
    using and_high_mask [of "a + PAGE_SIZE - 1" 12]
    by (simp add: align_up_def PAGE_SIZE_def PAGE_SHIFT_def)
qed

section \<open>The frames of a memory map\<close>

text \<open>A frame is usable if all of its bytes lie in one usable region.\<close>

definition region_frames :: "memory_region \<Rightarrow> usize set" where
  "region_frames g = {f. region_kind g = USABLE \<and> region_start g \<le> f * PAGE_SIZE \<and>
     f * PAGE_SIZE + PAGE_SIZE \<le> region_start g + region_len g}"

lemma region_frames_interval:
  assumes "region_kind g = USABLE"
  shows "region_frames g =
    {(region_start g + PAGE_SIZE - 1) div PAGE_SIZE ..< (region_start g + region_len g) div PAGE_SIZE}"
proof -
  have "region_start g \<le> f * 4096 \<longleftrightarrow> (region_start g + 4096 - 1) div 4096 \<le> f" for f by linarith
  moreover have "f * 4096 + 4096 \<le> e \<longleftrightarrow> f < e div 4096" for f e :: nat by linarith
  ultimately show ?thesis
    using assms by (auto simp: region_frames_def PAGE_SIZE_def PAGE_SHIFT_def)
qed

text \<open>
  One region: away from the very top of the address space, where \<open>align_up\<close> would wrap,
  the region contributes exactly its frames, or the map is refused because it overlaps
  what was collected before.
\<close>

lemma collect_region_eq:
  assumes "region_kind g = USABLE" "region_start g + PAGE_SIZE \<le> usize_range" "region_start g + region_len g < usize_range"
  obtains start len where "region_frames g = {start ..< start + len}" "start + len < usize_range"
    "collect_region g r = (if len = 0 then Some (Ok (), r) else insert_merged_sorted r start len)"
proof -
  let ?s = "(region_start g + PAGE_SIZE - 1) div PAGE_SIZE" and ?e = "(region_start g + region_len g) div PAGE_SIZE"
  have pos: "0 < PAGE_SIZE" by (simp add: PAGE_SIZE_def)
  note up = align_up_page [OF assms(2)] and down = align_down_page [OF assms(3)] and fr = region_frames_interval [OF assms(1)]
  have le: "?e * PAGE_SIZE \<le> ?s * PAGE_SIZE \<longleftrightarrow> ?e \<le> ?s" using pos by simp
  show ?thesis
  proof (cases "?e \<le> ?s")
    case True
    then show ?thesis
      using that [of 0 0] assms fr le by (simp add: collect_region_def up down checked_add_def)
  next
    case False
    have shift: "drop_bit PAGE_SHIFT (?s * PAGE_SIZE) = ?s"
      "drop_bit PAGE_SHIFT (?e * PAGE_SIZE - ?s * PAGE_SIZE) = ?e - ?s"
      by (simp_all add: drop_bit_eq_div PAGE_SIZE_def flip: diff_mult_distrib)
    have "?e < usize_range" using div_le_dividend assms(3) by (rule le_less_trans)
    then show ?thesis
      using that [of ?s "?e - ?s"] False assms fr shift le by (simp add: collect_region_def up down checked_add_def Let_def)
  qed
qed

lemma collect_region_spec:
  assumes r: "rl_ok r" "ranges_ok (live r)" and room: "rl_len r < length (rl_entries r)"
    and g: "region_start g + PAGE_SIZE \<le> usize_range" "region_start g + region_len g < usize_range"
    and disj: "region_frames g \<inter> frames_of (live r) = {}"
  obtains r' where "collect_region g r = Some (Ok (), r')"
    "rl_ok r'" "ranges_ok (live r')" "length (rl_entries r') = length (rl_entries r)"
    "frames_of (live r') = frames_of (live r) \<union> region_frames g" "rl_len r' \<le> rl_len r + 1"
proof (cases "region_kind g = USABLE")
  case False
  then show ?thesis using that [of r] r by (simp add: collect_region_def region_frames_def)
next
  case True
  obtain start len where fr: "region_frames g = {start ..< start + len}" "start + len < usize_range"
    and eq: "collect_region g r = (if len = 0 then Some (Ok (), r) else insert_merged_sorted r start len)"
    by (rule collect_region_eq [OF True g])
  show ?thesis
  proof (cases "len = 0")
    case True
    then show ?thesis using that [of r] r fr eq by simp
  next
    case False
    then obtain r' where "insert_merged_sorted r start len = Some (Ok (), r')"
      "rl_ok r'" "ranges_ok (live r')" "length (rl_entries r') = length (rl_entries r)"
      "frames_of (live r') = frames_of (live r) \<union> {start ..< start + len}" "rl_len r' \<le> rl_len r + 1"
      using insert_merged_sorted_fits [OF r room _ fr(2)] disj fr(1) by auto
    then show ?thesis using that False eq fr(1) by simp
  qed
qed

lemma collect_region_overlap:
  assumes r: "rl_ok r" "ranges_ok (live r)"
    and g: "region_start g + PAGE_SIZE \<le> usize_range" "region_start g + region_len g < usize_range"
    and meet: "region_frames g \<inter> frames_of (live r) \<noteq> {}"
  obtains r' where "collect_region g r = Some (Err InvalidMemoryMap, r')"
proof -
  have "region_kind g = USABLE" using meet by (auto simp: region_frames_def)
  then obtain start len where fr: "region_frames g = {start ..< start + len}" "start + len < usize_range"
    and eq: "collect_region g r = (if len = 0 then Some (Ok (), r) else insert_merged_sorted r start len)"
    by (rule collect_region_eq [OF _ g])
  have m: "{start ..< start + len} \<inter> frames_of (live r) \<noteq> {}" using meet fr(1) by simp
  obtain r' where "insert_merged_sorted r start len = Some (Err InvalidMemoryMap, r')"
    by (rule insert_merged_sorted_overlap [OF r fr(2) m])
  then show ?thesis using that eq m by auto
qed

lemma collect_regions_append:
  "collect_regions (gs @ hs) r = and_then (collect_regions gs r) (\<lambda>_. collect_regions hs)"
  by (induction gs arbitrary: r) (auto simp: and_then_def split: option.splits result.splits)

text \<open>The whole map: the collected ranges hold exactly the frames of the usable regions.\<close>

lemma collect_regions_spec:
  assumes "rl_ok r" "ranges_ok (live r)" "rl_len r + length gs \<le> length (rl_entries r)"
    "\<forall>g \<in> set gs. region_start g + PAGE_SIZE \<le> usize_range \<and> region_start g + region_len g < usize_range"
    "\<forall>g \<in> set gs. region_frames g \<inter> frames_of (live r) = {}"
    "sorted_wrt (\<lambda>g h. region_frames g \<inter> region_frames h = {}) gs"
  shows "\<exists>r'. collect_regions gs r = Some (Ok (), r') \<and> rl_ok r' \<and> ranges_ok (live r') \<and>
    length (rl_entries r') = length (rl_entries r) \<and>
    frames_of (live r') = frames_of (live r) \<union> (\<Union>g \<in> set gs. region_frames g)"
  using assms
proof (induction gs arbitrary: r)
  case Nil
  then show ?case by simp
next
  case (Cons g gs)
  obtain r1 where r1: "collect_region g r = Some (Ok (), r1)" "rl_ok r1" "ranges_ok (live r1)"
    "length (rl_entries r1) = length (rl_entries r)"
    "frames_of (live r1) = frames_of (live r) \<union> region_frames g" "rl_len r1 \<le> rl_len r + 1"
    by (rule collect_region_spec [OF Cons.prems(1,2), of g]) (use Cons.prems(3-5) in auto)
  have "\<exists>r'. collect_regions gs r1 = Some (Ok (), r') \<and> rl_ok r' \<and> ranges_ok (live r') \<and>
    length (rl_entries r') = length (rl_entries r1) \<and>
    frames_of (live r') = frames_of (live r1) \<union> (\<Union>g \<in> set gs. region_frames g)"
    using Cons.prems r1(2-6) by (intro Cons.IH) (auto simp: Int_Un_distrib)
  then show ?case using r1 by auto
qed

lemma total_frames_spec:
  assumes "rl_ok r" "index \<le> rl_len r" "acc + sum_list (map snd (drop index (live r))) < usize_range"
  shows "total_frames_from r index acc = Some (Ok (acc + sum_list (map snd (drop index (live r)))))"
  using assms(2,3)
proof (induction "rl_len r - index" arbitrary: index acc)
  case 0
  then show ?case using live_length [OF assms(1)] by (subst total_frames_from.simps) simp
next
  case (Suc n)
  then have i: "index < rl_len r" by simp
  then have d: "drop index (live r) = live r ! index # drop (index + 1) (live r)"
    using live_length [OF assms(1)] by (simp add: Cons_nth_drop_Suc)
  have "total_frames_from r index acc = total_frames_from r (index + 1) (acc + snd (live r ! index))"
    using i live_nth [OF assms(1) i] Suc.prems d
    by (subst total_frames_from.simps) (simp add: checked_add_def)
  also have "\<dots> = Some (Ok (acc + snd (live r ! index) + sum_list (map snd (drop (index + 1) (live r)))))"
    using Suc.hyps(2) Suc.prems d i by (intro Suc.hyps(1)) auto
  finally show ?case using d by (simp add: add.assoc)
qed

lemma frames_of_finite [simp]: "finite (frames_of xs)"
  by (simp add: frames_of_def)

lemma card_frames_of: "ranges_ok xs \<Longrightarrow> card (frames_of xs) = sum_list (map snd xs)"
proof (induction xs)
  case (Cons e xs)
  have "{fst e ..< fst e + snd e} \<inter> frames_of xs = {}"
    using Cons.prems by (force simp: ranges_ok_Cons frames_of_def)
  then show ?case using Cons by (simp add: card_Un_disjoint ranges_ok_Cons)
qed simp

lemma frames_of_bound: "ranges_ok xs \<Longrightarrow> f \<in> frames_of xs \<Longrightarrow> f + 1 < usize_range"
  by (fastforce simp: frames_of_def ranges_ok_def)

lemma card_frames_of_bound: "ranges_ok xs \<Longrightarrow> card (frames_of xs) < usize_range"
proof -
  assume ok: "ranges_ok xs"
  have "frames_of xs \<subseteq> {..< usize_range - 1}"
  proof
    fix f assume "f \<in> frames_of xs"
    then have "f + 1 < usize_range" by (rule frames_of_bound [OF ok])
    then show "f \<in> {..< usize_range - 1}" by simp
  qed
  from card_mono [OF _ this] have "card (frames_of xs) \<le> usize_range - 1" by simp
  then show ?thesis using usize_range_pos by linarith
qed

lemma rl_total_frames_spec:
  "rl_ok r \<Longrightarrow> ranges_ok (live r) \<Longrightarrow> rl_total_frames r = Some (Ok (card (frames_of (live r))))"
  using total_frames_spec [of r 0 0] card_frames_of [of "live r"] card_frames_of_bound [of "live r"]
  by (simp add: rl_total_frames_def)

end
