(* ===== verification/Buddy.thy ===== *)
theory Buddy
  imports Frame_Ranges
begin

text \<open>
  The buddy frame allocator of \<open>aether-frame/src/mm/buddy.rs\<close>, written as the code has it:
  an array of metadata nodes threaded into singly linked lists by index (the unused nodes,
  one free list per order sorted by start frame, one cache per CPU and small order, and
  the list of allocated blocks). Every array access can panic and every walk along a list
  may run forever, so the operations return \<open>None\<close> in those cases; that they never do is
  proved in the theories that follow.
\<close>

section \<open>Constants and arithmetic\<close>

definition MAX_ORDER_SLOTS :: nat where
  "MAX_ORDER_SLOTS = 64"

definition PER_CPU_CACHE_MAX_ORDER :: nat where
  "PER_CPU_CACHE_MAX_ORDER = 4"

text \<open>A shift by an amount of 64 or more uses the amount modulo 64 in a release build.\<close>

definition block_size :: "usize \<Rightarrow> usize" where
  "block_size order = 2 ^ (order mod 64)"

fun bit_len :: "nat \<Rightarrow> nat" where
  "bit_len n = (if n = 0 then 0 else Suc (bit_len (n div 2)))"

declare bit_len.simps [simp del]

definition leading_zeros :: "usize \<Rightarrow> nat" where
  "leading_zeros n = 64 - bit_len n"

definition ceil_log2 :: "usize \<Rightarrow> usize" where
  "ceil_log2 n = (if n \<le> 1 then 0 else 64 - leading_zeros (n - 1))"

definition floor_log2 :: "usize \<Rightarrow> usize" where
  "floor_log2 n = wsub 63 (leading_zeros n)"

definition order_for_count :: "usize \<Rightarrow> usize \<Rightarrow> (frame_alloc_error, usize) result" where
  "order_for_count count max_order =
     (if count = 0 then Err InvalidCount
      else let order = ceil_log2 count
           in if order > max_order then Err InvalidCount else Ok order)"

definition refill_batch :: "usize \<Rightarrow> usize" where
  "refill_batch order = 2 ^ (PER_CPU_CACHE_MAX_ORDER - order)"

definition high_watermark :: "usize \<Rightarrow> usize" where
  "high_watermark order = refill_batch order * 2"

fun lower_order :: "usize \<Rightarrow> usize \<Rightarrow> usize" where
  "lower_order start 0 = 0"
| "lower_order start (Suc order) =
     (if \<not> block_size (Suc order) dvd start then lower_order start order else Suc order)"

definition max_fit_order :: "usize \<Rightarrow> usize \<Rightarrow> usize \<Rightarrow> usize" where
  "max_fit_order start remaining max_order = lower_order start (min (floor_log2 remaining) max_order)"

section \<open>Nodes and the node pool\<close>

record block_node =
  bn_start :: usize
  bn_order :: usize
  bn_refcount :: nat
  bn_next :: "usize option"

definition EMPTY :: block_node where
  "EMPTY = \<lparr>bn_start = 0, bn_order = 0, bn_refcount = 0, bn_next = None\<rparr>"

record node_pool =
  pool_nodes :: "block_node list"
  unused_head :: "usize option"
  unused_len :: usize

definition has_unused :: "node_pool \<Rightarrow> usize \<Rightarrow> bool" where
  "has_unused p need \<longleftrightarrow> unused_len p \<ge> need"

definition alloc_unused :: "node_pool \<Rightarrow> (node_pool, frame_alloc_error, usize) run" where
  "alloc_unused p = (case unused_head p of
       None \<Rightarrow> Some (Err MetadataExhausted, p)
     | Some index \<Rightarrow> do {
         n \<leftarrow> at (pool_nodes p) index;
         Some (Ok index, p\<lparr>unused_head := bn_next n,
           pool_nodes := (pool_nodes p)[index := n\<lparr>bn_next := None\<rparr>],
           unused_len := wsub (unused_len p) 1\<rparr>)
       })"

definition release_unused :: "node_pool \<Rightarrow> usize \<Rightarrow> node_pool option" where
  "release_unused p index = do {
     ns \<leftarrow> put (pool_nodes p) index (EMPTY\<lparr>bn_next := unused_head p\<rparr>);
     Some (p\<lparr>pool_nodes := ns, unused_head := Some index, unused_len := wadd (unused_len p) 1\<rparr>)
   }"

definition pool_init :: "nat \<Rightarrow> node_pool" where
  "pool_init cap =
     \<lparr>pool_nodes = map (\<lambda>index. EMPTY\<lparr>bn_next := if index + 1 < cap then Some (index + 1) else None\<rparr>) [0..<cap],
      unused_head = (if cap = 0 then None else Some 0),
      unused_len = cap\<rparr>"

section \<open>The allocator state\<close>

record per_cpu_cache =
  heads :: "usize option list"
  lens :: "usize list"

definition cache_new :: per_cpu_cache where
  "cache_new = \<lparr>heads = replicate (PER_CPU_CACHE_MAX_ORDER + 1) None,
                lens = replicate (PER_CPU_CACHE_MAX_ORDER + 1) 0\<rparr>"

definition cache_len :: "per_cpu_cache \<Rightarrow> usize \<Rightarrow> usize option" where
  "cache_len c order = at (lens c) order"

text \<open>
  The loops of both \<open>free_pages\<close> functions: the lengths of the lists of the given orders,
  each times the block size of its order.
\<close>

fun sum_pages :: "usize list \<Rightarrow> usize list \<Rightarrow> usize \<Rightarrow> usize option" where
  "sum_pages ls [] acc = Some acc"
| "sum_pages ls (order # orders) acc = do {
     n \<leftarrow> at ls order;
     sum_pages ls orders (wadd acc (wmul n (block_size order)))
   }"

definition cache_free_pages :: "per_cpu_cache \<Rightarrow> usize option" where
  "cache_free_pages c = sum_pages (lens c) [0..<PER_CPU_CACHE_MAX_ORDER + 1] 0"

record buddy =
  total_frames :: usize
  max_order :: usize
  cpu_count :: usize
  usable_ranges :: range_list
  global_free_heads :: "usize option list"
  global_free_lens :: "usize list"
  allocations_head :: "usize option"
  allocation_len :: usize
  per_cpu :: "per_cpu_cache list"
  nodes :: node_pool

abbreviation node_array :: "buddy \<Rightarrow> block_node list" where
  "node_array s \<equiv> pool_nodes (nodes s)"

text \<open>A write to the node array.\<close>

definition set_nodes :: "buddy \<Rightarrow> block_node list \<Rightarrow> buddy" where
  "set_nodes s ns = s\<lparr>nodes := (nodes s)\<lparr>pool_nodes := ns\<rparr>\<rparr>"

definition upd_node :: "buddy \<Rightarrow> usize \<Rightarrow> (block_node \<Rightarrow> block_node) \<Rightarrow> buddy option" where
  "upd_node s i f = do {
     n \<leftarrow> at (node_array s) i;
     Some (set_nodes s ((node_array s)[i := f n]))
   }"

text \<open>The calls \<open>self.nodes.alloc_unused()?\<close> and \<open>self.nodes.release_unused(i)\<close>.\<close>

definition pool_alloc :: "buddy \<Rightarrow> (buddy, frame_alloc_error, usize) run" where
  "pool_alloc s = do {
     (r, p) \<leftarrow> alloc_unused (nodes s);
     Some (r, s\<lparr>nodes := p\<rparr>)
   }"

definition pool_release :: "buddy \<Rightarrow> usize \<Rightarrow> buddy option" where
  "pool_release s i = do {
     p \<leftarrow> release_unused (nodes s) i;
     Some (s\<lparr>nodes := p\<rparr>)
   }"

fun sum_caches :: "per_cpu_cache list \<Rightarrow> usize list \<Rightarrow> usize \<Rightarrow> usize option" where
  "sum_caches cs [] acc = Some acc"
| "sum_caches cs (cpu_id # cpus) acc = do {
     c \<leftarrow> at cs cpu_id;
     n \<leftarrow> cache_free_pages c;
     sum_caches cs cpus (wadd acc n)
   }"

definition free_pages :: "buddy \<Rightarrow> usize option" where
  "free_pages s = do {
     global \<leftarrow> sum_pages (global_free_lens s) [0..<max_order s + 1] 0;
     local \<leftarrow> sum_caches (per_cpu s) [0..<cpu_count s] 0;
     Some (wadd global local)
   }"

definition checked_cpu :: "buddy \<Rightarrow> usize \<Rightarrow> (frame_alloc_error, usize) result" where
  "checked_cpu s cpu_id = (if cpu_id < cpu_count s then Ok cpu_id else Err InvalidCpu)"

definition cpu_cache_len :: "buddy \<Rightarrow> usize \<Rightarrow> usize \<Rightarrow> (frame_alloc_error, usize) result option" where
  "cpu_cache_len s cpu_id order = (case checked_cpu s cpu_id of
       Err e \<Rightarrow> Some (Err e)
     | Ok cpu_id \<Rightarrow>
         if order > PER_CPU_CACHE_MAX_ORDER then Some (Err InvalidCount)
         else do {
           c \<leftarrow> at (per_cpu s) cpu_id;
           n \<leftarrow> cache_len c order;
           Some (Ok n)
         })"

definition global_free_len :: "buddy \<Rightarrow> usize \<Rightarrow> (frame_alloc_error, usize) result option" where
  "global_free_len s order =
     (if order > max_order s then Some (Err InvalidCount)
      else do { n \<leftarrow> at (global_free_lens s) order; Some (Ok n) })"

section \<open>The sorted free lists\<close>

text \<open>
  The search loop of \<open>global_insert_sorted\<close>: the node to insert after and the node that
  follows, or an error when the start is already there.
\<close>

partial_function (option) insert_scan ::
    "block_node list \<Rightarrow> usize \<Rightarrow> usize option \<Rightarrow> usize option
      \<Rightarrow> (frame_alloc_error, usize option \<times> usize option) result option" where [code]:
  "insert_scan ns start cursor previous = (case cursor of
       None \<Rightarrow> Some (Ok (previous, None))
     | Some current_index \<Rightarrow> do {
         n \<leftarrow> at ns current_index;
         if bn_start n = start then Some (Err InvalidFrame)
         else if bn_start n > start then Some (Ok (previous, cursor))
         else insert_scan ns start (bn_next n) (Some current_index)
       })"

definition global_insert_sorted :: "buddy \<Rightarrow> usize \<Rightarrow> usize \<Rightarrow> (buddy, frame_alloc_error, unit) run" where
  "global_insert_sorted s order node_index = do {
     n \<leftarrow> at (node_array s) node_index;
     head \<leftarrow> at (global_free_heads s) order;
     r \<leftarrow> insert_scan (node_array s) (bn_start n) head None;
     case r of
       Err e \<Rightarrow> Some (Err e, s)
     | Ok (previous, cursor) \<Rightarrow> do {
         s1 \<leftarrow> upd_node s node_index (\<lambda>n. n\<lparr>bn_next := cursor\<rparr>);
         s2 \<leftarrow> (case previous of
             Some previous_index \<Rightarrow> upd_node s1 previous_index (\<lambda>n. n\<lparr>bn_next := Some node_index\<rparr>)
           | None \<Rightarrow> do {
               hs \<leftarrow> put (global_free_heads s1) order (Some node_index);
               Some (s1\<lparr>global_free_heads := hs\<rparr>)
             });
         len \<leftarrow> at (global_free_lens s2) order;
         Some (Ok (), s2\<lparr>global_free_lens := (global_free_lens s2)[order := wadd len 1]\<rparr>)
       }
   }"

definition global_pop_first :: "buddy \<Rightarrow> usize \<Rightarrow> (usize option \<times> buddy) option" where
  "global_pop_first s order = do {
     head \<leftarrow> at (global_free_heads s) order;
     case head of
       None \<Rightarrow> Some (None, s)
     | Some node_index \<Rightarrow> do {
         n \<leftarrow> at (node_array s) node_index;
         len \<leftarrow> at (global_free_lens s) order;
         s1 \<leftarrow> upd_node (s\<lparr>global_free_heads := (global_free_heads s)[order := bn_next n],
                           global_free_lens := (global_free_lens s)[order := wsub len 1]\<rparr>)
                 node_index (\<lambda>n. n\<lparr>bn_next := None\<rparr>);
         Some (Some node_index, s1)
       }
   }"

text \<open>The search loop of \<open>global_remove_by_start\<close>: the node before and the node found.\<close>

partial_function (option) remove_scan ::
    "block_node list \<Rightarrow> usize \<Rightarrow> usize option \<Rightarrow> usize option
      \<Rightarrow> (usize option \<times> usize) option option" where [code]:
  "remove_scan ns start cursor previous = (case cursor of
       None \<Rightarrow> Some None
     | Some node_index \<Rightarrow> do {
         n \<leftarrow> at ns node_index;
         if bn_start n = start then Some (Some (previous, node_index))
         else if bn_start n > start then Some None
         else remove_scan ns start (bn_next n) (Some node_index)
       })"

definition global_remove_by_start :: "buddy \<Rightarrow> usize \<Rightarrow> usize \<Rightarrow> (usize option \<times> buddy) option" where
  "global_remove_by_start s order start = do {
     head \<leftarrow> at (global_free_heads s) order;
     found \<leftarrow> remove_scan (node_array s) start head None;
     case found of
       None \<Rightarrow> Some (None, s)
     | Some (previous, node_index) \<Rightarrow> do {
         n \<leftarrow> at (node_array s) node_index;
         s1 \<leftarrow> (case previous of
             Some previous_index \<Rightarrow> upd_node s previous_index (\<lambda>p. p\<lparr>bn_next := bn_next n\<rparr>)
           | None \<Rightarrow> do {
               hs \<leftarrow> put (global_free_heads s) order (bn_next n);
               Some (s\<lparr>global_free_heads := hs\<rparr>)
             });
         len \<leftarrow> at (global_free_lens s1) order;
         s2 \<leftarrow> upd_node (s1\<lparr>global_free_lens := (global_free_lens s1)[order := wsub len 1]\<rparr>)
                 node_index (\<lambda>n. n\<lparr>bn_next := None\<rparr>);
         Some (Some node_index, s2)
       }
   }"

section \<open>The per-CPU caches\<close>

definition cpu_push :: "buddy \<Rightarrow> usize \<Rightarrow> usize \<Rightarrow> usize \<Rightarrow> buddy option" where
  "cpu_push s cpu_id order node_index = do {
     c \<leftarrow> at (per_cpu s) cpu_id;
     head \<leftarrow> at (heads c) order;
     len \<leftarrow> at (lens c) order;
     s1 \<leftarrow> upd_node s node_index (\<lambda>n. n\<lparr>bn_order := order, bn_refcount := 0, bn_next := head\<rparr>);
     Some (s1\<lparr>per_cpu := (per_cpu s1)[cpu_id := c\<lparr>heads := (heads c)[order := Some node_index],
                                                  lens := (lens c)[order := wadd len 1]\<rparr>]\<rparr>)
   }"

definition cpu_pop :: "buddy \<Rightarrow> usize \<Rightarrow> usize \<Rightarrow> (usize option \<times> buddy) option" where
  "cpu_pop s cpu_id order = do {
     c \<leftarrow> at (per_cpu s) cpu_id;
     head \<leftarrow> at (heads c) order;
     case head of
       None \<Rightarrow> Some (None, s)
     | Some node_index \<Rightarrow> do {
         n \<leftarrow> at (node_array s) node_index;
         len \<leftarrow> at (lens c) order;
         s1 \<leftarrow> upd_node (s\<lparr>per_cpu := (per_cpu s)[cpu_id := c\<lparr>heads := (heads c)[order := bn_next n],
                                                                lens := (lens c)[order := wsub len 1]\<rparr>]\<rparr>)
                 node_index (\<lambda>n. n\<lparr>bn_next := None\<rparr>);
         Some (Some node_index, s1)
       }
   }"

section \<open>The list of allocated blocks\<close>

definition mark_allocated :: "buddy \<Rightarrow> usize \<Rightarrow> usize \<Rightarrow> (buddy, frame_alloc_error, usize) run" where
  "mark_allocated s node_index order = do {
     n \<leftarrow> at (node_array s) node_index;
     if bn_refcount n \<noteq> 0 then Some (Err InvalidFrame, s)
     else do {
       s1 \<leftarrow> upd_node s node_index
               (\<lambda>n. n\<lparr>bn_order := order, bn_refcount := 1, bn_next := allocations_head s\<rparr>);
       Some (Ok (bn_start n), s1\<lparr>allocations_head := Some node_index,
                                 allocation_len := wadd (allocation_len s1) 1\<rparr>)
     }
   }"

partial_function (option) find_allocation_from ::
    "block_node list \<Rightarrow> usize \<Rightarrow> usize option \<Rightarrow> usize option option" where [code]:
  "find_allocation_from ns start cursor = (case cursor of
       None \<Rightarrow> Some None
     | Some node_index \<Rightarrow> do {
         n \<leftarrow> at ns node_index;
         if bn_start n = start then Some (Some node_index)
         else find_allocation_from ns start (bn_next n)
       })"

definition find_allocation_index :: "buddy \<Rightarrow> usize \<Rightarrow> usize option option" where
  "find_allocation_index s start = find_allocation_from (node_array s) start (allocations_head s)"

text \<open>The search loop of \<open>remove_allocation_node\<close>: the node before the target, if it is there.\<close>

partial_function (option) target_scan ::
    "block_node list \<Rightarrow> usize \<Rightarrow> usize option \<Rightarrow> usize option \<Rightarrow> usize option option option" where [code]:
  "target_scan ns target cursor previous = (case cursor of
       None \<Rightarrow> Some None
     | Some node_index \<Rightarrow>
         if node_index = target then Some (Some previous)
         else do {
           n \<leftarrow> at ns node_index;
           target_scan ns target (bn_next n) (Some node_index)
         })"

definition remove_allocation_node :: "buddy \<Rightarrow> usize \<Rightarrow> (buddy, frame_alloc_error, unit) run" where
  "remove_allocation_node s target = do {
     found \<leftarrow> target_scan (node_array s) target (allocations_head s) None;
     case found of
       None \<Rightarrow> Some (Err InvalidFrame, s)
     | Some previous \<Rightarrow> do {
         n \<leftarrow> at (node_array s) target;
         s1 \<leftarrow> (case previous of
             Some previous_index \<Rightarrow> upd_node s previous_index (\<lambda>p. p\<lparr>bn_next := bn_next n\<rparr>)
           | None \<Rightarrow> Some (s\<lparr>allocations_head := bn_next n\<rparr>));
         s2 \<leftarrow> upd_node s1 target (\<lambda>n. n\<lparr>bn_next := None\<rparr>);
         Some (Ok (), s2\<lparr>allocation_len := wsub (allocation_len s2) 1\<rparr>)
       }
   }"

section \<open>Splitting and merging\<close>

function search_order :: "buddy \<Rightarrow> usize \<Rightarrow> usize option" where
  "search_order s current_order =
     (if current_order \<le> max_order s
      then do {
        head \<leftarrow> at (global_free_heads s) current_order;
        if head = None then search_order s (current_order + 1) else Some current_order
      }
      else Some current_order)"
  by pat_completeness auto
termination
  by (relation "measure (\<lambda>(s, current_order). max_order s + 1 - current_order)") auto

declare search_order.simps [simp del]

text \<open>The loop that halves a block until it has the order asked for.\<close>

fun split_down :: "buddy \<Rightarrow> usize \<Rightarrow> usize \<Rightarrow> usize \<Rightarrow> (buddy, frame_alloc_error, unit) run" where
  "split_down s node_index order 0 = Some (Ok (), s)"
| "split_down s node_index order (Suc current_order) =
     (if Suc current_order > order
      then do {
        n \<leftarrow> at (node_array s) node_index;
        let buddy_start = wadd (bn_start n) (block_size current_order);
        and_then (pool_alloc s) (\<lambda>buddy_index s. do {
          s \<leftarrow> upd_node s buddy_index (\<lambda>_. \<lparr>bn_start = buddy_start, bn_order = current_order,
                                             bn_refcount = 0, bn_next = None\<rparr>);
          and_then (global_insert_sorted s current_order buddy_index) (\<lambda>_ s. do {
            s \<leftarrow> upd_node s node_index (\<lambda>n. n\<lparr>bn_order := current_order\<rparr>);
            split_down s node_index order current_order
          })
        })
      }
      else Some (Ok (), s))"

definition alloc_from_global :: "buddy \<Rightarrow> usize \<Rightarrow> (buddy, frame_alloc_error, usize) run" where
  "alloc_from_global s order = do {
     current_order \<leftarrow> search_order s order;
     if current_order > max_order s then Some (Err OutOfMemory, s)
     else if \<not> has_unused (nodes s) (current_order - order) then Some (Err MetadataExhausted, s)
     else do {
       (popped, s) \<leftarrow> global_pop_first s current_order;
       node_index \<leftarrow> popped;
       s \<leftarrow> upd_node s node_index (\<lambda>n. n\<lparr>bn_order := current_order\<rparr>);
       and_then (split_down s node_index order current_order) (\<lambda>_ s. Some (Ok node_index, s))
     }
   }"

text \<open>The loop of \<open>free_global_block\<close>: absorb the free buddy, order by order.\<close>

partial_function (option) merge_buddies ::
    "buddy \<Rightarrow> usize \<Rightarrow> usize \<Rightarrow> ((usize \<times> usize) \<times> buddy) option" where [code]:
  "merge_buddies s block order =
     (if order < max_order s
      then do {
        let buddy = block XOR block_size order;
        (found, s) \<leftarrow> global_remove_by_start s order buddy;
        case found of
          None \<Rightarrow> Some ((block, order), s)
        | Some buddy_index \<Rightarrow> do {
            s \<leftarrow> pool_release s buddy_index;
            merge_buddies s (min block buddy) (order + 1)
          }
      }
      else Some ((block, order), s))"

definition free_global_block :: "buddy \<Rightarrow> usize \<Rightarrow> (buddy, frame_alloc_error, unit) run" where
  "free_global_block s node_index = do {
     n \<leftarrow> at (node_array s) node_index;
     ((block, order), s) \<leftarrow> merge_buddies s (bn_start n) (bn_order n);
     s \<leftarrow> upd_node s node_index (\<lambda>n. n\<lparr>bn_start := block, bn_order := order,
                                        bn_refcount := 0, bn_next := None\<rparr>);
     global_insert_sorted s order node_index
   }"

section \<open>Moving blocks between the caches and the free lists\<close>

text \<open>The refill loop; the last argument counts the turns left.\<close>

fun refill_loop :: "buddy \<Rightarrow> usize \<Rightarrow> usize \<Rightarrow> nat \<Rightarrow> (buddy, frame_alloc_error, unit) run" where
  "refill_loop s cpu_id order 0 = Some (Ok (), s)"
| "refill_loop s cpu_id order (Suc left) = do {
     (r, s) \<leftarrow> alloc_from_global s order;
     case r of
       Ok node_index \<Rightarrow> do {
         s \<leftarrow> cpu_push s cpu_id order node_index;
         refill_loop s cpu_id order left
       }
     | Err e \<Rightarrow> if e = OutOfMemory then Some (Ok (), s) else Some (Err e, s)
   }"

definition refill_per_cpu_cache :: "buddy \<Rightarrow> usize \<Rightarrow> usize \<Rightarrow> (buddy, frame_alloc_error, unit) run" where
  "refill_per_cpu_cache s cpu_id order =
     and_then (refill_loop s cpu_id order (refill_batch order)) (\<lambda>_ s. do {
       c \<leftarrow> at (per_cpu s) cpu_id;
       len \<leftarrow> cache_len c order;
       if len = 0 then Some (Err OutOfMemory, s) else Some (Ok (), s)
     })"

partial_function (option) drain_loop :: "buddy \<Rightarrow> usize \<Rightarrow> usize \<Rightarrow> usize \<Rightarrow> (buddy, frame_alloc_error, unit) run" where [code]:
  "drain_loop s cpu_id order low = do {
     c \<leftarrow> at (per_cpu s) cpu_id;
     len \<leftarrow> cache_len c order;
     if len > low
     then do {
       (popped, s) \<leftarrow> cpu_pop s cpu_id order;
       node_index \<leftarrow> popped;
       and_then (free_global_block s node_index) (\<lambda>_ s. drain_loop s cpu_id order low)
     }
     else Some (Ok (), s)
   }"

definition drain_per_cpu_cache :: "buddy \<Rightarrow> usize \<Rightarrow> usize \<Rightarrow> (buddy, frame_alloc_error, unit) run" where
  "drain_per_cpu_cache s cpu_id order = do {
     c \<leftarrow> at (per_cpu s) cpu_id;
     len \<leftarrow> cache_len c order;
     if len \<le> high_watermark order then Some (Ok (), s)
     else drain_loop s cpu_id order (refill_batch order)
   }"

definition alloc_block :: "buddy \<Rightarrow> usize \<Rightarrow> usize \<Rightarrow> (buddy, frame_alloc_error, usize) run" where
  "alloc_block s cpu_id order = (case checked_cpu s cpu_id of
       Err e \<Rightarrow> Some (Err e, s)
     | Ok cpu_id \<Rightarrow>
         if order \<le> PER_CPU_CACHE_MAX_ORDER
         then do {
           (popped, s) \<leftarrow> cpu_pop s cpu_id order;
           case popped of
             Some node_index \<Rightarrow> Some (Ok node_index, s)
           | None \<Rightarrow> and_then (refill_per_cpu_cache s cpu_id order) (\<lambda>_ s. do {
               (popped, s) \<leftarrow> cpu_pop s cpu_id order;
               case popped of
                 Some node_index \<Rightarrow> Some (Ok node_index, s)
               | None \<Rightarrow> alloc_from_global s order
             })
         }
         else alloc_from_global s order)"

section \<open>The operations on blocks\<close>

definition frame_number_from_addr :: "usize \<Rightarrow> (frame_alloc_error, usize) result" where
  "frame_number_from_addr block =
     (if block AND (PAGE_SIZE - 1) \<noteq> 0 then Err InvalidFrame else Ok (drop_bit PAGE_SHIFT block))"

definition alloc_frame_4k_on_cpu :: "buddy \<Rightarrow> usize \<Rightarrow> usize \<Rightarrow> (buddy, frame_alloc_error, usize) run" where
  "alloc_frame_4k_on_cpu s cpu_id count = (case order_for_count count (max_order s) of
       Err e \<Rightarrow> Some (Err e, s)
     | Ok order \<Rightarrow>
         and_then (alloc_block s cpu_id order) (\<lambda>node_index s.
           and_then (mark_allocated s node_index order) (\<lambda>block s.
             Some (Ok (push_bit PAGE_SHIFT block mod usize_range), s))))"

definition retain_frame :: "buddy \<Rightarrow> usize \<Rightarrow> (buddy, frame_alloc_error, nat) run" where
  "retain_frame s block = (case frame_number_from_addr block of
       Err e \<Rightarrow> Some (Err e, s)
     | Ok frame \<Rightarrow> do {
         found \<leftarrow> find_allocation_index s frame;
         case found of
           None \<Rightarrow> Some (Err InvalidFrame, s)
         | Some node_index \<Rightarrow> do {
             n \<leftarrow> at (node_array s) node_index;
             if bn_refcount n + 1 < 2 ^ 32
             then do {
               s1 \<leftarrow> upd_node s node_index (\<lambda>n. n\<lparr>bn_refcount := bn_refcount n + 1\<rparr>);
               Some (Ok (bn_refcount n + 1), s1)
             }
             else Some (Err RefCountOverflow, s)
           }
       })"

definition free_frame_on_cpu :: "buddy \<Rightarrow> usize \<Rightarrow> usize \<Rightarrow> (buddy, frame_alloc_error, unit) run" where
  "free_frame_on_cpu s cpu_id block = (case checked_cpu s cpu_id of
       Err e \<Rightarrow> Some (Err e, s)
     | Ok cpu_id \<Rightarrow> (case frame_number_from_addr block of
         Err e \<Rightarrow> Some (Err e, s)
       | Ok frame \<Rightarrow> do {
           found \<leftarrow> find_allocation_index s frame;
           case found of
             None \<Rightarrow> Some (Err InvalidFrame, s)
           | Some node_index \<Rightarrow> do {
               n \<leftarrow> at (node_array s) node_index;
               if bn_refcount n = 0 then Some (Err RefCountUnderflow, s)
               else do {
                 s \<leftarrow> upd_node s node_index (\<lambda>n. n\<lparr>bn_refcount := bn_refcount n - 1\<rparr>);
                 if bn_refcount n - 1 \<noteq> 0 then Some (Ok (), s)
                 else and_then (remove_allocation_node s node_index) (\<lambda>_ s.
                   if bn_order n \<le> PER_CPU_CACHE_MAX_ORDER
                   then do {
                     s \<leftarrow> cpu_push s cpu_id (bn_order n) node_index;
                     drain_per_cpu_cache s cpu_id (bn_order n)
                   }
                   else free_global_block s node_index)
               }
             }
         }))"

definition ref_count_for_addr :: "buddy \<Rightarrow> usize \<Rightarrow> nat option option" where
  "ref_count_for_addr s block = (case frame_number_from_addr block of
       Err e \<Rightarrow> Some None
     | Ok frame \<Rightarrow> do {
         found \<leftarrow> find_allocation_index s frame;
         case found of
           None \<Rightarrow> Some None
         | Some node_index \<Rightarrow> do {
             n \<leftarrow> at (node_array s) node_index;
             Some (Some (bn_refcount n))
           }
       })"

section \<open>The frame allocator interface\<close>

record phys_frame =
  start_address :: usize

definition frame_index :: "phys_frame \<Rightarrow> usize" where
  "frame_index f = drop_bit PAGE_SHIFT (start_address f)"

definition checked_addr_from_frame :: "phys_frame \<Rightarrow> (frame_alloc_error, usize) result" where
  "checked_addr_from_frame f =
     (if start_address f AND (PAGE_SIZE - 1) \<noteq> 0 then Err InvalidFrame else Ok (start_address f))"

definition ensure_release_matches_count ::
    "buddy \<Rightarrow> phys_frame \<Rightarrow> usize \<Rightarrow> (frame_alloc_error, nat) result option" where
  "ensure_release_matches_count s frame count = (case order_for_count count (max_order s) of
       Err e \<Rightarrow> Some (Err e)
     | Ok order \<Rightarrow> do {
         found \<leftarrow> find_allocation_index s (frame_index frame);
         case found of
           None \<Rightarrow> Some (Err InvalidFrame)
         | Some node_index \<Rightarrow> do {
             n \<leftarrow> at (node_array s) node_index;
             if bn_order n \<noteq> order then Some (Err InvalidCount) else Some (Ok (bn_refcount n))
           }
       })"

text \<open>
  The trait's operations. The CPU they run on and the answer of the registered
  out-of-memory handler come from outside; the handler cannot change the allocator, which
  is borrowed mutably while it runs.
\<close>

definition buddy_alloc :: "usize \<Rightarrow> bool \<Rightarrow> buddy \<Rightarrow> usize \<Rightarrow> (buddy, frame_alloc_error, phys_frame) run" where
  "buddy_alloc cpuid recovered s count = do {
     (r, s) \<leftarrow> alloc_frame_4k_on_cpu s cpuid count;
     case r of
       Ok addr \<Rightarrow> Some (Ok \<lparr>start_address = addr\<rparr>, s)
     | Err e \<Rightarrow>
         if e = OutOfMemory \<and> recovered
         then and_then (alloc_frame_4k_on_cpu s cpuid count) (\<lambda>addr s. Some (Ok \<lparr>start_address = addr\<rparr>, s))
         else Some (Err e, s)
   }"

definition buddy_retain :: "buddy \<Rightarrow> phys_frame \<Rightarrow> (buddy, frame_alloc_error, nat) run" where
  "buddy_retain s frame = (case checked_addr_from_frame frame of
       Err e \<Rightarrow> Some (Err e, s)
     | Ok addr \<Rightarrow> retain_frame s addr)"

definition buddy_release :: "usize \<Rightarrow> buddy \<Rightarrow> phys_frame \<Rightarrow> usize \<Rightarrow> (buddy, frame_alloc_error, nat) run" where
  "buddy_release cpuid s frame count = (case checked_addr_from_frame frame of
       Err e \<Rightarrow> Some (Err e, s)
     | Ok addr \<Rightarrow> do {
         r \<leftarrow> ensure_release_matches_count s frame count;
         case r of
           Err e \<Rightarrow> Some (Err e, s)
         | Ok current \<Rightarrow>
             and_then (free_frame_on_cpu s cpuid addr) (\<lambda>_ s. Some (Ok (wsub current 1), s))
       })"

definition buddy_ref_count :: "buddy \<Rightarrow> phys_frame \<Rightarrow> nat option option" where
  "buddy_ref_count s frame = (case checked_addr_from_frame frame of
       Err e \<Rightarrow> Some None
     | Ok addr \<Rightarrow> ref_count_for_addr s addr)"

section \<open>Construction\<close>

partial_function (option) seed_global_free_region ::
    "buddy \<Rightarrow> usize \<Rightarrow> usize \<Rightarrow> (buddy, frame_alloc_error, unit) run" where [code]:
  "seed_global_free_region s start remaining =
     (if remaining > 0
      then do {
        let order = max_fit_order start remaining (max_order s);
        and_then (pool_alloc s) (\<lambda>node_index s. do {
          s \<leftarrow> upd_node s node_index (\<lambda>_. \<lparr>bn_start = start, bn_order = order,
                                            bn_refcount = 0, bn_next = None\<rparr>);
          and_then (global_insert_sorted s order node_index) (\<lambda>_ s.
            seed_global_free_region s (wadd start (block_size order)) (wsub remaining (block_size order)))
        })
      }
      else Some (Ok (), s))"

fun seed_ranges :: "buddy \<Rightarrow> usize list \<Rightarrow> (buddy, frame_alloc_error, unit) run" where
  "seed_ranges s [] = Some (Ok (), s)"
| "seed_ranges s (index # indices) = do {
     (start_frame, frame_count) \<leftarrow> rl_get (usable_ranges s) index;
     and_then (seed_global_free_region s start_frame frame_count) (\<lambda>_ s. seed_ranges s indices)
   }"

text \<open>
  The const parameters of the type are the first two arguments: the number of per-CPU
  slots and of metadata nodes. A failed construction leaves nothing a caller can use.
\<close>

definition init_from_usable_ranges ::
    "nat \<Rightarrow> nat \<Rightarrow> range_list \<Rightarrow> usize \<Rightarrow> (frame_alloc_error, buddy) result option" where
  "init_from_usable_ranges max_cpus max_block_nodes ranges cpus =
     (if cpus = 0 \<or> cpus > max_cpus then Some (Err InvalidCount)
      else do {
        r \<leftarrow> rl_total_frames ranges;
        case r of
          Err e \<Rightarrow> Some (Err e)
        | Ok frames \<Rightarrow>
            if frames = 0 then Some (Err InvalidMemoryMap)
            else if floor_log2 frames \<ge> MAX_ORDER_SLOTS then Some (Err InvalidCount)
            else do {
              (r, s) \<leftarrow> seed_ranges
                \<lparr>total_frames = frames, max_order = floor_log2 frames, cpu_count = cpus,
                 usable_ranges = ranges,
                 global_free_heads = replicate MAX_ORDER_SLOTS None,
                 global_free_lens = replicate MAX_ORDER_SLOTS 0,
                 allocations_head = None, allocation_len = 0,
                 per_cpu = replicate max_cpus cache_new,
                 nodes = pool_init max_block_nodes\<rparr>
                [0..<rl_len ranges];
              case r of Err e \<Rightarrow> Some (Err e) | Ok _ \<Rightarrow> Some (Ok s)
            }
      })"

definition bootstrap ::
    "nat \<Rightarrow> nat \<Rightarrow> nat \<Rightarrow> memory_region list \<Rightarrow> usize \<Rightarrow> (frame_alloc_error, buddy) result option" where
  "bootstrap max_usable_ranges max_cpus max_block_nodes mem_map cpus =
     (if cpus = 0 \<or> cpus > max_cpus then Some (Err InvalidCount)
      else do {
        (r, ranges) \<leftarrow> collect_usable_ranges mem_map (rl_new max_usable_ranges);
        case r of
          Err e \<Rightarrow> Some (Err e)
        | Ok _ \<Rightarrow> init_from_usable_ranges max_cpus max_block_nodes ranges cpus
      })"

end
