(* ===== verification/Buddy_Lists.thy ===== *)
theory Buddy_Lists
  imports Buddy
begin

text \<open>
  The linked lists of the buddy allocator as lists of node indices. \<open>rep\<close> relates a state
  to the contents of all its lists at once: an owner function says which list each node
  is on (or that it is held by the running operation), and every list is a chain through
  the node array that visits exactly the nodes it owns. The lemmas give, once and for any
  of the lists, what pushing, popping, unlinking and inserting do to that picture, and
  what the search loops find; no walk along a list can panic or run forever.
\<close>

section \<open>Chains\<close>

fun chain :: "block_node list \<Rightarrow> usize option \<Rightarrow> usize list \<Rightarrow> bool" where
  "chain ns h [] \<longleftrightarrow> h = None"
| "chain ns h (i # is) \<longleftrightarrow> h = Some i \<and> i < length ns \<and> chain ns (bn_next (ns ! i)) is"

lemma chain_head: "chain ns h is \<Longrightarrow> h = (case is of [] \<Rightarrow> None | i # _ \<Rightarrow> Some i)"
  by (cases "is") simp_all

lemma chain_None [simp]: "chain ns None is \<longleftrightarrow> is = []"
  by (cases "is") simp_all

lemma chain_bound: "chain ns h is \<Longrightarrow> i \<in> set is \<Longrightarrow> i < length ns"
  by (induction "is" arbitrary: h) auto

lemma chain_update [simp]: "i \<notin> set is \<Longrightarrow> chain (ns[i := n]) h is \<longleftrightarrow> chain ns h is"
  by (induction "is" arbitrary: h) auto

lemma chain_same_next:
  "bn_next n = bn_next (ns ! i) \<Longrightarrow> chain (ns[i := n]) h is \<longleftrightarrow> chain ns h is"
proof (induction "is" arbitrary: h)
  case (Cons j js)
  have "bn_next (ns[i := n] ! j) = bn_next (ns ! j)" if "j < length ns"
    using Cons.prems that by (cases "j = i") simp_all
  then show ?case using Cons.IH [OF Cons.prems] by (simp cong: conj_cong)
qed simp

text \<open>Cutting a node out of the middle of a chain and putting one in.\<close>

lemma chain_unlink:
  assumes "chain ns h (is @ p # i # js)" "distinct (is @ p # i # js)"
  shows "chain (ns[p := (ns ! p)\<lparr>bn_next := bn_next (ns ! i)\<rparr>]) h (is @ p # js)"
  using assms by (induction "is" arbitrary: h) auto

lemma chain_insert:
  assumes "chain ns h (is @ p # js)" "distinct (is @ p # js)" "i \<notin> set (is @ p # js)" "i < length ns"
    and "bn_next (ns ! i) = (case js of [] \<Rightarrow> None | j # _ \<Rightarrow> Some j)"
  shows "chain (ns[p := (ns ! p)\<lparr>bn_next := Some i\<rparr>]) h (is @ p # i # js)"
  using assms
proof (induction "is" arbitrary: h)
  case Nil
  then have "chain ns (bn_next (ns ! p)) js" "p \<noteq> i" "p \<notin> set js" by auto
  moreover from this have "chain ns (case js of [] \<Rightarrow> None | j # _ \<Rightarrow> Some j) js"
    using chain_head by metis
  ultimately show ?case using Nil by simp
qed auto

section \<open>The lists of a state\<close>

datatype lid = LUnused | LAlloc | LFree usize | LCache usize usize

fun valid_lid :: "buddy \<Rightarrow> lid \<Rightarrow> bool" where
  "valid_lid s LUnused \<longleftrightarrow> True"
| "valid_lid s LAlloc \<longleftrightarrow> True"
| "valid_lid s (LFree k) \<longleftrightarrow> k < MAX_ORDER_SLOTS"
| "valid_lid s (LCache c k) \<longleftrightarrow> c < length (per_cpu s) \<and> k \<le> PER_CPU_CACHE_MAX_ORDER"

fun head_of :: "buddy \<Rightarrow> lid \<Rightarrow> usize option" where
  "head_of s LUnused = unused_head (nodes s)"
| "head_of s LAlloc = allocations_head s"
| "head_of s (LFree k) = (if k < MAX_ORDER_SLOTS then global_free_heads s ! k else None)"
| "head_of s (LCache c k) =
     (if c < length (per_cpu s) \<and> k \<le> PER_CPU_CACHE_MAX_ORDER then heads (per_cpu s ! c) ! k else None)"

fun length_of :: "buddy \<Rightarrow> lid \<Rightarrow> usize" where
  "length_of s LUnused = unused_len (nodes s)"
| "length_of s LAlloc = allocation_len s"
| "length_of s (LFree k) = (if k < MAX_ORDER_SLOTS then global_free_lens s ! k else 0)"
| "length_of s (LCache c k) =
     (if c < length (per_cpu s) \<and> k \<le> PER_CPU_CACHE_MAX_ORDER then lens (per_cpu s ! c) ! k else 0)"

text \<open>Setting the head and the length of one list.\<close>

fun set_list :: "buddy \<Rightarrow> lid \<Rightarrow> usize option \<Rightarrow> usize \<Rightarrow> buddy" where
  "set_list s LUnused h n = s\<lparr>nodes := (nodes s)\<lparr>unused_head := h, unused_len := n\<rparr>\<rparr>"
| "set_list s LAlloc h n = s\<lparr>allocations_head := h, allocation_len := n\<rparr>"
| "set_list s (LFree k) h n =
     s\<lparr>global_free_heads := (global_free_heads s)[k := h], global_free_lens := (global_free_lens s)[k := n]\<rparr>"
| "set_list s (LCache c k) h n =
     s\<lparr>per_cpu := (per_cpu s)[c := (per_cpu s ! c)\<lparr>heads := (heads (per_cpu s ! c))[k := h],
                                                    lens := (lens (per_cpu s ! c))[k := n]\<rparr>]\<rparr>"

text \<open>The lengths of the arrays never change.\<close>

definition shape :: "buddy \<Rightarrow> bool" where
  "shape s \<longleftrightarrow> length (global_free_heads s) = MAX_ORDER_SLOTS \<and> length (global_free_lens s) = MAX_ORDER_SLOTS
     \<and> (\<forall>c \<in> set (per_cpu s). length (heads c) = PER_CPU_CACHE_MAX_ORDER + 1
                              \<and> length (lens c) = PER_CPU_CACHE_MAX_ORDER + 1)"

text \<open>What an operation on lists and nodes leaves alone.\<close>

definition fixed_part :: "buddy \<Rightarrow> usize \<times> usize \<times> usize \<times> range_list \<times> nat \<times> nat" where
  "fixed_part s = (total_frames s, max_order s, cpu_count s, usable_ranges s, length (per_cpu s), length (node_array s))"

lemma set_nodes_simps [simp]:
  "node_array (set_nodes s ns) = ns"
  "head_of (set_nodes s ns) l = head_of s l"
  "length_of (set_nodes s ns) l = length_of s l"
  "valid_lid (set_nodes s ns) l = valid_lid s l"
  "shape (set_nodes s ns) = shape s"
  "total_frames (set_nodes s ns) = total_frames s"
  "max_order (set_nodes s ns) = max_order s"
  "cpu_count (set_nodes s ns) = cpu_count s"
  "usable_ranges (set_nodes s ns) = usable_ranges s"
  "per_cpu (set_nodes s ns) = per_cpu s"
  "global_free_heads (set_nodes s ns) = global_free_heads s"
  "global_free_lens (set_nodes s ns) = global_free_lens s"
  "allocations_head (set_nodes s ns) = allocations_head s"
  "allocation_len (set_nodes s ns) = allocation_len s"
  "set_nodes (set_nodes s ns) ms = set_nodes s ms"
  by (cases l; simp add: set_nodes_def shape_def)+

lemma set_list_simps [simp]:
  "node_array (set_list s l h n) = node_array s"
  "total_frames (set_list s l h n) = total_frames s"
  "max_order (set_list s l h n) = max_order s"
  "cpu_count (set_list s l h n) = cpu_count s"
  "usable_ranges (set_list s l h n) = usable_ranges s"
  "length (per_cpu (set_list s l h n)) = length (per_cpu s)"
  "valid_lid (set_list s l h n) l' = valid_lid s l'"
  by (cases l; cases l'; simp)+

declare set_list.simps [simp del]

lemma set_list_nodes: "set_list (set_nodes s ns) l h n = set_nodes (set_list s l h n) ns"
  by (cases l) (simp_all add: set_nodes_def set_list.simps)

lemma shape_lengths:
  assumes "shape s"
  shows "length (global_free_heads s) = MAX_ORDER_SLOTS" "length (global_free_lens s) = MAX_ORDER_SLOTS"
    "c < length (per_cpu s) \<Longrightarrow> length (heads (per_cpu s ! c)) = Suc PER_CPU_CACHE_MAX_ORDER"
    "c < length (per_cpu s) \<Longrightarrow> length (lens (per_cpu s ! c)) = Suc PER_CPU_CACHE_MAX_ORDER"
  using assms nth_mem [of c "per_cpu s"] by (auto simp: shape_def)

lemma shape_set_list [simp]: "shape s \<Longrightarrow> valid_lid s l \<Longrightarrow> shape (set_list s l h n)"
  by (cases l) (auto simp: set_list.simps shape_def all_set_conv_all_nth nth_list_update)

lemma head_set_list [simp]:
  "shape s \<Longrightarrow> valid_lid s l \<Longrightarrow> head_of (set_list s l h n) l' = (if l' = l then h else head_of s l')"
  by (cases l; cases l') (auto simp: set_list.simps shape_lengths nth_list_update)

lemma len_set_list [simp]:
  "shape s \<Longrightarrow> valid_lid s l \<Longrightarrow> length_of (set_list s l h n) l' = (if l' = l then n else length_of s l')"
  by (cases l; cases l') (auto simp: set_list.simps shape_lengths nth_list_update)

section \<open>The representation relation\<close>

type_synonym contents = "lid \<Rightarrow> usize list"
type_synonym owner = "usize \<Rightarrow> lid option"

definition rep :: "buddy \<Rightarrow> contents \<Rightarrow> owner \<Rightarrow> bool" where
  "rep s L own \<longleftrightarrow> shape s \<and> length (node_array s) < usize_range \<and>
     (\<forall>l. chain (node_array s) (head_of s l) (L l) \<and> length_of s l = length (L l) \<and> distinct (L l)
        \<and> set (L l) = {i. i < length (node_array s) \<and> own i = Some l})"

lemma repD:
  assumes "rep s L own"
  shows "shape s" "length (node_array s) < usize_range"
    "chain (node_array s) (head_of s l) (L l)" "length_of s l = length (L l)" "distinct (L l)"
    "i \<in> set (L l) \<longleftrightarrow> i < length (node_array s) \<and> own i = Some l"
  using assms by (auto simp: rep_def)

lemma rep_set:
  "rep s L own \<Longrightarrow> set (L l) = {k. k < length (node_array s) \<and> own k = Some l}"
  by (auto simp: repD(6))

lemma rep_length:
  assumes "rep s L own"
  shows "length (L l) \<le> length (node_array s)"
proof -
  have "set (L l) \<subseteq> {..< length (node_array s)}" using repD(6) [OF assms] by auto
  then have "card (set (L l)) \<le> length (node_array s)" using card_mono [of "{..< length (node_array s)}"] by simp
  then show ?thesis using distinct_card [OF repD(5) [OF assms]] by simp
qed

lemma rep_free:
  assumes "rep s L own" "i < length (node_array s)" "own i = None"
  shows "length (L l) < length (node_array s)"
proof -
  have "set (L l) \<subseteq> {..< length (node_array s)} - {i}" using assms repD(6) [OF assms(1)] by auto
  then have "card (set (L l)) \<le> card ({..< length (node_array s)} - {i})" by (intro card_mono) auto
  then show ?thesis using distinct_card [OF repD(5) [OF assms(1)]] assms(2) by simp
qed

text \<open>Writing a node that no list holds, or without touching its link.\<close>

lemma rep_write_held:
  "rep s L own \<Longrightarrow> own i = None \<Longrightarrow> rep (set_nodes s ((node_array s)[i := n])) L own"
  by (auto simp: rep_def)

lemma rep_write_keep:
  "rep s L own \<Longrightarrow> bn_next n = bn_next (node_array s ! i) \<Longrightarrow> rep (set_nodes s ((node_array s)[i := n])) L own"
  by (auto simp: rep_def chain_same_next)

text \<open>
  A change of one list: the owner of one node changes to or from that list, and the other
  lists avoid every node that is written.
\<close>

lemma rep_change:
  assumes r: "rep s L own" and l: "valid_lid s l" and len: "length ns = length (node_array s)"
    and here: "chain ns h xs" "distinct xs" "set xs = {k. k < length ns \<and> (own(i := w)) k = Some l}"
    and others: "\<And>l' is. l' \<noteq> l \<Longrightarrow> i \<notin> set (L l') \<Longrightarrow>
      chain (node_array s) (head_of s l') (L l') \<Longrightarrow> chain ns (head_of s l') (L l')"
    and i: "own i = None \<and> w = Some l \<or> own i = Some l \<and> w = None"
  shows "rep (set_nodes (set_list s l h (length xs)) ns) (L(l := xs)) (own(i := w))"
  unfolding rep_def
proof (intro conjI allI)
  note shape = repD(1) [OF r]
  show "shape (set_nodes (set_list s l h (length xs)) ns)" using shape l by simp
  show "length (node_array (set_nodes (set_list s l h (length xs)) ns)) < usize_range"
    using repD(2) [OF r] len by simp
  fix l'
  have off: "i \<notin> set (L l')" if "l' \<noteq> l" using repD(6) [OF r, of i l'] i that by auto
  show "chain (node_array (set_nodes (set_list s l h (length xs)) ns))
      (head_of (set_nodes (set_list s l h (length xs)) ns) l') ((L(l := xs)) l')"
    using here(1) others [of l'] off repD(3) [OF r, of l'] shape l by simp
  show "length_of (set_nodes (set_list s l h (length xs)) ns) l' = length ((L(l := xs)) l')"
    using repD(4) [OF r] shape l by simp
  show "distinct ((L(l := xs)) l')" using repD(5) [OF r] here(2) by simp
  have "(own(i := w)) k = Some l' \<longleftrightarrow> own k = Some l'" if "l' \<noteq> l" for k using i that by auto
  then have "set (L l') = {k. k < length ns \<and> (own(i := w)) k = Some l'}" if "l' \<noteq> l"
    using rep_set [OF r, of l'] len that by (simp del: fun_upd_apply)
  then show "set ((L(l := xs)) l') = {k. k < length (node_array (set_nodes (set_list s l h (length xs)) ns))
      \<and> (own(i := w)) k = Some l'}"
    using here(3) by (cases "l' = l") auto
qed

lemma rep_pop:
  assumes "rep s L own" "valid_lid s l" "L l = i # is"
  shows "rep (set_nodes (set_list s l (bn_next (node_array s ! i)) (length is)) ((node_array s)[i := n]))
           (L(l := is)) (own(i := None))"
proof (rule rep_change [OF assms(1,2)])
  have *: "chain (node_array s) (bn_next (node_array s ! i)) is" "i \<notin> set is" "distinct is"
    using repD(3,5) [OF assms(1), of l] assms(3) by auto
  then show "chain ((node_array s)[i := n]) (bn_next (node_array s ! i)) is" "distinct is" by simp_all
  show "set is = {k. k < length ((node_array s)[i := n]) \<and> (own(i := None)) k = Some l}"
    using rep_set [OF assms(1), of l] assms(3) * by auto
  show "own i = None \<and> None = Some l \<or> own i = Some l \<and> None = None"
    using repD(6) [OF assms(1), of i l] assms(3) by simp
qed simp_all

lemma rep_push:
  assumes "rep s L own" "valid_lid s l" "i < length (node_array s)" "own i = None"
    and "bn_next n = head_of s l"
  shows "rep (set_nodes (set_list s l (Some i) (length (L l) + 1)) ((node_array s)[i := n]))
           (L(l := i # L l)) (own(i := Some l))"
proof -
  have i: "i \<notin> set (L l)" using repD(6) [OF assms(1), of i l] assms(4) by simp
  have "rep (set_nodes (set_list s l (Some i) (length (i # L l))) ((node_array s)[i := n]))
           (L(l := i # L l)) (own(i := Some l))"
  proof (rule rep_change [OF assms(1,2)])
    show "chain ((node_array s)[i := n]) (Some i) (i # L l)" "distinct (i # L l)"
      using repD(3,5) [OF assms(1), of l] i assms(3,5) by simp_all
    show "set (i # L l) = {k. k < length ((node_array s)[i := n]) \<and> (own(i := Some l)) k = Some l}"
      using rep_set [OF assms(1), of l] assms(3) by auto
  qed (use assms in simp_all)
  then show ?thesis by simp
qed

lemma rep_unlink:
  assumes "rep s L own" "valid_lid s l" "L l = is @ p # i # js"
  shows "rep (set_nodes (set_list s l (head_of s l) (length (is @ p # js)))
               ((node_array s)[p := (node_array s ! p)\<lparr>bn_next := bn_next (node_array s ! i)\<rparr>, i := n]))
           (L(l := is @ p # js)) (own(i := None))"
proof (rule rep_change [OF assms(1,2)])
  have own: "own i = Some l" "own p = Some l"
    using repD(6) [OF assms(1), of i l] repD(6) [OF assms(1), of p l] assms(3) by auto
  then show "own i = None \<and> None = Some l \<or> own i = Some l \<and> None = None" by simp
  have d: "distinct (is @ p # i # js)" using repD(5) [OF assms(1), of l] assms(3) by simp
  then show "distinct (is @ p # js)" by simp
  have "chain ((node_array s)[p := (node_array s ! p)\<lparr>bn_next := bn_next (node_array s ! i)\<rparr>])
      (head_of s l) (is @ p # js)"
    using repD(3) [OF assms(1), of l] d by (intro chain_unlink) (simp_all add: assms(3))
  then show "chain ((node_array s)[p := (node_array s ! p)\<lparr>bn_next := bn_next (node_array s ! i)\<rparr>, i := n])
      (head_of s l) (is @ p # js)"
    using d by (subst chain_update) auto
  show "set (is @ p # js) = {k. k < length ((node_array s)[p := (node_array s ! p)\<lparr>bn_next :=
      bn_next (node_array s ! i)\<rparr>, i := n]) \<and> (own(i := None)) k = Some l}"
    using rep_set [OF assms(1), of l] assms(3) d by auto
  fix l' assume "l' \<noteq> l" "i \<notin> set (L l')" "chain (node_array s) (head_of s l') (L l')"
  moreover have "p \<notin> set (L l')" using repD(6) [OF assms(1), of p l'] own calculation(1) by simp
  ultimately show "chain ((node_array s)[p := (node_array s ! p)\<lparr>bn_next := bn_next (node_array s ! i)\<rparr>, i := n])
      (head_of s l') (L l')" by simp
qed simp

lemma rep_insert:
  assumes "rep s L own" "valid_lid s l" "L l = is @ p # js" "i < length (node_array s)" "own i = None"
    and "bn_next n = (case js of [] \<Rightarrow> None | j # _ \<Rightarrow> Some j)"
  shows "rep (set_nodes (set_list s l (head_of s l) (length (is @ p # i # js)))
               ((node_array s)[i := n, p := (node_array s ! p)\<lparr>bn_next := Some i\<rparr>]))
           (L(l := is @ p # i # js)) (own(i := Some l))"
proof (rule rep_change [OF assms(1,2)])
  have own: "own p = Some l" using repD(6) [OF assms(1), of p l] assms(3) by auto
  have new: "i \<notin> set (L l)" using repD(6) [OF assms(1), of i l] assms(5) by simp
  have d: "distinct (is @ p # js)" using repD(5) [OF assms(1), of l] assms(3) by simp
  have p: "p \<noteq> i" using new assms(3) by auto
  show "distinct (is @ p # i # js)" using d new assms(3) by auto
  have "chain ((node_array s)[i := n]) (head_of s l) (is @ p # js)"
    using repD(3) [OF assms(1), of l] assms(3) new by simp
  then show "chain ((node_array s)[i := n, p := (node_array s ! p)\<lparr>bn_next := Some i\<rparr>])
      (head_of s l) (is @ p # i # js)"
    using chain_insert [of "(node_array s)[i := n]" "head_of s l" "is" p js i] d new assms(3,4,6) p by simp
  show "set (is @ p # i # js) = {k. k < length ((node_array s)[i := n, p := (node_array s ! p)\<lparr>bn_next := Some i\<rparr>])
      \<and> (own(i := Some l)) k = Some l}"
    using repD(6) [OF assms(1), of _ l] assms(3,4) by auto
  show "own i = None \<and> Some l = Some l \<or> own i = Some l \<and> Some l = None" using assms(5) by simp
  fix l' assume "l' \<noteq> l" "i \<notin> set (L l')" "chain (node_array s) (head_of s l') (L l')"
  moreover have "p \<notin> set (L l')" using repD(6) [OF assms(1), of p l'] own calculation(1) by simp
  ultimately show "chain ((node_array s)[i := n, p := (node_array s ! p)\<lparr>bn_next := Some i\<rparr>]) (head_of s l') (L l')"
    by simp
qed simp

section \<open>Blocks\<close>

text \<open>The block a node describes, apart from its link.\<close>

definition blk :: "buddy \<Rightarrow> usize \<Rightarrow> block_node" where
  "blk s i = (if i < length (node_array s) then (node_array s ! i)\<lparr>bn_next := None\<rparr> else EMPTY)"

lemma blk_fields:
  "i < length (node_array s) \<Longrightarrow> bn_start (blk s i) = bn_start (node_array s ! i)"
  "i < length (node_array s) \<Longrightarrow> bn_order (blk s i) = bn_order (node_array s ! i)"
  "i < length (node_array s) \<Longrightarrow> bn_refcount (blk s i) = bn_refcount (node_array s ! i)"
  "bn_next (blk s i) = None"
  by (simp_all add: blk_def EMPTY_def)

lemma bn_next_last: "n\<lparr>bn_next := c, bn_order := k, bn_refcount := r\<rparr> = n\<lparr>bn_order := k, bn_refcount := r, bn_next := c\<rparr>"
  by (cases n) simp

lemma blk_set [simp]: "i < length (node_array s) \<Longrightarrow>
    blk (set_nodes t ((node_array s)[i := n])) = (blk s)(i := n\<lparr>bn_next := None\<rparr>)"
  by (auto simp: blk_def fun_eq_iff nth_list_update)

lemma blk_set_same: "i < length (node_array s) \<Longrightarrow> n\<lparr>bn_next := None\<rparr> = blk s i \<Longrightarrow>
    blk (set_nodes t ((node_array s)[i := n])) = blk s"
  by simp

lemma blk_set2:
  assumes "i < length (node_array s)" "p < length (node_array s)" "p \<noteq> i"
    and "n\<lparr>bn_next := None\<rparr> = blk s i" "m\<lparr>bn_next := None\<rparr> = blk s p"
  shows "blk (set_nodes t ((node_array s)[i := n, p := m])) = blk s"
    "blk (set_nodes t ((node_array s)[p := m, i := n])) = blk s"
  using assms by (auto simp: blk_def fun_eq_iff nth_list_update)

lemma fixed_part_set [simp]:
  "fixed_part (set_list s l h n) = fixed_part s"
  "length ns = length (node_array s) \<Longrightarrow> fixed_part (set_nodes s ns) = fixed_part s"
  by (simp_all add: fixed_part_def)

lemma fixed_partD:
  assumes "fixed_part s' = fixed_part s"
  shows "total_frames s' = total_frames s" "max_order s' = max_order s" "cpu_count s' = cpu_count s"
    "usable_ranges s' = usable_ranges s" "length (per_cpu s') = length (per_cpu s)"
    "length (node_array s') = length (node_array s)"
  using assms by (simp_all add: fixed_part_def)

lemma upd_node_eq [simp]:
  "i < length (node_array s) \<Longrightarrow> upd_node s i f = Some (set_nodes s ((node_array s)[i := f (node_array s ! i)]))"
  by (simp add: upd_node_def)

section \<open>The node pool\<close>

lemma pool_alloc_spec:
  assumes "rep s L own" "L LUnused = i # is"
  obtains s' where "pool_alloc s = Some (Ok i, s')" "rep s' (L(LUnused := is)) (own(i := None))"
    "fixed_part s' = fixed_part s" "blk s' = blk s"
proof -
  let ?s = "set_nodes (set_list s LUnused (bn_next (node_array s ! i)) (length is))
      ((node_array s)[i := (node_array s ! i)\<lparr>bn_next := None\<rparr>])"
  have i: "unused_head (nodes s) = Some i" "i < length (node_array s)"
    using repD(3) [OF assms(1), of LUnused] assms(2) by auto
  have "unused_len (nodes s) = Suc (length is)" "Suc (length is) < usize_range"
    using repD(2) [OF assms(1)] repD(4) [OF assms(1), of LUnused] rep_length [OF assms(1), of LUnused] assms(2) by auto
  then have "wsub (unused_len (nodes s)) 1 = length is" by (simp add: wsub_exact)
  then have "pool_alloc s = Some (Ok i, ?s)"
    using i by (simp add: pool_alloc_def alloc_unused_def set_nodes_def set_list.simps)
  moreover have "blk ?s = blk s" using i by (intro blk_set_same) (simp_all add: blk_def)
  ultimately show ?thesis using that [of ?s] rep_pop [OF assms(1) _ assms(2)] by simp
qed

lemma pool_alloc_empty: "rep s L own \<Longrightarrow> L LUnused = [] \<Longrightarrow> pool_alloc s = Some (Err MetadataExhausted, s)"
  using repD(3) [of s L own LUnused] by (simp add: pool_alloc_def alloc_unused_def)

lemma has_unused_iff: "rep s L own \<Longrightarrow> has_unused (nodes s) k \<longleftrightarrow> k \<le> length (L LUnused)"
  using repD(4) [of s L own LUnused] by (simp add: has_unused_def)

lemma pool_release_spec:
  assumes "rep s L own" "own i = None" "i < length (node_array s)"
  obtains s' where "pool_release s i = Some s'" "rep s' (L(LUnused := i # L LUnused)) (own(i := Some LUnused))"
    "fixed_part s' = fixed_part s" "blk s' = (blk s)(i := EMPTY)"
proof -
  let ?s = "set_nodes (set_list s LUnused (Some i) (length (L LUnused) + 1))
      ((node_array s)[i := EMPTY\<lparr>bn_next := unused_head (nodes s)\<rparr>])"
  have "unused_len (nodes s) = length (L LUnused)" "length (L LUnused) + 1 < usize_range"
    using repD(2) [OF assms(1)] repD(4) [OF assms(1), of LUnused] rep_free [OF assms(1,3,2), of LUnused] by auto
  then have "wadd (unused_len (nodes s)) 1 = length (L LUnused) + 1" by (simp add: wadd_exact)
  then have "pool_release s i = Some ?s"
    using assms(3) by (simp add: pool_release_def release_unused_def set_nodes_def set_list.simps)
  moreover have "blk ?s = (blk s)(i := EMPTY)" using assms(3) by (simp add: EMPTY_def)
  moreover have "rep ?s (L(LUnused := i # L LUnused)) (own(i := Some LUnused))"
    using assms by (intro rep_push) auto
  ultimately show ?thesis using that [of ?s] by simp
qed

section \<open>Sorted insertion and removal\<close>

abbreviation starts :: "buddy \<Rightarrow> usize list \<Rightarrow> usize list" where
  "starts s is \<equiv> map (\<lambda>i. bn_start (blk s i)) is"

lemma insert_scan_spec:
  assumes "chain ns h xs" "sorted_wrt (<) (map (\<lambda>i. bn_start (ns ! i)) xs)"
    and "start \<notin> (\<lambda>i. bn_start (ns ! i)) ` set xs"
  obtains ps qs where "xs = ps @ qs"
    "insert_scan ns start h prev =
       Some (Ok (if ps = [] then prev else Some (last ps), case qs of [] \<Rightarrow> None | q # _ \<Rightarrow> Some q))"
    "\<forall>i \<in> set ps. bn_start (ns ! i) < start" "\<forall>i \<in> set qs. start < bn_start (ns ! i)"
  using assms
proof (induction xs arbitrary: h prev thesis)
  case Nil
  show ?case by (rule Nil.prems(1) [of "[]" "[]"]) (use Nil in \<open>simp_all add: insert_scan.simps\<close>)
next
  case (Cons x xs)
  have x: "h = Some x" "x < length ns" "chain ns (bn_next (ns ! x)) xs" using Cons.prems(2) by auto
  show ?case
  proof (cases "bn_start (ns ! x) < start")
    case True
    obtain ps qs where ps: "xs = ps @ qs"
      "insert_scan ns start (bn_next (ns ! x)) (Some x) =
         Some (Ok (if ps = [] then Some x else Some (last ps), case qs of [] \<Rightarrow> None | q # _ \<Rightarrow> Some q))"
      "\<forall>i \<in> set ps. bn_start (ns ! i) < start" "\<forall>i \<in> set qs. start < bn_start (ns ! i)"
      using Cons.IH [OF _ x(3), of "Some x"] Cons.prems(3,4) by auto
    show ?thesis
      by (rule Cons.prems(1) [of "x # ps" qs]) (use ps x True in \<open>simp_all add: insert_scan.simps [of ns start "Some x"]\<close>)
  next
    case False
    then have "start < bn_start (ns ! x)" using Cons.prems(4) by auto
    then show ?thesis
      by (intro Cons.prems(1) [of "[]" "x # xs"])
        (use x Cons.prems(3) in \<open>auto simp: insert_scan.simps [of ns start "Some x"]\<close>)
  qed
qed

lemma global_insert_spec:
  assumes "rep s L own" "own i = None" "i < length (node_array s)" "k < MAX_ORDER_SLOTS"
    and "sorted_wrt (<) (starts s (L (LFree k)))" "bn_start (blk s i) \<notin> set (starts s (L (LFree k)))"
  obtains s' ps qs where "global_insert_sorted s k i = Some (Ok (), s')" "L (LFree k) = ps @ qs"
    "rep s' (L(LFree k := ps @ i # qs)) (own(i := Some (LFree k)))" "fixed_part s' = fixed_part s" "blk s' = blk s"
    "sorted_wrt (<) (starts s' (ps @ i # qs))"
proof -
  let ?xs = "L (LFree k)" and ?ns = "node_array s" and ?h = "global_free_heads s ! k"
  let ?n = "\<lambda>c. (?ns ! i)\<lparr>bn_next := c\<rparr>"
  have ch: "chain ?ns ?h ?xs" using repD(3) [OF assms(1), of "LFree k"] assms(4) by simp
  have eq: "map (\<lambda>i. bn_start (?ns ! i)) ?xs = starts s ?xs"
    using chain_bound [OF ch] by (simp add: blk_fields)
  have bi: "bn_start (blk s i) = bn_start (?ns ! i)" using assms(3) by (simp add: blk_fields)
  obtain ps qs where ps: "?xs = ps @ qs"
    "insert_scan ?ns (bn_start (?ns ! i)) ?h None =
       Some (Ok (if ps = [] then None else Some (last ps), case qs of [] \<Rightarrow> None | q # _ \<Rightarrow> Some q))"
    "\<forall>j \<in> set ps. bn_start (?ns ! j) < bn_start (?ns ! i)" "\<forall>j \<in> set qs. bn_start (?ns ! i) < bn_start (?ns ! j)"
    using insert_scan_spec [OF ch, of "bn_start (?ns ! i)" None] assms(5,6) unfolding eq bi set_map [symmetric] by blast
  have sorted: "sorted_wrt (<) (starts s (ps @ i # qs))"
    using assms(5) ps chain_bound [OF ch] bi by (auto simp: sorted_wrt_append blk_fields)
  have len: "global_free_lens s ! k = length ?xs" "wadd (length ?xs) 1 = length ?xs + 1"
    using repD(2) [OF assms(1)] repD(4) [OF assms(1), of "LFree k"] rep_free [OF assms(1,3,2), of "LFree k"] assms(4)
    by (simp_all add: wadd_exact)
  have shape: "length (global_free_heads s) = MAX_ORDER_SLOTS" "length (global_free_lens s) = MAX_ORDER_SLOTS"
    using shape_lengths [OF repD(1) [OF assms(1)]] by simp_all
  let ?c = "case qs of [] \<Rightarrow> None | q # _ \<Rightarrow> Some q"
  show ?thesis
  proof (cases ps rule: rev_cases)
    case Nil
    let ?s = "set_nodes (set_list s (LFree k) (Some i) (length ?xs + 1)) (?ns[i := ?n ?c])"
    have "global_insert_sorted s k i = Some (Ok (), ?s)"
      using assms(3,4) ps Nil len shape by (simp add: global_insert_sorted_def set_nodes_def set_list.simps)
    moreover have "?c = head_of s (LFree k)"
      using chain_head [OF repD(3) [OF assms(1), of "LFree k"]] ps(1) Nil by simp
    then have "rep ?s (L(LFree k := i # ?xs)) (own(i := Some (LFree k)))"
      using assms by (intro rep_push) auto
    moreover have "blk ?s = blk s" using assms(3) by (intro blk_set_same) (simp_all add: blk_def)
    ultimately show ?thesis using that [of ?s ps qs] ps(1) Nil sorted by simp
  next
    case (snoc ps' p)
    let ?ms = "?ns[i := ?n ?c, p := (?ns ! p)\<lparr>bn_next := Some i\<rparr>]"
    let ?s = "set_nodes (set_list s (LFree k) (head_of s (LFree k)) (length (ps' @ p # i # qs))) ?ms"
    have p: "p < length ?ns" "p \<noteq> i"
      using chain_bound [OF ch, of p] repD(6) [OF assms(1), of p "LFree k"] assms(2) ps(1) snoc by auto
    have "global_insert_sorted s k i = Some (Ok (), ?s)"
      using assms(3,4) ps snoc len shape p by (simp add: global_insert_sorted_def set_nodes_def set_list.simps)
    moreover have "rep ?s (L(LFree k := ps' @ p # i # qs)) (own(i := Some (LFree k)))"
      using assms ps(1) snoc by (intro rep_insert) auto
    moreover have "blk ?s = blk s" using assms(3) p by (intro blk_set2) (simp_all add: blk_def)
    ultimately show ?thesis using that [of ?s ps qs] ps(1) snoc sorted by simp
  qed
qed

lemma global_pop_empty:
  assumes "rep s L own" "k < MAX_ORDER_SLOTS" "L (LFree k) = []"
  shows "global_pop_first s k = Some (None, s)"
  using repD(3) [OF assms(1), of "LFree k"] shape_lengths(1) [OF repD(1) [OF assms(1)]] assms(2,3)
  by (simp add: global_pop_first_def)

lemma free_head_empty:
  assumes "rep s L own" "k < MAX_ORDER_SLOTS"
  shows "at (global_free_heads s) k = Some (case L (LFree k) of [] \<Rightarrow> None | i # _ \<Rightarrow> Some i)"
  using chain_head [OF repD(3) [OF assms(1), of "LFree k"]] shape_lengths(1) [OF repD(1) [OF assms(1)]] assms(2)
  by simp

lemma global_pop_spec:
  assumes "rep s L own" "k < MAX_ORDER_SLOTS" "L (LFree k) = i # is"
  obtains s' where "global_pop_first s k = Some (Some i, s')" "rep s' (L(LFree k := is)) (own(i := None))"
    "fixed_part s' = fixed_part s" "blk s' = blk s"
proof -
  let ?s = "set_nodes (set_list s (LFree k) (bn_next (node_array s ! i)) (length is))
      ((node_array s)[i := (node_array s ! i)\<lparr>bn_next := None\<rparr>])"
  have i: "global_free_heads s ! k = Some i" "i < length (node_array s)"
    using repD(3) [OF assms(1), of "LFree k"] assms(2,3) by auto
  have "global_free_lens s ! k = Suc (length is)" "Suc (length is) < usize_range"
    using repD(2) [OF assms(1)] repD(4) [OF assms(1), of "LFree k"] rep_length [OF assms(1), of "LFree k"]
      assms(2,3) by auto
  then have "wsub (global_free_lens s ! k) 1 = length is" by (simp add: wsub_exact)
  then have "global_pop_first s k = Some (Some i, ?s)"
    using i assms(2) shape_lengths(1,2) [OF repD(1) [OF assms(1)]]
    by (simp add: global_pop_first_def set_nodes_def set_list.simps)
  moreover have "blk ?s = blk s" using i by (intro blk_set_same) (simp_all add: blk_def)
  ultimately show ?thesis using that [of ?s] rep_pop [OF assms(1) _ assms(3)] assms(2) by simp
qed

lemma remove_scan_found:
  assumes "chain ns h (ps @ i # qs)" "sorted_wrt (<) (map (\<lambda>i. bn_start (ns ! i)) (ps @ i # qs))"
  shows "remove_scan ns (bn_start (ns ! i)) h prev = Some (Some (if ps = [] then prev else Some (last ps), i))"
  using assms
proof (induction ps arbitrary: h prev)
  case (Cons p ps)
  then show ?case by (simp add: remove_scan.simps [of _ _ "Some p"])
qed (simp add: remove_scan.simps)

lemma remove_scan_missing:
  assumes "chain ns h xs" "start \<notin> (\<lambda>i. bn_start (ns ! i)) ` set xs"
  shows "remove_scan ns start h prev = Some None"
  using assms
proof (induction xs arbitrary: h prev)
  case (Cons x xs)
  then show ?case by (auto simp: remove_scan.simps [of _ _ "Some x"])
qed (simp add: remove_scan.simps)

lemma starts_nodes:
  assumes "rep s L own"
  shows "map (\<lambda>i. bn_start (node_array s ! i)) (L l) = starts s (L l)"
  using chain_bound [OF repD(3) [OF assms, of l]] by (simp add: blk_fields)

lemma global_remove_missing:
  assumes "rep s L own" "k < MAX_ORDER_SLOTS" "start \<notin> set (starts s (L (LFree k)))"
  shows "global_remove_by_start s k start = Some (None, s)"
proof -
  have "remove_scan (node_array s) start (global_free_heads s ! k) None = Some None"
    using repD(3) [OF assms(1), of "LFree k"] assms(2,3) starts_nodes [OF assms(1), of "LFree k"]
    by (intro remove_scan_missing [where xs = "L (LFree k)"]) (simp_all flip: set_map)
  then show ?thesis
    using shape_lengths(1) [OF repD(1) [OF assms(1)]] assms(2) by (simp add: global_remove_by_start_def)
qed

lemma global_remove_found:
  assumes "rep s L own" "k < MAX_ORDER_SLOTS" "L (LFree k) = ps @ i # qs"
    and "sorted_wrt (<) (starts s (L (LFree k)))"
  obtains s' where "global_remove_by_start s k (bn_start (blk s i)) = Some (Some i, s')"
    "rep s' (L(LFree k := ps @ qs)) (own(i := None))" "fixed_part s' = fixed_part s" "blk s' = blk s"
proof -
  let ?ns = "node_array s" and ?h = "global_free_heads s ! k"
  have ch: "chain ?ns ?h (ps @ i # qs)" using repD(3) [OF assms(1), of "LFree k"] assms(2,3) by simp
  have i: "i < length ?ns" using chain_bound [OF ch] by simp
  have scan: "remove_scan ?ns (bn_start (?ns ! i)) ?h None =
      Some (Some (if ps = [] then None else Some (last ps), i))"
    using starts_nodes [OF assms(1), of "LFree k"] assms(3,4) by (intro remove_scan_found [OF ch]) metis
  have len: "global_free_lens s ! k = Suc (length (ps @ qs))" "Suc (length (ps @ qs)) < usize_range"
    using repD(2) [OF assms(1)] repD(4) [OF assms(1), of "LFree k"] rep_length [OF assms(1), of "LFree k"]
      assms(2,3) by auto
  have shape: "length (global_free_heads s) = MAX_ORDER_SLOTS" "length (global_free_lens s) = MAX_ORDER_SLOTS"
    using shape_lengths [OF repD(1) [OF assms(1)]] by simp_all
  show ?thesis
  proof (cases ps rule: rev_cases)
    case Nil
    let ?s = "set_nodes (set_list s (LFree k) (bn_next (?ns ! i)) (length qs)) (?ns[i := (?ns ! i)\<lparr>bn_next := None\<rparr>])"
    have "global_remove_by_start s k (bn_start (blk s i)) = Some (Some i, ?s)"
      using scan Nil len i assms(2) shape wsub_exact [of 1 "Suc (length qs)"]
      by (simp add: global_remove_by_start_def set_nodes_def set_list.simps blk_fields)
    moreover have "blk ?s = blk s" using i by (intro blk_set_same) (simp_all add: blk_def)
    moreover have "rep ?s (L(LFree k := qs)) (own(i := None))"
      using assms(1-3) Nil by (intro rep_pop) simp_all
    ultimately show ?thesis using that [of ?s] Nil by simp
  next
    case (snoc ps' p)
    have p: "p < length ?ns" "p \<noteq> i" using chain_bound [OF ch] repD(5) [OF assms(1), of "LFree k"] assms(3) snoc by auto
    let ?ms = "?ns[p := (?ns ! p)\<lparr>bn_next := bn_next (?ns ! i)\<rparr>, i := (?ns ! i)\<lparr>bn_next := None\<rparr>]"
    let ?s = "set_nodes (set_list s (LFree k) (head_of s (LFree k)) (length (ps' @ p # qs))) ?ms"
    have "global_remove_by_start s k (bn_start (blk s i)) = Some (Some i, ?s)"
      using scan snoc len i p assms(2) shape wsub_exact [of 1 "Suc (length (ps @ qs))"]
      by (simp add: global_remove_by_start_def set_nodes_def set_list.simps blk_fields)
    moreover have "blk ?s = blk s" using i p by (intro blk_set2) (simp_all add: blk_def)
    moreover have "rep ?s (L(LFree k := ps' @ p # qs)) (own(i := None))"
      using assms(1-3) snoc by (intro rep_unlink) simp_all
    ultimately show ?thesis using that [of ?s] snoc by simp
  qed
qed

section \<open>The per-CPU caches\<close>

lemma cpu_push_spec:
  assumes "rep s L own" "valid_lid s (LCache c k)" "own i = None" "i < length (node_array s)"
  obtains s' where "cpu_push s c k i = Some s'" "rep s' (L(LCache c k := i # L (LCache c k))) (own(i := Some (LCache c k)))"
    "fixed_part s' = fixed_part s" "blk s' = (blk s)(i := (blk s i)\<lparr>bn_order := k, bn_refcount := 0\<rparr>)"
proof -
  let ?l = "LCache c k"
  let ?n = "(node_array s ! i)\<lparr>bn_order := k, bn_refcount := 0, bn_next := head_of s ?l\<rparr>"
  let ?s = "set_nodes (set_list s ?l (Some i) (length (L ?l) + 1)) ((node_array s)[i := ?n])"
  have "length_of s ?l = length (L ?l)" "length (L ?l) + 1 < usize_range"
    using repD(2) [OF assms(1)] repD(4) [OF assms(1), of ?l] rep_free [OF assms(1,4,3), of ?l] by auto
  then have "lens (per_cpu s ! c) ! k = length (L ?l)" "wadd (length (L ?l)) 1 = length (L ?l) + 1"
    using assms(2) by (simp_all add: wadd_exact)
  then have "cpu_push s c k i = Some ?s"
    using assms(2,4) shape_lengths(3,4) [OF repD(1) [OF assms(1)], of c]
    by (simp add: cpu_push_def set_nodes_def set_list.simps)
  moreover have "blk ?s = (blk s)(i := (blk s i)\<lparr>bn_order := k, bn_refcount := 0\<rparr>)"
    using assms(4) by (simp add: blk_def bn_next_last)
  moreover have "rep ?s (L(?l := i # L ?l)) (own(i := Some ?l))"
    using assms by (intro rep_push) simp_all
  ultimately show ?thesis using that [of ?s] by simp
qed

lemma cpu_pop_empty:
  assumes "rep s L own" "valid_lid s (LCache c k)" "L (LCache c k) = []"
  shows "cpu_pop s c k = Some (None, s)"
  using repD(3) [OF assms(1), of "LCache c k"] shape_lengths(3) [OF repD(1) [OF assms(1)], of c] assms(2,3)
  by (simp add: cpu_pop_def)

lemma cpu_pop_spec:
  assumes "rep s L own" "valid_lid s (LCache c k)" "L (LCache c k) = i # is"
  obtains s' where "cpu_pop s c k = Some (Some i, s')" "rep s' (L(LCache c k := is)) (own(i := None))"
    "fixed_part s' = fixed_part s" "blk s' = blk s"
proof -
  let ?l = "LCache c k"
  let ?s = "set_nodes (set_list s ?l (bn_next (node_array s ! i)) (length is))
      ((node_array s)[i := (node_array s ! i)\<lparr>bn_next := None\<rparr>])"
  have i: "heads (per_cpu s ! c) ! k = Some i" "i < length (node_array s)"
    using repD(3) [OF assms(1), of ?l] assms(2,3) by auto
  have "lens (per_cpu s ! c) ! k = Suc (length is)" "Suc (length is) < usize_range"
    using repD(2) [OF assms(1)] repD(4) [OF assms(1), of ?l] rep_length [OF assms(1), of ?l] assms(2,3) by auto
  then have "wsub (lens (per_cpu s ! c) ! k) 1 = length is" by (simp add: wsub_exact)
  then have "cpu_pop s c k = Some (Some i, ?s)"
    using i assms(2) shape_lengths(3,4) [OF repD(1) [OF assms(1)], of c]
    by (simp add: cpu_pop_def set_nodes_def set_list.simps)
  moreover have "blk ?s = blk s" using i by (intro blk_set_same) (simp_all add: blk_def)
  ultimately show ?thesis using that [of ?s] rep_pop [OF assms(1,2,3)] by simp
qed

lemma cache_len_spec:
  assumes "rep s L own" "valid_lid s (LCache c k)"
  shows "at (per_cpu s) c = Some (per_cpu s ! c)" "cache_len (per_cpu s ! c) k = Some (length (L (LCache c k)))"
  using assms(2) repD(4) [OF assms(1), of "LCache c k"] shape_lengths(4) [OF repD(1) [OF assms(1)], of c]
  by (simp_all add: cache_len_def)

section \<open>The list of allocated blocks\<close>

lemma mark_allocated_spec:
  assumes "rep s L own" "own i = None" "i < length (node_array s)" "bn_refcount (blk s i) = 0"
  obtains s' where "mark_allocated s i k = Some (Ok (bn_start (blk s i)), s')"
    "rep s' (L(LAlloc := i # L LAlloc)) (own(i := Some LAlloc))" "fixed_part s' = fixed_part s"
    "blk s' = (blk s)(i := (blk s i)\<lparr>bn_order := k, bn_refcount := 1\<rparr>)"
proof -
  let ?n = "(node_array s ! i)\<lparr>bn_order := k, bn_refcount := 1, bn_next := allocations_head s\<rparr>"
  let ?s = "set_nodes (set_list s LAlloc (Some i) (length (L LAlloc) + 1)) ((node_array s)[i := ?n])"
  have "allocation_len s = length (L LAlloc)" "length (L LAlloc) + 1 < usize_range"
    using repD(2) [OF assms(1)] repD(4) [OF assms(1), of LAlloc] rep_free [OF assms(1,3,2), of LAlloc] by auto
  then have "mark_allocated s i k = Some (Ok (bn_start (blk s i)), ?s)"
    using assms(3,4) by (simp add: mark_allocated_def set_nodes_def set_list.simps blk_fields wadd_exact)
  moreover have "blk ?s = (blk s)(i := (blk s i)\<lparr>bn_order := k, bn_refcount := 1\<rparr>)"
    using assms(3) by (simp add: blk_def bn_next_last)
  moreover have "rep ?s (L(LAlloc := i # L LAlloc)) (own(i := Some LAlloc))"
    using assms by (intro rep_push) simp_all
  ultimately show ?thesis using that [of ?s] by simp
qed

lemma find_allocation_spec:
  assumes "rep s L own"
  shows "find_allocation_index s start = Some (find (\<lambda>i. bn_start (blk s i) = start) (L LAlloc))"
proof -
  have "find_allocation_from (node_array s) start h = Some (find (\<lambda>i. bn_start (blk s i) = start) xs)"
    if "chain (node_array s) h xs" for h xs
    using that
  proof (induction xs arbitrary: h)
    case (Cons x xs)
    then show ?case by (auto simp: find_allocation_from.simps [of _ _ "Some x"] blk_fields)
  qed (simp add: find_allocation_from.simps)
  then show ?thesis using repD(3) [OF assms, of LAlloc] by (simp add: find_allocation_index_def)
qed

lemma target_scan_spec:
  "chain ns h (ps @ i # qs) \<Longrightarrow> i \<notin> set ps \<Longrightarrow>
    target_scan ns i h prev = Some (Some (if ps = [] then prev else Some (last ps)))"
proof (induction ps arbitrary: h prev)
  case (Cons p ps)
  then show ?case by (auto simp: target_scan.simps [of _ _ "Some p"])
qed (simp add: target_scan.simps)

lemma remove_allocation_spec:
  assumes "rep s L own" "L LAlloc = ps @ i # qs"
  obtains s' where "remove_allocation_node s i = Some (Ok (), s')" "rep s' (L(LAlloc := ps @ qs)) (own(i := None))"
    "fixed_part s' = fixed_part s" "blk s' = blk s"
proof -
  let ?ns = "node_array s"
  have ch: "chain ?ns (allocations_head s) (ps @ i # qs)" using repD(3) [OF assms(1), of LAlloc] assms(2) by simp
  have i: "i < length ?ns" "i \<notin> set ps" using chain_bound [OF ch] repD(5) [OF assms(1), of LAlloc] assms(2) by simp_all
  note scan = target_scan_spec [OF ch i(2), of None]
  have len: "allocation_len s = Suc (length (ps @ qs))" "Suc (length (ps @ qs)) < usize_range"
    using repD(2) [OF assms(1)] repD(4) [OF assms(1), of LAlloc] rep_length [OF assms(1), of LAlloc] assms(2) by auto
  show ?thesis
  proof (cases ps rule: rev_cases)
    case Nil
    let ?s = "set_nodes (set_list s LAlloc (bn_next (?ns ! i)) (length qs)) (?ns[i := (?ns ! i)\<lparr>bn_next := None\<rparr>])"
    have "remove_allocation_node s i = Some (Ok (), ?s)"
      using scan Nil len i wsub_exact [of 1 "Suc (length qs)"]
      by (simp add: remove_allocation_node_def set_nodes_def set_list.simps)
    moreover have "blk ?s = blk s" using i by (intro blk_set_same) (simp_all add: blk_def)
    moreover have "rep ?s (L(LAlloc := qs)) (own(i := None))" using assms Nil by (intro rep_pop) simp_all
    ultimately show ?thesis using that [of ?s] Nil by simp
  next
    case (snoc ps' p)
    have p: "p < length ?ns" "p \<noteq> i" using chain_bound [OF ch] i(2) snoc by auto
    let ?ms = "?ns[p := (?ns ! p)\<lparr>bn_next := bn_next (?ns ! i)\<rparr>, i := (?ns ! i)\<lparr>bn_next := None\<rparr>]"
    let ?s = "set_nodes (set_list s LAlloc (head_of s LAlloc) (length (ps' @ p # qs))) ?ms"
    have "remove_allocation_node s i = Some (Ok (), ?s)"
      using scan snoc len i p wsub_exact [of 1 "Suc (length (ps @ qs))"]
      by (simp add: remove_allocation_node_def set_nodes_def set_list.simps)
    moreover have "blk ?s = blk s" using i p by (intro blk_set2) (simp_all add: blk_def)
    moreover have "rep ?s (L(LAlloc := ps' @ p # qs)) (own(i := None))"
      using assms snoc by (intro rep_unlink) simp_all
    ultimately show ?thesis using that [of ?s] snoc by simp
  qed
qed

end
