(* ===== verification/Buddy_Tiling.thy ===== *)
theory Buddy_Tiling
  imports Buddy
begin

text \<open>
  The arithmetic of orders and buddies, and what it means that a family of blocks tiles
  the usable frames: every block is aligned to its size and lies in usable memory, no two
  overlap, and together they cover everything. Halving a block, merging two buddies and
  carving an aligned block off a region keep a tiling; the operations of the allocator
  do nothing else to the set of blocks.
\<close>

unbundle bit_operations_syntax

section \<open>Logarithms\<close>

lemma bit_len_bounds: "n < 2 ^ bit_len n" "0 < n \<Longrightarrow> 2 ^ (bit_len n - 1) \<le> n"
proof (induction n rule: bit_len.induct)
  case (1 n)
  { case 1
    then show ?case using "1.IH"(1) by (subst bit_len.simps) auto }
  { case 2
    have "2 * 2 ^ (bit_len (n div 2) - 1) \<le> n" if "0 < n div 2"
      using "1.IH"(2) that 2 by auto
    moreover have "bit_len (n div 2) = Suc (bit_len (n div 2) - 1)" if "0 < n div 2"
      using that by (subst (1 2) bit_len.simps) simp
    ultimately show ?case
      using 2 by (subst bit_len.simps) (cases "n div 2 = 0"; simp add: bit_len.simps [of 0] flip: power_Suc) }
qed

lemma bit_len_64: "n < usize_range \<Longrightarrow> bit_len n \<le> 64"
proof (rule ccontr)
  assume n: "n < usize_range" and "\<not> bit_len n \<le> 64"
  then have "64 \<le> bit_len n - 1" "0 < n" by (auto simp: bit_len.simps [of 0] intro: gr0I)
  then have "(2::nat) ^ 64 \<le> 2 ^ (bit_len n - 1)" by (intro power_increasing) simp_all
  also have "\<dots> \<le> n" using bit_len_bounds(2) \<open>0 < n\<close> by simp
  finally show False using n by (simp add: usize_range_def)
qed

lemma bit_len_pos: "0 < n \<Longrightarrow> 0 < bit_len n"
  by (subst bit_len.simps) simp

lemma floor_log2_eq: "0 < n \<Longrightarrow> n < usize_range \<Longrightarrow> floor_log2 n = bit_len n - 1"
  using bit_len_64 [of n] bit_len_pos [of n] wsub_exact [of "64 - bit_len n" 63]
  by (simp add: floor_log2_def leading_zeros_def usize_range_def)

lemma floor_log2_bounds:
  assumes "0 < n" "n < usize_range"
  shows "floor_log2 n < 64" "2 ^ floor_log2 n \<le> n" "n < 2 ^ (floor_log2 n + 1)"
  using assms bit_len_bounds [of n] bit_len_64 [of n] bit_len_pos [of n] by (simp_all add: floor_log2_eq)

lemma ceil_log2_bounds:
  assumes "0 < n" "n < usize_range"
  shows "n \<le> 2 ^ ceil_log2 n" "ceil_log2 n \<le> 64" "1 < n \<Longrightarrow> 2 ^ (ceil_log2 n - 1) < n"
proof -
  have eq: "ceil_log2 n = (if n \<le> 1 then 0 else bit_len (n - 1))"
    using bit_len_64 [of "n - 1"] assms by (simp add: ceil_log2_def leading_zeros_def)
  show "n \<le> 2 ^ ceil_log2 n" using bit_len_bounds(1) [of "n - 1"] eq by auto
  show "ceil_log2 n \<le> 64" using bit_len_64 [of "n - 1"] assms eq by simp
  show "2 ^ (ceil_log2 n - 1) < n" if "1 < n" using bit_len_bounds(2) [of "n - 1"] that eq by simp
qed

lemma block_size_eq [simp]: "k < 64 \<Longrightarrow> block_size k = 2 ^ k"
  by (simp add: block_size_def)

lemma power_less_usize: "k < 64 \<Longrightarrow> 2 ^ k < usize_range"
  unfolding usize_range_def by (rule power_strict_increasing) simp_all

lemma lower_order_bounds:
  "k < 64 \<Longrightarrow> lower_order a k \<le> k \<and> 2 ^ lower_order a k dvd a"
  by (induction k) auto

lemma max_fit_order_bounds:
  assumes "0 < remaining" "remaining < usize_range" "mo < 64"
  shows "max_fit_order a remaining mo \<le> mo" "2 ^ max_fit_order a remaining mo dvd a"
    "2 ^ max_fit_order a remaining mo \<le> remaining" "max_fit_order a remaining mo < 64"
proof -
  let ?k = "min (floor_log2 remaining) mo"
  have k: "?k < 64" "2 ^ ?k \<le> remaining"
    using floor_log2_bounds [OF assms(1,2)] assms(3) power_increasing [of ?k "floor_log2 remaining" "2::nat"]
    by (auto simp del: power_increasing_iff)
  have "max_fit_order a remaining mo \<le> ?k" "2 ^ max_fit_order a remaining mo dvd a"
    using lower_order_bounds [OF k(1), of a] by (simp_all add: max_fit_order_def)
  moreover from this(1) have "(2::nat) ^ max_fit_order a remaining mo \<le> 2 ^ ?k" by (intro power_increasing) simp_all
  ultimately show "max_fit_order a remaining mo \<le> mo" "2 ^ max_fit_order a remaining mo dvd a"
    "2 ^ max_fit_order a remaining mo \<le> remaining" "max_fit_order a remaining mo < 64"
    using k by linarith+
qed

section \<open>Buddies\<close>

lemma buddy_xor:
  fixes b :: nat
  assumes "2 ^ k dvd b"
  shows "b XOR 2 ^ k = (if 2 ^ Suc k dvd b then b + 2 ^ k else b - 2 ^ k)"
proof -
  obtain q where q: "b = 2 ^ k * q" using assms by (elim dvdE)
  have "b XOR 2 ^ k = push_bit k q XOR push_bit k 1" by (simp add: q push_bit_eq_mult mult.commute)
  also have "\<dots> = push_bit k (q XOR 1)" by (simp only: push_bit_xor)
  also have "\<dots> = 2 ^ k * (if even q then q + 1 else q - 1)"
    by (simp add: push_bit_eq_mult mult.commute xor_Suc_0_eq)
  finally show ?thesis by (simp add: q algebra_simps)
qed

lemma buddy_min:
  fixes b :: nat
  assumes "2 ^ k dvd b"
  shows "2 ^ Suc k dvd min b (b XOR 2 ^ k)"
    and "{min b (b XOR 2 ^ k) ..< min b (b XOR 2 ^ k) + 2 ^ Suc k} =
      {b ..< b + 2 ^ k} \<union> {b XOR 2 ^ k ..< (b XOR 2 ^ k) + 2 ^ k}"
proof -
  consider (even) "b XOR 2 ^ k = b + 2 ^ k" "2 ^ Suc k dvd b"
    | (odd) "b XOR 2 ^ k = b - 2 ^ k" "2 ^ k \<le> b" "2 ^ Suc k dvd b - 2 ^ k"
  proof (cases "2 ^ Suc k dvd b")
    case False
    obtain q where q: "b = 2 ^ k * q" using assms by (elim dvdE)
    with False have "odd q" by auto
    then obtain m where "q = 2 * m + 1" by (elim oddE)
    then have "2 ^ k \<le> b" "b - 2 ^ k = 2 ^ Suc k * m" by (simp_all add: q algebra_simps)
    moreover from this(2) have "2 ^ Suc k dvd b - 2 ^ k" by (rule dvdI)
    moreover have "b XOR 2 ^ k = b - 2 ^ k" using buddy_xor [OF assms] False by (simp only: if_False)
    ultimately show ?thesis by (intro that(2))
  next
    case True
    then have "b XOR 2 ^ k = b + 2 ^ k" using buddy_xor [OF assms] by (simp only: if_True)
    then show ?thesis using True by (rule that(1))
  qed
  note cases = this
  have split: "{c ..< c + 2 * p} = {c ..< c + p} \<union> {c + p ..< c + p + p}" for c p :: nat by auto
  show "2 ^ Suc k dvd min b (b XOR 2 ^ k)"
    by (rule cases) (simp_all add: min_absorb1 min_absorb2)
  show "{min b (b XOR 2 ^ k) ..< min b (b XOR 2 ^ k) + 2 ^ Suc k} =
      {b ..< b + 2 ^ k} \<union> {b XOR 2 ^ k ..< (b XOR 2 ^ k) + 2 ^ k}"
  proof (rule cases)
    assume "b XOR 2 ^ k = b - 2 ^ k" "2 ^ k \<le> b"
    then show ?thesis using split [of "b - 2 ^ k" "2 ^ k"] by (simp add: min_absorb2 Un_commute)
  qed (use split [of b "2 ^ k"] in \<open>simp add: min_absorb1\<close>)
qed

section \<open>Tilings\<close>

definition block_frames :: "block_node \<Rightarrow> usize set" where
  "block_frames n = {bn_start n ..< bn_start n + 2 ^ bn_order n}"

definition good_block :: "usize \<Rightarrow> usize set \<Rightarrow> block_node \<Rightarrow> bool" where
  "good_block mo U n \<longleftrightarrow> 2 ^ bn_order n dvd bn_start n \<and> bn_order n \<le> mo \<and> block_frames n \<subseteq> U"

definition tiling :: "usize \<Rightarrow> usize set \<Rightarrow> usize set \<Rightarrow> (usize \<Rightarrow> block_node) \<Rightarrow> bool" where
  "tiling mo U A B \<longleftrightarrow> (\<forall>i \<in> A. good_block mo U (B i)) \<and> disjoint_family_on (\<lambda>i. block_frames (B i)) A
     \<and> (\<Union>i \<in> A. block_frames (B i)) = U"

lemma block_frames_start [simp]: "bn_start n \<in> block_frames n"
  by (simp add: block_frames_def)

lemma block_frames_update [simp]:
  "block_frames (n\<lparr>bn_refcount := r\<rparr>) = block_frames n" "block_frames (n\<lparr>bn_next := x\<rparr>) = block_frames n"
  by (simp_all add: block_frames_def)

lemma tiling_apart:
  "tiling mo U A B \<Longrightarrow> i \<in> A \<Longrightarrow> j \<in> A \<Longrightarrow> i \<noteq> j \<Longrightarrow> block_frames (B i) \<inter> block_frames (B j) = {}"
  by (simp add: tiling_def disjoint_family_on_def)

lemma tiling_distinct_starts:
  assumes "tiling mo U A B" "i \<in> A" "j \<in> A" "bn_start (B i) = bn_start (B j)"
  shows "i = j"
proof (rule ccontr)
  assume "i \<noteq> j"
  then have "block_frames (B i) \<inter> block_frames (B j) = {}" by (rule tiling_apart [OF assms(1-3)])
  then show False using block_frames_start [of "B i"] block_frames_start [of "B j"] assms(4) by auto
qed

lemma tiling_cong:
  "(\<And>i. i \<in> A \<Longrightarrow> bn_start (B i) = bn_start (C i) \<and> bn_order (B i) = bn_order (C i)) \<Longrightarrow>
    tiling mo U A B \<longleftrightarrow> tiling mo U A C"
  by (simp add: tiling_def good_block_def block_frames_def disjoint_family_on_def)

text \<open>Replacing some of the blocks by others that cover the same frames.\<close>

lemma tiling_replace:
  assumes "tiling mo U (A \<union> X) B" "tiling mo V Y C" "A \<inter> X = {}" "A \<inter> Y = {}"
    and "(\<Union>i \<in> X. block_frames (B i)) = V" "\<And>i. i \<in> A \<Longrightarrow> C i = B i"
  shows "tiling mo U (A \<union> Y) C"
proof -
  have V: "V \<subseteq> U" and U: "U = (\<Union>i \<in> A. block_frames (B i)) \<union> V" using assms(1,5) by (auto simp: tiling_def)
  have apart: "block_frames (B i) \<inter> V = {}" if "i \<in> A" for i
  proof -
    have "block_frames (B i) \<inter> block_frames (B j) = {}" if "j \<in> X" for j
    proof -
      have "i \<noteq> j" using assms(3) \<open>i \<in> A\<close> that by blast
      then show ?thesis using assms(1) \<open>i \<in> A\<close> that by (simp add: tiling_def disjoint_family_on_def)
    qed
    then show ?thesis using assms(5) by blast
  qed
  have C: "block_frames (C j) \<subseteq> V" if "j \<in> Y" for j using assms(2) that by (auto simp: tiling_def)
  have "disjoint_family_on (\<lambda>i. block_frames (C i)) (A \<union> Y)"
    unfolding disjoint_family_on_def
  proof (intro ballI impI)
    fix i j assume ij: "i \<in> A \<union> Y" "j \<in> A \<union> Y" "i \<noteq> j"
    consider "i \<in> A" "j \<in> A" | "i \<in> A" "j \<in> Y" | "i \<in> Y" "j \<in> A" | "i \<in> Y" "j \<in> Y" using ij by blast
    then show "block_frames (C i) \<inter> block_frames (C j) = {}"
    proof cases
      case 1 then show ?thesis using assms(1,6) ij(3) by (simp add: tiling_def disjoint_family_on_def)
    next
      case 2 then show ?thesis using apart [of i] C [of j] assms(6) [of i] by auto
    next
      case 3 then show ?thesis using apart [of j] C [of i] assms(6) [of j] by auto
    next
      case 4 then show ?thesis using assms(2) ij(3) by (simp add: tiling_def disjoint_family_on_def)
    qed
  qed
  moreover have "(\<Union>i \<in> A \<union> Y. block_frames (C i)) = U"
    using assms(2,6) U by (auto simp: tiling_def)
  moreover have "good_block mo U (C i)" if "i \<in> A \<union> Y" for i
    using that assms(1,2,6) V by (cases "i \<in> A") (auto simp: tiling_def good_block_def)
  ultimately show ?thesis by (simp add: tiling_def)
qed

lemma tiling_split:
  assumes "tiling mo U A B" "i \<in> A" "j \<notin> A" "bn_order (B i) = Suc k"
    and "bn_start n = bn_start (B i) + 2 ^ k" "bn_order n = k"
    and "bn_start m = bn_start (B i)" "bn_order m = k"
  shows "tiling mo U (insert j A) (B(i := m, j := n))"
proof -
  have ij: "i \<noteq> j" using assms(2,3) by auto
  have g: "2 ^ Suc k dvd bn_start (B i)" "Suc k \<le> mo" using assms(1,2,4) by (auto simp: tiling_def good_block_def)
  have halves: "block_frames (B i) = block_frames m \<union> block_frames n" "block_frames m \<inter> block_frames n = {}"
    using assms(4-8) by (auto simp: block_frames_def)
  have "2 ^ k dvd bn_start (B i)" using g(1) by (metis dvd_trans le_imp_power_dvd lessI less_imp_le)
  then have "tiling mo (block_frames (B i)) {i, j} (B(i := m, j := n))"
    using halves ij assms(5-8) g(2)
    by (auto simp: tiling_def disjoint_family_on_def good_block_def dvd_add)
  then have "tiling mo U ((A - {i}) \<union> {i, j}) (B(i := m, j := n))"
    by (rule tiling_replace [where X = "{i}" and B = B, rotated]) (use assms(1-3) in \<open>auto simp: insert_absorb\<close>)
  moreover have "(A - {i}) \<union> {i, j} = insert j A" using assms(2) by auto
  ultimately show ?thesis by simp
qed

lemma tiling_merge:
  assumes "tiling mo U A B" "i \<in> A" "j \<in> A" "i \<noteq> j" "k < mo" "bn_order (B i) = k" "bn_order (B j) = k"
    and "bn_start (B j) = bn_start (B i) XOR 2 ^ k"
    and "bn_start m = min (bn_start (B i)) (bn_start (B j))" "bn_order m = Suc k"
  shows "tiling mo U (A - {j}) (B(i := m))"
proof -
  have "2 ^ k dvd bn_start (B i)" using assms(1,2,6) by (auto simp: tiling_def good_block_def)
  note b = buddy_min [OF this]
  have eq: "block_frames m = block_frames (B i) \<union> block_frames (B j)"
    using b(2) assms(6-10) by (simp add: block_frames_def)
  have A: "insert i (insert j (A - {i, j})) = A" using assms(2,3) by auto
  have "tiling mo (block_frames m) {i} (B(i := m))"
    using b(1) assms(5,8-10) by (auto simp: tiling_def disjoint_family_on_def good_block_def)
  then have "tiling mo U ((A - {i, j}) \<union> {i}) (B(i := m))"
    by (rule tiling_replace [where X = "{i, j}" and B = B, rotated])
      (use assms(1-4) eq A in \<open>auto simp: A\<close>)
  moreover have "(A - {i, j}) \<union> {i} = A - {j}" using assms(2,4) by auto
  ultimately show ?thesis by simp
qed

text \<open>Carving a block off the front of what is left to seed.\<close>

lemma tiling_extend:
  assumes "tiling mo U A B" "j \<notin> A" "block_frames n \<inter> U = {}" "2 ^ bn_order n dvd bn_start n" "bn_order n \<le> mo"
  shows "tiling mo (U \<union> block_frames n) (insert j A) (B(j := n))"
proof -
  have "block_frames (B i) \<inter> block_frames n = {}" if "i \<in> A" for i
    using assms(1,3) that by (fastforce simp: tiling_def)
  then have "disjoint_family_on (\<lambda>i. block_frames ((B(j := n)) i)) (insert j A)"
    using assms(1,2) by (auto simp: tiling_def disjoint_family_on_def)
  moreover have "block_frames ((B(j := n)) i) = block_frames (B i)" if "i \<in> A" for i using assms(2) that by auto
  then have "(\<Union>i \<in> A. block_frames ((B(j := n)) i)) = U"
    using assms(1) by (simp add: tiling_def)
  ultimately show ?thesis
    using assms by (auto simp: tiling_def good_block_def)
qed

lemma tiling_card:
  assumes "tiling mo U A B" "finite A"
  shows "card U = (\<Sum>i \<in> A. 2 ^ bn_order (B i))"
proof -
  have "card U = card (\<Union>i \<in> A. block_frames (B i))" using assms(1) by (simp add: tiling_def)
  also have "\<dots> = (\<Sum>i \<in> A. card (block_frames (B i)))"
    using assms by (intro card_UN_disjoint') (auto simp: tiling_def block_frames_def)
  finally show ?thesis by (simp add: block_frames_def)
qed

end
