(* ===== verification/Buddy_Inv.thy ===== *)
theory Buddy_Inv
  imports Buddy_Lists Buddy_Tiling
begin

text \<open>
  The invariant of the buddy allocator and that splitting, merging and moving blocks
  between the lists keep it. \<open>idle\<close> describes a state between two operations: every node
  is on exactly one list and the blocks on the free lists, in the caches and on the
  allocation list tile the usable frames. \<open>holds_block\<close> describes the state inside an
  operation that has taken one node off its list and stands for a given block.
\<close>

section \<open>The invariant\<close>

definition usable :: "buddy \<Rightarrow> usize set" where
  "usable s = frames_of (live (usable_ranges s))"

definition config_ok :: "buddy \<Rightarrow> bool" where
  "config_ok s \<longleftrightarrow> rl_ok (usable_ranges s) \<and> ranges_ok (live (usable_ranges s))
     \<and> total_frames s = card (usable s) \<and> 0 < total_frames s \<and> max_order s = floor_log2 (total_frames s)
     \<and> cpu_count s \<le> length (per_cpu s) \<and> (\<forall>f \<in> usable s. f * PAGE_SIZE < usize_range)"

fun placed :: "usize \<Rightarrow> lid \<Rightarrow> block_node \<Rightarrow> bool" where
  "placed cpus LUnused n \<longleftrightarrow> bn_refcount n = 0"
| "placed cpus LAlloc n \<longleftrightarrow> 0 < bn_refcount n \<and> bn_refcount n < 2 ^ 32"
| "placed cpus (LFree k) n \<longleftrightarrow> bn_order n = k \<and> bn_refcount n = 0"
| "placed cpus (LCache c k) n \<longleftrightarrow> c < cpus \<and> bn_order n = k \<and> bn_refcount n = 0"

definition lists_ok :: "buddy \<Rightarrow> contents \<Rightarrow> owner \<Rightarrow> bool" where
  "lists_ok s L own \<longleftrightarrow> rep s L own \<and> config_ok s
     \<and> (\<forall>i l. i < length (node_array s) \<longrightarrow> own i = Some l \<longrightarrow> placed (cpu_count s) l (blk s i))
     \<and> (\<forall>k. sorted_wrt (<) (starts s (L (LFree k))))"

definition active :: "buddy \<Rightarrow> owner \<Rightarrow> usize set" where
  "active s own = {i. i < length (node_array s) \<and> own i \<noteq> Some LUnused}"

definition held :: "buddy \<Rightarrow> owner \<Rightarrow> usize set" where
  "held s own = {i. i < length (node_array s) \<and> own i = None}"

definition idle :: "buddy \<Rightarrow> contents \<Rightarrow> owner \<Rightarrow> bool" where
  "idle s L own \<longleftrightarrow> lists_ok s L own \<and> held s own = {}
     \<and> tiling (max_order s) (usable s) (active s own) (blk s)"

definition holds_block :: "buddy \<Rightarrow> contents \<Rightarrow> owner \<Rightarrow> usize \<Rightarrow> block_node \<Rightarrow> bool" where
  "holds_block s L own i n \<longleftrightarrow> lists_ok s L own \<and> held s own = {i}
     \<and> tiling (max_order s) (usable s) (active s own) ((blk s)(i := n))"

definition buddy_inv :: "buddy \<Rightarrow> bool" where
  "buddy_inv s \<longleftrightarrow> (\<exists>L own. idle s L own)"

text \<open>What an operation leaves as it was: the lists in a set and the blocks on them.\<close>

definition untouched :: "lid set \<Rightarrow> buddy \<Rightarrow> contents \<Rightarrow> buddy \<Rightarrow> contents \<Rightarrow> bool" where
  "untouched ls s L s' L' \<longleftrightarrow> fixed_part s' = fixed_part s
     \<and> (\<forall>l \<in> ls. L' l = L l \<and> (\<forall>i \<in> set (L l). blk s' i = blk s i))"

lemma untouched_refl [simp]: "untouched ls s L s L"
  by (simp add: untouched_def)

lemma untouched_trans: "untouched ls s L s' L' \<Longrightarrow> untouched ls s' L' s'' L'' \<Longrightarrow> untouched ls s L s'' L''"
  by (simp add: untouched_def)

lemma untouched_mono: "untouched ls s L s' L' \<Longrightarrow> ms \<subseteq> ls \<Longrightarrow> untouched ms s L s' L'"
  by (auto simp: untouched_def)

lemma untouched_fixed: "untouched ls s L s' L' \<Longrightarrow> fixed_part s' = fixed_part s"
  by (simp add: untouched_def)

text \<open>The caches and the allocation list.\<close>

fun outer :: "lid \<Rightarrow> bool" where
  "outer LAlloc \<longleftrightarrow> True"
| "outer (LCache c k) \<longleftrightarrow> True"
| "outer l \<longleftrightarrow> False"

section \<open>Consequences\<close>

lemma fixed_part_config: "fixed_part s' = fixed_part s \<Longrightarrow> config_ok s' = config_ok s"
  by (simp add: fixed_part_def config_ok_def usable_def)

lemma fixed_part_usable: "fixed_part s' = fixed_part s \<Longrightarrow> usable s' = usable s"
  by (simp add: fixed_part_def usable_def)

lemma lists_okD:
  assumes "lists_ok s L own"
  shows "rep s L own" "config_ok s" "sorted_wrt (<) (starts s (L (LFree k)))"
    "i < length (node_array s) \<Longrightarrow> own i = Some l \<Longrightarrow> placed (cpu_count s) l (blk s i)"
  using assms by (auto simp: lists_ok_def)

lemma config_max_order: "config_ok s \<Longrightarrow> max_order s < 64"
  using floor_log2_bounds(1) [of "total_frames s"] card_frames_of_bound [of "live (usable_ranges s)"]
  by (simp add: config_ok_def usable_def)

lemma good_block_bound:
  assumes "config_ok s" "good_block (max_order s) (usable s) n"
  shows "bn_start n + 2 ^ bn_order n < usize_range" "bn_start n * PAGE_SIZE < usize_range" "bn_order n < 64"
proof -
  have pos: "(0::nat) < 2 ^ bn_order n" by simp
  have sub: "block_frames n \<subseteq> usable s" using assms(2) by (simp add: good_block_def)
  have "bn_start n + 2 ^ bn_order n - 1 \<in> block_frames n"
    unfolding block_frames_def atLeastLessThan_iff using pos by linarith
  with sub have "bn_start n + 2 ^ bn_order n - 1 \<in> usable s" by (rule subsetD)
  moreover have "f + 1 < usize_range" if "f \<in> usable s" for f
    using frames_of_bound [of "live (usable_ranges s)" f] that assms(1) by (simp add: usable_def config_ok_def)
  ultimately have "bn_start n + 2 ^ bn_order n - 1 + 1 < usize_range" by blast
  then show "bn_start n + 2 ^ bn_order n < usize_range" using pos by linarith
  show "bn_start n * PAGE_SIZE < usize_range"
    using subsetD [OF sub block_frames_start] assms(1) by (simp add: config_ok_def)
  show "bn_order n < 64" using assms(2) config_max_order [OF assms(1)] by (simp add: good_block_def)
qed

section \<open>The list operations under the invariant\<close>

declare upd_node_eq [simp del] split_down.simps [simp del]

lemma lists_ok_change:
  assumes "lists_ok s L own" "rep s' L' (own(i := w))" "fixed_part s' = fixed_part s" "blk s' = (blk s)(i := n)"
    and "\<And>l. w = Some l \<Longrightarrow> placed (cpu_count s) l n"
    and "\<And>k. sorted_wrt (<) (starts s' (L' (LFree k)))"
  shows "lists_ok s' L' (own(i := w))"
  unfolding lists_ok_def
proof (intro conjI allI impI)
  show "rep s' L' (own(i := w))" by (rule assms(2))
  show "config_ok s'" using lists_okD(2) [OF assms(1)] fixed_part_config [OF assms(3)] by simp
  show "sorted_wrt (<) (starts s' (L' (LFree k)))" for k by (rule assms(6))
  fix j l assume "j < length (node_array s')" "(own(i := w)) j = Some l"
  then show "placed (cpu_count s') l (blk s' j)"
    using assms(5) [of l] lists_okD(4) [OF assms(1), of j l] fixed_partD [OF assms(3)]
    by (cases "j = i") (simp_all add: assms(4))
qed

lemma lists_ok_off:
  assumes "lists_ok s L own" "\<And>k. own i \<noteq> Some (LFree k)" "blk s' = (blk s)(i := n)"
  shows "sorted_wrt (<) (starts s' (L (LFree k)))"
proof -
  have "starts s' (L (LFree k)) = starts s (L (LFree k))"
    using repD(6) [OF lists_okD(1) [OF assms(1)], of i "LFree k"] assms(2,3) by auto
  then show ?thesis using lists_okD(3) [OF assms(1)] by metis
qed

lemma lists_ok_write:
  assumes "lists_ok s L own" "own i = None" "i < length (node_array s)"
  shows "lists_ok (set_nodes s ((node_array s)[i := n])) L own"
proof -
  let ?s = "set_nodes s ((node_array s)[i := n])"
  have own: "own = own(i := None)" using assms(2) by (simp add: fun_upd_idem)
  have b: "blk ?s = (blk s)(i := n\<lparr>bn_next := None\<rparr>)" using assms(3) by simp
  have "rep ?s L (own(i := None))"
    using rep_write_held [OF lists_okD(1) [OF assms(1)] assms(2)] own by metis
  from lists_ok_change [OF assms(1) this _ b _ lists_ok_off [OF assms(1) _ b]]
  show ?thesis using own assms(2) by simp
qed

lemma lists_ok_upd:
  assumes "lists_ok s L own" "own i = None" "i < length (node_array s)"
    and "\<And>n. (f n)\<lparr>bn_next := None\<rparr> = g (n\<lparr>bn_next := None\<rparr>)"
  obtains s' where "upd_node s i f = Some s'" "lists_ok s' L own" "fixed_part s' = fixed_part s"
    "blk s' = (blk s)(i := g (blk s i))"
proof -
  let ?s = "set_nodes s ((node_array s)[i := f (node_array s ! i)])"
  have "blk ?s = (blk s)(i := g (blk s i))" using assms(3,4) by (simp add: blk_def)
  then show ?thesis
    using that [of ?s] upd_node_eq [OF assms(3)] lists_ok_write [OF assms(1-3)] by simp
qed

lemma lists_ok_pool_alloc:
  assumes "lists_ok s L own" "L LUnused = j # js"
  obtains s' where "pool_alloc s = Some (Ok j, s')" "lists_ok s' (L(LUnused := js)) (own(j := None))"
    "fixed_part s' = fixed_part s" "blk s' = blk s" "j < length (node_array s)" "own j = Some LUnused"
proof -
  obtain s' where s': "pool_alloc s = Some (Ok j, s')" "rep s' (L(LUnused := js)) (own(j := None))"
    "fixed_part s' = fixed_part s" "blk s' = blk s"
    by (rule pool_alloc_spec [OF lists_okD(1) [OF assms(1)] assms(2)])
  have "lists_ok s' (L(LUnused := js)) (own(j := None))"
    using s' lists_okD(3) [OF assms(1)] by (intro lists_ok_change [OF assms(1), where n = "blk s j"]) simp_all
  moreover have "j < length (node_array s)" "own j = Some LUnused"
    using repD(6) [OF lists_okD(1) [OF assms(1)], of j LUnused] assms(2) by simp_all
  ultimately show ?thesis using s' by (intro that)
qed

lemma lists_ok_pool_release:
  assumes "lists_ok s L own" "own i = None" "i < length (node_array s)"
  obtains s' where "pool_release s i = Some s'" "lists_ok s' (L(LUnused := i # L LUnused)) (own(i := Some LUnused))"
    "fixed_part s' = fixed_part s" "blk s' = (blk s)(i := EMPTY)"
proof -
  obtain s' where s': "pool_release s i = Some s'" "rep s' (L(LUnused := i # L LUnused)) (own(i := Some LUnused))"
    "fixed_part s' = fixed_part s" "blk s' = (blk s)(i := EMPTY)"
    by (rule pool_release_spec [OF lists_okD(1) [OF assms(1)] assms(2,3)])
  have "sorted_wrt (<) (starts s' ((L(LUnused := i # L LUnused)) (LFree k)))" for k
    using lists_ok_off [OF assms(1) _ s'(4), of k] assms(2) by (metis fun_upd_apply lid.distinct(3) option.distinct(1))
  then have "lists_ok s' (L(LUnused := i # L LUnused)) (own(i := Some LUnused))"
    by (rule lists_ok_change [OF assms(1) s'(2-4), rotated]) (auto simp: EMPTY_def)
  then show ?thesis using s' by (intro that)
qed

lemma lists_ok_insert:
  assumes "lists_ok s L own" "own i = None" "i < length (node_array s)" "k < 64"
    and "bn_start (blk s i) \<notin> set (starts s (L (LFree k)))" "placed (cpu_count s) (LFree k) (blk s i)"
  obtains s' ps qs where "global_insert_sorted s k i = Some (Ok (), s')" "L (LFree k) = ps @ qs"
    "lists_ok s' (L(LFree k := ps @ i # qs)) (own(i := Some (LFree k)))" "fixed_part s' = fixed_part s" "blk s' = blk s"
proof -
  have "k < MAX_ORDER_SLOTS" using assms(4) by (simp add: MAX_ORDER_SLOTS_def)
  then obtain s' ps qs where s': "global_insert_sorted s k i = Some (Ok (), s')" "L (LFree k) = ps @ qs"
    "rep s' (L(LFree k := ps @ i # qs)) (own(i := Some (LFree k)))" "fixed_part s' = fixed_part s" "blk s' = blk s"
    "sorted_wrt (<) (starts s' (ps @ i # qs))"
    by (rule global_insert_spec [OF lists_okD(1) [OF assms(1)] assms(2,3) _ lists_okD(3) [OF assms(1)] assms(5)])
  have "sorted_wrt (<) (starts s' ((L(LFree k := ps @ i # qs)) (LFree k')))" for k'
    using s'(5,6) lists_okD(3) [OF assms(1), of k'] by simp
  then have "lists_ok s' (L(LFree k := ps @ i # qs)) (own(i := Some (LFree k)))"
    by (rule lists_ok_change [OF assms(1) s'(3,4), where n = "blk s i", rotated 2]) (use s'(5) assms(6) in auto)
  then show ?thesis using s' by (intro that [of s' ps qs])
qed

lemma sorted_sub:
  "sorted_wrt (<) (starts s (ps @ i # qs)) \<Longrightarrow> sorted_wrt (<) (starts s (ps @ qs))"
  by (auto simp: sorted_wrt_append)

lemma lists_ok_pop:
  assumes "lists_ok s L own" "k < 64" "L (LFree k) = i # is"
  obtains s' where "global_pop_first s k = Some (Some i, s')" "lists_ok s' (L(LFree k := is)) (own(i := None))"
    "fixed_part s' = fixed_part s" "blk s' = blk s" "i < length (node_array s)" "own i = Some (LFree k)"
proof -
  have "k < MAX_ORDER_SLOTS" using assms(2) by (simp add: MAX_ORDER_SLOTS_def)
  then obtain s' where s': "global_pop_first s k = Some (Some i, s')" "rep s' (L(LFree k := is)) (own(i := None))"
    "fixed_part s' = fixed_part s" "blk s' = blk s"
    by (rule global_pop_spec [OF lists_okD(1) [OF assms(1)] _ assms(3)])
  have "sorted_wrt (<) (starts s' ((L(LFree k := is)) (LFree k')))" for k'
    using s'(4) lists_okD(3) [OF assms(1), of k'] assms(3) by auto
  then have "lists_ok s' (L(LFree k := is)) (own(i := None))"
    by (rule lists_ok_change [OF assms(1) s'(2,3), where n = "blk s i", rotated 2]) (use s'(4) in simp_all)
  moreover have "i < length (node_array s)" "own i = Some (LFree k)"
    using repD(6) [OF lists_okD(1) [OF assms(1)], of i "LFree k"] assms(3) by simp_all
  ultimately show ?thesis using s' by (intro that [of s'])
qed

lemma lists_ok_remove:
  assumes "lists_ok s L own" "k < 64" "L (LFree k) = ps @ i # qs"
  obtains s' where "global_remove_by_start s k (bn_start (blk s i)) = Some (Some i, s')"
    "lists_ok s' (L(LFree k := ps @ qs)) (own(i := None))" "fixed_part s' = fixed_part s" "blk s' = blk s"
proof -
  have "k < MAX_ORDER_SLOTS" using assms(2) by (simp add: MAX_ORDER_SLOTS_def)
  then obtain s' where s': "global_remove_by_start s k (bn_start (blk s i)) = Some (Some i, s')"
    "rep s' (L(LFree k := ps @ qs)) (own(i := None))" "fixed_part s' = fixed_part s" "blk s' = blk s"
    by (rule global_remove_found [OF lists_okD(1) [OF assms(1)] _ assms(3) lists_okD(3) [OF assms(1)]])
  have "sorted_wrt (<) (starts s' ((L(LFree k := ps @ qs)) (LFree k')))" for k'
    using s'(4) lists_okD(3) [OF assms(1), of k'] sorted_sub [of s ps i qs] assms(3) by auto
  then have "lists_ok s' (L(LFree k := ps @ qs)) (own(i := None))"
    by (rule lists_ok_change [OF assms(1) s'(2,3), where n = "blk s i", rotated 2]) (use s'(4) in simp_all)
  then show ?thesis using s' by (intro that [of s'])
qed

section \<open>Splitting\<close>

lemma holds_blockD:
  assumes "holds_block s L own i n"
  shows "lists_ok s L own" "own i = None" "i < length (node_array s)" "i \<in> active s own"
    "tiling (max_order s) (usable s) (active s own) ((blk s)(i := n))" "good_block (max_order s) (usable s) n"
proof -
  show l: "lists_ok s L own" and t: "tiling (max_order s) (usable s) (active s own) ((blk s)(i := n))"
    using assms by (simp_all add: holds_block_def)
  show i: "own i = None" "i < length (node_array s)" using assms by (auto simp: holds_block_def held_def)
  then show a: "i \<in> active s own" by (simp add: active_def)
  show "good_block (max_order s) (usable s) n" using t a by (auto simp: tiling_def)
qed

lemma listed_active:
  assumes "lists_ok s L own" "x \<in> set (L l)" "l \<noteq> LUnused"
  shows "x \<in> active s own" "own x = Some l" "x < length (node_array s)"
  using repD(6) [OF lists_okD(1) [OF assms(1)], of x l] assms(2,3) by (simp_all add: active_def)

text \<open>The start of a block that lies inside the held block is not the start of a listed one.\<close>

lemma held_start_fresh:
  assumes "holds_block s L own i n" "f \<in> block_frames n" "l \<noteq> LUnused"
  shows "f \<notin> set (starts s (L l))"
proof
  assume "f \<in> set (starts s (L l))"
  then obtain x where x: "x \<in> set (L l)" "f = bn_start (blk s x)" by auto
  note h = holds_blockD [OF assms(1)] and a = listed_active [OF holds_blockD(1) [OF assms(1)] x(1) assms(3)]
  have "x \<noteq> i" using a(2) h(2) by auto
  then have "block_frames (blk s x) \<inter> block_frames n = {}"
    using tiling_apart [OF h(5) a(1) h(4)] by simp
  then show False using assms(2) x(2) block_frames_start [of "blk s x"] by blast
qed

lemma untouched_change:
  assumes "rep s L own" "fixed_part s' = fixed_part s" "\<And>l. l \<in> ls \<Longrightarrow> L' l = L l"
    and "\<And>j. blk s' j \<noteq> blk s j \<Longrightarrow> own j \<notin> Some ` ls"
  shows "untouched ls s L s' L'"
  unfolding untouched_def
proof (intro conjI ballI)
  fix l i assume "l \<in> ls" "i \<in> set (L l)"
  then have "own i \<in> Some ` ls" using repD(6) [OF assms(1), of i l] by simp
  then show "blk s' i = blk s i" using assms(4) by blast
qed (simp_all add: assms(2,3))

lemma split_turn:
  assumes h: "holds_block s L own i (blk s i)" and k: "bn_order (blk s i) = Suc k" "Suc k > order"
    and j: "L LUnused = j # js"
  obtains s' L' own' where "split_down s i order (Suc k) = split_down s' i order k"
    "holds_block s' L' own' i (blk s' i)" "blk s' i = (blk s i)\<lparr>bn_order := k\<rparr>" "L' LUnused = js"
    "untouched (Collect outer) s L s' L'"
proof -
  note h' = holds_blockD [OF h]
  let ?n = "\<lparr>bn_start = bn_start (blk s i) + 2 ^ k, bn_order = k, bn_refcount = 0, bn_next = None\<rparr>"
  have g: "bn_start (blk s i) + 2 ^ Suc k < usize_range" "k < 64"
    using good_block_bound [OF lists_okD(2) [OF h'(1)] h'(6)] k(1) by simp_all
  obtain s1 where s1: "pool_alloc s = Some (Ok j, s1)" "lists_ok s1 (L(LUnused := js)) (own(j := None))"
    "fixed_part s1 = fixed_part s" "blk s1 = blk s" "j < length (node_array s)" "own j = Some LUnused"
    by (rule lists_ok_pool_alloc [OF h'(1) j])
  note f1 = fixed_partD [OF s1(3)]
  have ij: "i \<noteq> j" and j1: "j < length (node_array s1)" "(own(j := None)) j = None"
    using s1(5,6) h'(2) f1 by auto
  obtain s2 where s2: "upd_node s1 j (\<lambda>_. ?n) = Some s2" "lists_ok s2 (L(LUnused := js)) (own(j := None))"
    "fixed_part s2 = fixed_part s1" "blk s2 = (blk s1)(j := ?n)"
    by (rule lists_ok_upd [OF s1(2) j1(2,1), where f = "\<lambda>_. ?n" and g = "\<lambda>_. ?n"]) simp_all
  have "bn_start ?n \<notin> set (starts s (L (LFree k)))"
    using k(1) by (intro held_start_fresh [OF h]) (simp_all add: block_frames_def)
  moreover have "j \<notin> set (L (LFree k))" using repD(6) [OF lists_okD(1) [OF h'(1)], of j "LFree k"] s1(6) by simp
  ultimately have fresh: "bn_start (blk s2 j) \<notin> set (starts s2 ((L(LUnused := js)) (LFree k)))"
    by (auto simp: s2(4) s1(4) image_iff split: if_splits)
  have j2: "j < length (node_array s2)" "placed (cpu_count s2) (LFree k) (blk s2 j)"
    using j1 fixed_partD(6) [OF s2(3)] s2(4) by simp_all
  obtain s3 ps qs where s3: "global_insert_sorted s2 k j = Some (Ok (), s3)" "(L(LUnused := js)) (LFree k) = ps @ qs"
    "lists_ok s3 (L(LUnused := js, LFree k := ps @ j # qs)) (own(j := None, j := Some (LFree k)))"
    "fixed_part s3 = fixed_part s2" "blk s3 = blk s2"
    by (rule lists_ok_insert [OF s2(2) j1(2) j2(1) g(2) fresh j2(2)])
  let ?L = "L(LUnused := js, LFree k := ps @ j # qs)" and ?own = "own(j := Some (LFree k))"
  have f3: "fixed_part s3 = fixed_part s" using s3(4) s2(3) s1(3) by simp
  have i3: "i < length (node_array s3)" "?own i = None" using h'(2,3) ij fixed_partD(6) [OF f3] by simp_all
  have l3: "lists_ok s3 ?L ?own" using s3(3) by simp
  obtain s4 where s4: "upd_node s3 i (\<lambda>n. n\<lparr>bn_order := k\<rparr>) = Some s4" "lists_ok s4 ?L ?own"
    "fixed_part s4 = fixed_part s3" "blk s4 = (blk s3)(i := (blk s3 i)\<lparr>bn_order := k\<rparr>)"
    by (rule lists_ok_upd [OF l3 i3(2,1), where f = "\<lambda>n. n\<lparr>bn_order := k\<rparr>" and g = "\<lambda>n. n\<lparr>bn_order := k\<rparr>"]) simp_all
  have b4: "blk s4 = (blk s)(i := (blk s i)\<lparr>bn_order := k\<rparr>, j := ?n)"
    using ij s4(4) s3(5) s2(4) s1(4) by (simp add: fun_upd_twist)
  have f4: "fixed_part s4 = fixed_part s" using f3 s4(3) by simp
  have "wadd (bn_start (node_array s ! i)) (block_size k) = bn_start (blk s i) + 2 ^ k"
    using g h'(3) wadd_exact [of "bn_start (blk s i)" "2 ^ k"] by (simp add: blk_fields)
  then have eq: "split_down s i order (Suc k) = split_down s4 i order k"
    using s1(1) s2(1) s3(1) s4(1) k(2) h'(3) by (simp add: split_down.simps(2))
  have "tiling (max_order s) (usable s) (insert j (active s own)) (blk s4)"
    unfolding b4 using h'(4,5) k(1) s1(6) by (intro tiling_split) (simp_all add: active_def)
  moreover have "insert j (active s own) = active s4 ?own" "held s4 ?own = held s own"
    using s1(5,6) fixed_partD(6) [OF f4] by (auto simp: active_def held_def)
  ultimately have "holds_block s4 ?L ?own i (blk s4 i)"
    using s4(2) h fixed_part_usable [OF f4] fixed_partD(2) [OF f4] by (simp add: holds_block_def fun_upd_idem)
  moreover have "untouched (Collect outer) s L s4 ?L"
    using h'(2) s1(6) by (intro untouched_change [OF lists_okD(1) [OF h'(1)] f4]) (auto simp: b4 split: if_splits)
  ultimately show ?thesis
    using that [of s4 ?L ?own] b4 ij eq by simp
qed

lemma split_down_spec:
  assumes "holds_block s L own i (blk s i)" "bn_order (blk s i) = cur" "order \<le> cur" "cur - order \<le> length (L LUnused)"
  obtains s' L' own' where "split_down s i order cur = Some (Ok (), s')" "holds_block s' L' own' i (blk s' i)"
    "blk s' i = (blk s i)\<lparr>bn_order := order\<rparr>" "untouched (Collect outer) s L s' L'"
  using assms
proof (induction cur arbitrary: s L own thesis)
  case 0
  then have "(blk s i)\<lparr>bn_order := order\<rparr> = blk s i" by (cases "blk s i") simp
  then show ?case by (intro "0.prems"(1) [OF _ "0.prems"(2)]) (simp_all add: split_down.simps)
next
  case (Suc cur)
  show ?case
  proof (cases "order = Suc cur")
    case True
    then have "(blk s i)\<lparr>bn_order := order\<rparr> = blk s i" using Suc.prems(3) by (cases "blk s i") simp
    then show ?thesis
      by (intro Suc.prems(1) [OF _ Suc.prems(2)]) (simp_all add: split_down.simps True)
  next
    case False
    then have lt: "Suc cur > order" using Suc.prems(4) by simp
    then obtain j js where j: "L LUnused = j # js" using Suc.prems(5) by (cases "L LUnused") auto
    obtain s1 L1 own1 where s1: "split_down s i order (Suc cur) = split_down s1 i order cur"
      "holds_block s1 L1 own1 i (blk s1 i)" "blk s1 i = (blk s i)\<lparr>bn_order := cur\<rparr>" "L1 LUnused = js"
      "untouched (Collect outer) s L s1 L1"
      by (rule split_turn [OF Suc.prems(2,3) lt j])
    have pre: "bn_order (blk s1 i) = cur" "order \<le> cur" "cur - order \<le> length (L1 LUnused)"
      using s1(3,4) j lt Suc.prems(5) by simp_all
    obtain s' L' own' where s': "split_down s1 i order cur = Some (Ok (), s')" "holds_block s' L' own' i (blk s' i)"
      "blk s' i = (blk s1 i)\<lparr>bn_order := order\<rparr>" "untouched (Collect outer) s1 L1 s' L'"
      by (rule Suc.IH [OF _ s1(2) pre])
    show ?thesis
    proof (rule Suc.prems(1) [OF _ s'(2)])
      show "split_down s i order (Suc cur) = Some (Ok (), s')" using s1(1) s'(1) by (simp only:)
      show "blk s' i = (blk s i)\<lparr>bn_order := order\<rparr>" using s'(3) s1(3) by simp
      show "untouched (Collect outer) s L s' L'" using s1(5) s'(4) by (rule untouched_trans)
    qed
  qed
qed

section \<open>Taking and giving back one block\<close>

lemma idleD:
  assumes "idle s L own"
  shows "lists_ok s L own" "rep s L own" "config_ok s" "held s own = {}" "max_order s < 64"
    "tiling (max_order s) (usable s) (active s own) (blk s)"
  using assms lists_okD(1,2) [of s L own] config_max_order by (auto simp: idle_def)

lemma idle_take:
  assumes "idle s L own" "lists_ok s' L' (own(i := None))" "fixed_part s' = fixed_part s" "blk s' = blk s"
    and "own i = Some l" "l \<noteq> LUnused" "i < length (node_array s)"
  shows "holds_block s' L' (own(i := None)) i (blk s' i)"
proof -
  note f = fixed_partD [OF assms(3)] fixed_part_usable [OF assms(3)]
  have "active s' (own(i := None)) = active s own" using assms(5-7) f(6) by (auto simp: active_def)
  moreover have "held s' (own(i := None)) = {i}" using idleD(4) [OF assms(1)] assms(7) f(6) by (auto simp: held_def)
  ultimately show ?thesis
    using assms(2,4) f idleD(6) [OF assms(1)] by (simp add: holds_block_def fun_upd_idem)
qed

lemma idle_put:
  assumes "holds_block s L own i n" "lists_ok s' L' (own(i := Some l))" "l \<noteq> LUnused" "fixed_part s' = fixed_part s"
    and "\<And>j. j \<noteq> i \<Longrightarrow> blk s' j = blk s j" "bn_start (blk s' i) = bn_start n" "bn_order (blk s' i) = bn_order n"
  shows "idle s' L' (own(i := Some l))"
proof -
  note f = fixed_partD [OF assms(4)] fixed_part_usable [OF assms(4)] and h = holds_blockD [OF assms(1)]
  have "active s' (own(i := Some l)) = active s own" using h(2,3) f(6) assms(3) by (auto simp: active_def)
  moreover have "held s' (own(i := Some l)) = {}"
    using assms(1) f(6) by (auto simp: holds_block_def held_def split: if_splits)
  moreover have "tiling (max_order s) (usable s) (active s own) (blk s')"
    using h(5) assms(5-7) by (subst tiling_cong [where C = "(blk s)(i := n)"]) simp_all
  ultimately show ?thesis using assms(2) f by (simp add: idle_def)
qed

lemma listed_zero_refcount:
  assumes "lists_ok s L own" "i < length (node_array s)" "own i = Some l" "l \<noteq> LAlloc"
  shows "bn_refcount (blk s i) = 0"
  using lists_okD(4) [OF assms(1-3)] assms(4) by (cases l) simp_all

section \<open>Allocating from the free lists\<close>

lemma search_order_spec:
  assumes "rep s L own" "max_order s < 64"
  obtains m where "search_order s cur = Some m" "cur \<le> m" "\<And>k. cur \<le> k \<Longrightarrow> k < m \<Longrightarrow> k \<le> max_order s \<Longrightarrow> L (LFree k) = []"
    "m \<le> max_order s \<Longrightarrow> L (LFree m) \<noteq> []"
  using assms
proof (induction s cur arbitrary: thesis rule: search_order.induct)
  case (1 s cur)
  show ?case
  proof (cases "cur \<le> max_order s")
    case True
    have head: "at (global_free_heads s) cur = Some (case L (LFree cur) of [] \<Rightarrow> None | i # _ \<Rightarrow> Some i)"
      using free_head_empty [OF "1.prems"(2), of cur] True "1.prems"(3) by (simp add: MAX_ORDER_SLOTS_def)
    show ?thesis
    proof (cases "L (LFree cur) = []")
      case empty: True
      obtain m where m: "search_order s (cur + 1) = Some m" "cur + 1 \<le> m"
        "\<And>k. cur + 1 \<le> k \<Longrightarrow> k < m \<Longrightarrow> k \<le> max_order s \<Longrightarrow> L (LFree k) = []" "m \<le> max_order s \<Longrightarrow> L (LFree m) \<noteq> []"
        by (rule "1.IH" [OF True head _ _ "1.prems"(2,3)]) (simp_all add: empty)
      show ?thesis
      proof (rule "1.prems"(1))
        show "search_order s cur = Some m" using m(1) True head empty by (simp add: search_order.simps [of s cur])
        show "L (LFree k) = []" if "cur \<le> k" "k < m" "k \<le> max_order s" for k
          using m(3) [of k] that empty by (cases "k = cur") simp_all
      qed (use m in simp_all)
    next
      case False
      then obtain i "is" where "L (LFree cur) = i # is" by (cases "L (LFree cur)") simp_all
      then show ?thesis
        by (intro "1.prems"(1) [of cur]) (use head True in \<open>simp_all add: search_order.simps [of s cur]\<close>)
    qed
  next
    case False
    then show ?thesis by (intro "1.prems"(1) [of cur]) (simp_all add: search_order.simps [of s cur])
  qed
qed

lemma alloc_from_global_cases:
  assumes I: "idle s L own"
  obtains (oom) "alloc_from_global s order = Some (Err OutOfMemory, s)"
      "\<And>k. order \<le> k \<Longrightarrow> k \<le> max_order s \<Longrightarrow> L (LFree k) = []"
  | (metadata) k where "alloc_from_global s order = Some (Err MetadataExhausted, s)"
      "order \<le> k" "k \<le> max_order s" "L (LFree k) \<noteq> []" "length (L LUnused) < k - order"
  | (ok) i s' L' own' where "alloc_from_global s order = Some (Ok i, s')" "holds_block s' L' own' i (blk s' i)"
      "bn_order (blk s' i) = order" "bn_refcount (blk s' i) = 0" "untouched (Collect outer) s L s' L'"
proof -
  note d = idleD [OF I]
  obtain m where m: "search_order s order = Some m" "order \<le> m"
    "\<And>k. order \<le> k \<Longrightarrow> k < m \<Longrightarrow> k \<le> max_order s \<Longrightarrow> L (LFree k) = []" "m \<le> max_order s \<Longrightarrow> L (LFree m) \<noteq> []"
    by (rule search_order_spec [OF d(2,5), of order]) blast
  consider "m > max_order s" | "m \<le> max_order s" "\<not> has_unused (nodes s) (m - order)"
    | "m \<le> max_order s" "has_unused (nodes s) (m - order)" by linarith
  then show ?thesis
  proof cases
    case 1
    show ?thesis by (rule oom) (use 1 m(1,3) in \<open>simp_all add: alloc_from_global_def\<close>)
  next
    case 2
    show ?thesis
      by (rule metadata [OF _ m(2) 2(1) m(4) [OF 2(1)]])
        (use 2 m(1) has_unused_iff [OF d(2)] in \<open>simp_all add: alloc_from_global_def\<close>)
  next
    case 3
    then have m64: "m < 64" using d(5) by simp
    obtain i "is" where i: "L (LFree m) = i # is" using m(4) [OF 3(1)] by (cases "L (LFree m)") simp_all
    obtain s1 where s1: "global_pop_first s m = Some (Some i, s1)" "lists_ok s1 (L(LFree m := is)) (own(i := None))"
      "fixed_part s1 = fixed_part s" "blk s1 = blk s" "i < length (node_array s)" "own i = Some (LFree m)"
      by (rule lists_ok_pop [OF d(1) m64 i])
    have i1: "(own(i := None)) i = None" "i < length (node_array s1)" using s1(5) fixed_partD(6) [OF s1(3)] by simp_all
    have b: "bn_order (blk s i) = m" "bn_refcount (blk s i) = 0"
      using lists_okD(4) [OF d(1) s1(5,6)] by simp_all
    obtain s2 where s2: "upd_node s1 i (\<lambda>n. n\<lparr>bn_order := m\<rparr>) = Some s2" "lists_ok s2 (L(LFree m := is)) (own(i := None))"
      "fixed_part s2 = fixed_part s1" "blk s2 = (blk s1)(i := (blk s1 i)\<lparr>bn_order := m\<rparr>)"
      by (rule lists_ok_upd [OF s1(2) i1, where f = "\<lambda>n. n\<lparr>bn_order := m\<rparr>" and g = "\<lambda>n. n\<lparr>bn_order := m\<rparr>"]) simp_all
    have "(blk s i)\<lparr>bn_order := m\<rparr> = blk s i" using b(1) by (cases "blk s i") simp
    then have b2: "blk s2 = blk s" using s2(4) s1(4) by (simp add: fun_upd_idem)
    have f2: "fixed_part s2 = fixed_part s" using s2(3) s1(3) by simp
    note h = idle_take [OF I s2(2) f2 b2 s1(6) _ s1(5)]
    have pre: "bn_order (blk s2 i) = m" "order \<le> m" "m - order \<le> length ((L(LFree m := is)) LUnused)"
      using b b2 m(2) 3(2) has_unused_iff [OF d(2)] by simp_all
    have h2: "holds_block s2 (L(LFree m := is)) (own(i := None)) i (blk s2 i)" by (rule h) simp
    obtain s3 L3 own3 where s3: "split_down s2 i order m = Some (Ok (), s3)" "holds_block s3 L3 own3 i (blk s3 i)"
      "blk s3 i = (blk s2 i)\<lparr>bn_order := order\<rparr>" "untouched (Collect outer) s2 (L(LFree m := is)) s3 L3"
      by (rule split_down_spec [OF h2 pre])
    have "untouched (Collect outer) s L s2 (L(LFree m := is))"
      using s1(6) b2 by (intro untouched_change [OF d(2) f2]) auto
    then have "untouched (Collect outer) s L s3 L3" using s3(4) by (rule untouched_trans)
    moreover have "alloc_from_global s order = Some (Ok i, s3)"
      using 3 m(1) s1(1) s2(1) s3(1) by (simp add: alloc_from_global_def)
    ultimately show ?thesis
      by (intro ok [OF _ s3(2)]) (simp_all add: s3(3) b b2)
  qed
qed

section \<open>Freeing into the free lists\<close>

lemma merge_turn:
  assumes h: "holds_block s L own i n" and k: "bn_order n = k" "k < max_order s" and x: "L (LFree k) = ps @ x # qs"
    and b: "bn_start (blk s x) = bn_start n XOR 2 ^ k"
  obtains s1 s2 L' own' where "global_remove_by_start s k (bn_start n XOR 2 ^ k) = Some (Some x, s1)"
    "pool_release s1 x = Some s2" "untouched (Collect outer) s L s2 L'"
    "holds_block s2 L' own' i (n\<lparr>bn_start := min (bn_start n) (bn_start n XOR 2 ^ k), bn_order := Suc k\<rparr>)"
proof -
  note h' = holds_blockD [OF h]
  have k64: "k < 64" using config_max_order [OF lists_okD(2) [OF h'(1)]] k(2) by simp
  have xl: "x \<in> active s own" "own x = Some (LFree k)" "x < length (node_array s)"
    using listed_active [OF h'(1), of x "LFree k"] x by simp_all
  have xi: "x \<noteq> i" using xl(2) h'(2) by auto
  obtain s1 where s1: "global_remove_by_start s k (bn_start (blk s x)) = Some (Some x, s1)"
    "lists_ok s1 (L(LFree k := ps @ qs)) (own(x := None))" "fixed_part s1 = fixed_part s" "blk s1 = blk s"
    by (rule lists_ok_remove [OF h'(1) k64 x])
  have x1: "(own(x := None)) x = None" "x < length (node_array s1)" using xl(3) fixed_partD(6) [OF s1(3)] by simp_all
  let ?L = "L(LFree k := ps @ qs, LUnused := x # (L(LFree k := ps @ qs)) LUnused)"
  let ?own = "own(x := None, x := Some LUnused)"
  obtain s2 where s2: "pool_release s1 x = Some s2" "lists_ok s2 ?L ?own"
    "fixed_part s2 = fixed_part s1" "blk s2 = (blk s1)(x := EMPTY)"
    by (rule lists_ok_pool_release [OF s1(2) x1])
  have f2: "fixed_part s2 = fixed_part s" using s2(3) s1(3) by simp
  note f = fixed_partD [OF f2] fixed_part_usable [OF f2]
  let ?m = "n\<lparr>bn_start := min (bn_start n) (bn_start n XOR 2 ^ k), bn_order := Suc k\<rparr>"
  have ord: "bn_order (blk s x) = k" using lists_okD(4) [OF h'(1) xl(3,2)] by simp
  have "tiling (max_order s) (usable s) (active s own - {x}) ((blk s)(i := n, i := ?m))"
    by (rule tiling_merge [OF h'(5,4) xl(1)]) (use xi k ord b in simp_all)
  then have "tiling (max_order s) (usable s) (active s own - {x}) ((blk s2)(i := ?m))"
    by (subst tiling_cong [where C = "(blk s)(i := n, i := ?m)"]) (simp_all add: s2(4) s1(4))
  moreover have "active s2 ?own = active s own - {x}" "held s2 ?own = held s own"
    using xl(2) f(6) by (auto simp: active_def held_def)
  ultimately have "holds_block s2 ?L ?own i ?m" using s2(2) f h by (simp add: holds_block_def)
  moreover have "untouched (Collect outer) s L s2 ?L"
    using xl(2) by (intro untouched_change [OF lists_okD(1) [OF h'(1)] f2]) (auto simp: s2(4) s1(4) split: if_splits)
  ultimately show ?thesis using s1(1) s2(1) b by (intro that) simp_all
qed

lemma merge_buddies_spec:
  assumes "holds_block s L own i n"
  obtains s' L' own' m where "merge_buddies s (bn_start n) (bn_order n) = Some ((bn_start m, bn_order m), s')"
    "holds_block s' L' own' i m" "untouched (Collect outer) s L s' L'" "bn_order n \<le> bn_order m"
  using assms
proof (induction "max_order s - bn_order n" arbitrary: s L own n thesis)
  case 0
  then have "merge_buddies s (bn_start n) (bn_order n) = Some ((bn_start n, bn_order n), s)"
    by (simp add: merge_buddies.simps)
  then show ?case by (rule "0.prems"(1) [OF _ "0.prems"(2) untouched_refl order_refl])
next
  case (Suc d)
  note h' = holds_blockD [OF Suc.prems(2)]
  let ?k = "bn_order n" and ?b = "bn_start n XOR 2 ^ bn_order n"
  have k: "?k < max_order s" using Suc.hyps(2) by simp
  have k64: "?k < 64" using config_max_order [OF lists_okD(2) [OF h'(1)]] k by simp
  show ?case
  proof (cases "?b \<in> set (starts s (L (LFree ?k)))")
    case False
    then have "global_remove_by_start s ?k ?b = Some (None, s)"
      using k64 by (intro global_remove_missing [OF lists_okD(1) [OF h'(1)]]) (simp_all add: MAX_ORDER_SLOTS_def)
    then have "merge_buddies s (bn_start n) ?k = Some ((bn_start n, ?k), s)"
      using k k64 by (simp add: merge_buddies.simps)
    then show ?thesis by (rule Suc.prems(1) [OF _ Suc.prems(2) untouched_refl order_refl])
  next
    case True
    then obtain x where "x \<in> set (L (LFree ?k))" and b: "bn_start (blk s x) = ?b" by auto
    then obtain ps qs where x: "L (LFree ?k) = ps @ x # qs" by (meson split_list)
    obtain s1 s2 L2 own2 where s2: "global_remove_by_start s ?k ?b = Some (Some x, s1)"
      "pool_release s1 x = Some s2" "untouched (Collect outer) s L s2 L2"
      "holds_block s2 L2 own2 i (n\<lparr>bn_start := min (bn_start n) ?b, bn_order := Suc ?k\<rparr>)"
      by (rule merge_turn [OF Suc.prems(2) refl k x b])
    let ?m = "n\<lparr>bn_start := min (bn_start n) ?b, bn_order := Suc ?k\<rparr>"
    have dec: "d = max_order s2 - bn_order ?m"
      using Suc.hyps(2) fixed_partD(2) [OF untouched_fixed [OF s2(3)]] by simp
    obtain s' L' own' m where s': "merge_buddies s2 (bn_start ?m) (bn_order ?m) = Some ((bn_start m, bn_order m), s')"
      "holds_block s' L' own' i m" "untouched (Collect outer) s2 L2 s' L'" "bn_order ?m \<le> bn_order m"
      by (rule Suc.hyps(1) [OF dec _ s2(4)])
    have "merge_buddies s (bn_start n) ?k = Some ((bn_start m, bn_order m), s')"
      using k k64 s2(1,2) s'(1) by (simp add: merge_buddies.simps [of s "bn_start n"])
    then show ?thesis
      by (rule Suc.prems(1) [OF _ s'(2) untouched_trans [OF s2(3) s'(3)]]) (use s'(4) in simp)
  qed
qed

lemma free_global_block_spec:
  assumes h: "holds_block s L own i (blk s i)"
  obtains s' L' own' where "free_global_block s i = Some (Ok (), s')" "idle s' L' own'"
    "untouched (Collect outer) s L s' L'"
proof -
  note h' = holds_blockD [OF h]
  obtain s1 L1 own1 m where s1: "merge_buddies s (bn_start (blk s i)) (bn_order (blk s i)) = Some ((bn_start m, bn_order m), s1)"
    "holds_block s1 L1 own1 i m" "untouched (Collect outer) s L s1 L1" "bn_order (blk s i) \<le> bn_order m"
    by (rule merge_buddies_spec [OF h])
  note h1 = holds_blockD [OF s1(2)]
  let ?g = "\<lambda>n. n\<lparr>bn_start := bn_start m, bn_order := bn_order m, bn_refcount := 0, bn_next := None\<rparr>"
  have g: "(?g n)\<lparr>bn_next := None\<rparr> = ?g (n\<lparr>bn_next := None\<rparr>)" for n by (cases n) simp
  obtain s2 where s2: "upd_node s1 i ?g = Some s2" "lists_ok s2 L1 own1" "fixed_part s2 = fixed_part s1"
    "blk s2 = (blk s1)(i := ?g (blk s1 i))"
    by (rule lists_ok_upd [OF h1(1,2,3), where f = ?g and g = ?g, OF g])
  have k64: "bn_order m < 64" using good_block_bound(3) [OF lists_okD(2) [OF h1(1)] h1(6)] by simp
  have "bn_start m \<notin> set (starts s1 (L1 (LFree (bn_order m))))"
    by (rule held_start_fresh [OF s1(2)]) simp_all
  moreover have "i \<notin> set (L1 (LFree (bn_order m)))"
    using repD(6) [OF lists_okD(1) [OF h1(1)], of i "LFree (bn_order m)"] h1(2) by simp
  ultimately have fresh: "bn_start (blk s2 i) \<notin> set (starts s2 (L1 (LFree (bn_order m))))"
    by (auto simp: s2(4) image_iff split: if_splits)
  have i2: "i < length (node_array s2)" "placed (cpu_count s2) (LFree (bn_order m)) (blk s2 i)"
    using h1(3) fixed_partD(6) [OF s2(3)] s2(4) by simp_all
  let ?l = "LFree (bn_order m)"
  obtain s3 ps qs where s3: "global_insert_sorted s2 (bn_order m) i = Some (Ok (), s3)" "L1 ?l = ps @ qs"
    "lists_ok s3 (L1(?l := ps @ i # qs)) (own1(i := Some ?l))" "fixed_part s3 = fixed_part s2" "blk s3 = blk s2"
    by (rule lists_ok_insert [OF s2(2) h1(2) i2(1) k64 fresh i2(2)])
  have f: "fixed_part s3 = fixed_part s1" using s3(4) s2(3) by simp
  have "idle s3 (L1(?l := ps @ i # qs)) (own1(i := Some ?l))"
    by (rule idle_put [OF s1(2) s3(3) _ f]) (simp_all add: s3(5) s2(4))
  moreover have "untouched (Collect outer) s1 L1 s3 (L1(?l := ps @ i # qs))"
    using h1(2) by (intro untouched_change [OF lists_okD(1) [OF h1(1)] f]) (auto simp: s3(5) s2(4) split: if_splits)
  moreover have "free_global_block s i = Some (Ok (), s3)"
    using s1(1) s2(1) s3(1) h'(3) by (simp add: free_global_block_def blk_fields)
  ultimately show ?thesis using untouched_trans [OF s1(3)] by (intro that) blast+
qed

end
