(* ===== verification/Buddy_Ops.thy ===== *)
theory Buddy_Ops
  imports Buddy_Inv
begin

text \<open>
  The public operations of the buddy allocator against their contract. The contract sees a
  state through \<open>allocated\<close>, the finite map from the first frame of every allocated block
  to its order and reference count; the lemmas say how allocation, retention and release
  change that map, that every operation returns and keeps the invariant, and what each
  error means.
\<close>

section \<open>The view of a state\<close>

definition allocated :: "buddy \<Rightarrow> usize \<rightharpoonup> usize \<times> nat" where
  "allocated s = map_of (map (\<lambda>n. (bn_start n, bn_order n, bn_refcount n))
     (filter (\<lambda>n. 0 < bn_refcount n) (node_array s)))"

definition entries :: "buddy \<Rightarrow> usize list \<Rightarrow> (usize \<times> usize \<times> nat) list" where
  "entries s is = map (\<lambda>i. (bn_start (blk s i), bn_order (blk s i), bn_refcount (blk s i))) is"

lemma map_of_unique:
  assumes "\<And>v w. (k, v) \<in> set xs \<Longrightarrow> (k, w) \<in> set xs \<Longrightarrow> v = w"
  shows "map_of xs k = Some v \<longleftrightarrow> (k, v) \<in> set xs"
proof
  show "map_of xs k = Some v \<Longrightarrow> (k, v) \<in> set xs" by (rule map_of_SomeD)
  assume v: "(k, v) \<in> set xs"
  then obtain w where "map_of xs k = Some w" by (cases "map_of xs k") (force simp: map_of_eq_None_iff)+
  then show "map_of xs k = Some v" using assms [OF v map_of_SomeD] by simp
qed

lemma map_of_same_set:
  assumes "\<And>k v w. (k, v) \<in> set xs \<Longrightarrow> (k, w) \<in> set xs \<Longrightarrow> v = w" "set xs = set ys"
  shows "map_of xs = map_of ys"
proof
  fix k
  have x: "map_of xs k = Some v \<longleftrightarrow> (k, v) \<in> set xs" for v by (rule map_of_unique) (rule assms(1))
  have y: "map_of ys k = Some v \<longleftrightarrow> (k, v) \<in> set xs" for v
    unfolding assms(2) by (rule map_of_unique) (use assms in blast)
  show "map_of xs k = map_of ys k" by (rule option.expand) (use x y in force, use x y in force)
qed

lemma map_eqI:
  assumes "\<And>g a b. m g = Some (a, b) \<longleftrightarrow> m' g = Some (a, b)"
  shows "m = m'"
proof
  show "m g = m' g" for g
    using assms [of g] by (cases "m g"; cases "m' g") auto
qed

lemma alloc_refcount:
  assumes "idle s L own" "i < length (node_array s)"
  shows "0 < bn_refcount (blk s i) \<longleftrightarrow> i \<in> set (L LAlloc)"
proof -
  obtain l where l: "own i = Some l" using idleD(4) [OF assms(1)] assms(2) by (cases "own i") (auto simp: held_def)
  have "placed (cpu_count s) l (blk s i)" by (rule lists_okD(4) [OF idleD(1) [OF assms(1)] assms(2) l])
  then show ?thesis
    using repD(6) [OF idleD(2) [OF assms(1)], of i LAlloc] l assms(2) by (cases l) auto
qed

lemma idle_distinct_starts:
  assumes "idle s L own" "i \<in> set (L l)" "j \<in> set (L l')" "l \<noteq> LUnused" "l' \<noteq> LUnused" "bn_start (blk s i) = bn_start (blk s j)"
  shows "i = j"
  by (rule tiling_distinct_starts [OF idleD(6) [OF assms(1)] listed_active(1) listed_active(1) assms(6)])
    (use assms idleD(1) in blast)+

lemma entries_unique:
  assumes "idle s L own" "(f, v) \<in> set (entries s (L LAlloc))" "(f, w) \<in> set (entries s (L LAlloc))"
  shows "v = w"
proof -
  obtain i where i: "i \<in> set (L LAlloc)" "f = bn_start (blk s i)" "v = (bn_order (blk s i), bn_refcount (blk s i))"
    using assms(2) by (auto simp: entries_def)
  obtain j where j: "j \<in> set (L LAlloc)" "f = bn_start (blk s j)" "w = (bn_order (blk s j), bn_refcount (blk s j))"
    using assms(3) by (auto simp: entries_def)
  have "i = j" by (rule idle_distinct_starts [OF assms(1) i(1) j(1)]) (use i(2) j(2) in simp_all)
  then show ?thesis using i(3) j(3) by simp
qed

lemma allocated_eq:
  assumes "idle s L own"
  shows "allocated s = map_of (entries s (L LAlloc))"
proof -
  let ?xs = "map (\<lambda>n. (bn_start n, bn_order n, bn_refcount n)) (filter (\<lambda>n. 0 < bn_refcount n) (node_array s))"
  have "set ?xs = (\<lambda>i. (bn_start (blk s i), bn_order (blk s i), bn_refcount (blk s i))) `
      {i. i < length (node_array s) \<and> 0 < bn_refcount (blk s i)}"
    by (auto simp: in_set_conv_nth blk_fields image_iff Bex_def)
  also have "{i. i < length (node_array s) \<and> 0 < bn_refcount (blk s i)} = set (L LAlloc)"
    using alloc_refcount [OF assms] repD(6) [OF idleD(2) [OF assms], of _ LAlloc] by blast
  finally have eq: "set ?xs = set (entries s (L LAlloc))" by (simp add: entries_def)
  have "v = w" if v: "(f, v) \<in> set ?xs" "(f, w) \<in> set ?xs" for f v w
    using entries_unique [OF assms] that unfolding eq by blast
  then show ?thesis unfolding allocated_def using eq by (rule map_of_same_set)
qed

lemma untouchedD:
  assumes "untouched ls s L s' L'" "l \<in> ls"
  shows "L' l = L l" "i \<in> set (L l) \<Longrightarrow> blk s' i = blk s i"
  using assms by (auto simp: untouched_def)

lemma entries_untouched: "untouched ls s L s' L' \<Longrightarrow> LAlloc \<in> ls \<Longrightarrow> entries s' (L' LAlloc) = entries s (L LAlloc)"
  by (simp add: untouched_def entries_def)

lemma allocated_untouched:
  "idle s L own \<Longrightarrow> idle s' L' own' \<Longrightarrow> untouched ls s L s' L' \<Longrightarrow> LAlloc \<in> ls \<Longrightarrow> allocated s' = allocated s"
  using entries_untouched by (simp add: allocated_eq)

text \<open>The frames handed out.\<close>

definition allocated_frames :: "buddy \<Rightarrow> usize set" where
  "allocated_frames s = {g. \<exists>f k r. allocated s f = Some (k, r) \<and> f \<le> g \<and> g < f + 2 ^ k}"

lemma map_of_entries:
  assumes "idle s L own"
  shows "allocated s f = Some (k, r) \<longleftrightarrow>
    (\<exists>i \<in> set (L LAlloc). bn_start (blk s i) = f \<and> bn_order (blk s i) = k \<and> bn_refcount (blk s i) = r)"
proof -
  have "v = w" if "(f, v) \<in> set (entries s (L LAlloc))" "(f, w) \<in> set (entries s (L LAlloc))" for v w
    using entries_unique [OF assms that] .
  then have "map_of (entries s (L LAlloc)) f = Some (k, r) \<longleftrightarrow> (f, (k, r)) \<in> set (entries s (L LAlloc))"
    by (rule map_of_unique)
  then show ?thesis unfolding allocated_eq [OF assms] by (auto simp: entries_def)
qed

lemma allocated_frames_eq:
  assumes "idle s L own"
  shows "allocated_frames s = (\<Union>i \<in> set (L LAlloc). block_frames (blk s i))"
  by (fastforce simp: allocated_frames_def map_of_entries [OF assms] block_frames_def)

section \<open>The per-CPU caches\<close>

text \<open>Everything but the free lists, the unused nodes and one cache.\<close>

abbreviation beside :: "usize \<Rightarrow> usize \<Rightarrow> lid set" where
  "beside c k \<equiv> {l. outer l \<and> l \<noteq> LCache c k}"

lemma outer_beside: "untouched (Collect outer) s L s' L' \<Longrightarrow> untouched (beside c k) s L s' L'"
  by (rule untouched_mono) auto

lemma idle_cpu_push:
  assumes h: "holds_block s L own i n" and n: "bn_start n = bn_start (blk s i)" "bn_order n = k"
    and c: "c < cpu_count s" "k \<le> PER_CPU_CACHE_MAX_ORDER"
  obtains s' where "cpu_push s c k i = Some s'" "idle s' (L(LCache c k := i # L (LCache c k))) (own(i := Some (LCache c k)))"
    "untouched (beside c k) s L s' (L(LCache c k := i # L (LCache c k)))"
proof -
  note h' = holds_blockD [OF h]
  let ?l = "LCache c k"
  have v: "valid_lid s ?l" using c lists_okD(2) [OF h'(1)] by (simp add: config_ok_def)
  obtain s' where s': "cpu_push s c k i = Some s'" "rep s' (L(?l := i # L ?l)) (own(i := Some ?l))"
    "fixed_part s' = fixed_part s" "blk s' = (blk s)(i := (blk s i)\<lparr>bn_order := k, bn_refcount := 0\<rparr>)"
    by (rule cpu_push_spec [OF lists_okD(1) [OF h'(1)] v h'(2,3)])
  have srt: "sorted_wrt (<) (starts s' ((L(?l := i # L ?l)) (LFree k')))" for k'
  proof -
    have "sorted_wrt (<) (starts s' (L (LFree k')))"
      by (rule lists_ok_off [OF h'(1) _ s'(4)]) (simp add: h'(2))
    then show ?thesis by simp
  qed
  have "lists_ok s' (L(?l := i # L ?l)) (own(i := Some ?l))"
    by (rule lists_ok_change [OF h'(1) s'(2-4) _ srt]) (use c in auto)
  then have "idle s' (L(?l := i # L ?l)) (own(i := Some ?l))"
    by (rule idle_put [OF h _ _ s'(3)]) (simp_all add: s'(4) n)
  moreover have "untouched (beside c k) s L s' (L(?l := i # L ?l))"
    using h'(2) by (intro untouched_change [OF lists_okD(1) [OF h'(1)] s'(3)]) (auto simp: s'(4) split: if_splits)
  ultimately show ?thesis using s'(1) by (intro that)
qed

lemma idle_cpu_pop:
  assumes I: "idle s L own" and c: "c < cpu_count s" "k \<le> PER_CPU_CACHE_MAX_ORDER" and i: "L (LCache c k) = i # is"
  obtains s' where "cpu_pop s c k = Some (Some i, s')" "holds_block s' (L(LCache c k := is)) (own(i := None)) i (blk s' i)"
    "bn_order (blk s' i) = k" "bn_refcount (blk s' i) = 0" "untouched (beside c k) s L s' (L(LCache c k := is))"
proof -
  note d = idleD [OF I]
  let ?l = "LCache c k"
  have v: "valid_lid s ?l" using c d(3) by (simp add: config_ok_def)
  obtain s' where s': "cpu_pop s c k = Some (Some i, s')" "rep s' (L(?l := is)) (own(i := None))"
    "fixed_part s' = fixed_part s" "blk s' = blk s"
    by (rule cpu_pop_spec [OF d(2) v i])
  have il: "own i = Some ?l" "i < length (node_array s)" using listed_active [OF d(1), of i ?l] i by simp_all
  have "lists_ok s' (L(?l := is)) (own(i := None))"
    by (rule lists_ok_change [OF d(1) s'(2,3), where n = "blk s i"]) (use s'(4) lists_okD(3) [OF d(1)] in simp_all)
  then have "holds_block s' (L(?l := is)) (own(i := None)) i (blk s' i)"
    by (rule idle_take [OF I _ s'(3,4) il(1) _ il(2)]) simp
  moreover have "bn_order (blk s' i) = k" "bn_refcount (blk s' i) = 0"
    using lists_okD(4) [OF d(1) il(2,1)] s'(4) by simp_all
  moreover have "untouched (beside c k) s L s' (L(?l := is))"
    using s'(4) by (intro untouched_change [OF d(2) s'(3)]) auto
  ultimately show ?thesis using s'(1) by (intro that)
qed

text \<open>
  Refilling: the loop always returns, with an error only when the metadata nodes run out,
  and a cache that was not empty stays so.
\<close>

lemma refill_loop_spec:
  assumes "idle s L own" "c < cpu_count s" "k \<le> PER_CPU_CACHE_MAX_ORDER"
  obtains r s' L' own' where "refill_loop s c k left = Some (r, s')" "idle s' L' own'" "untouched (beside c k) s L s' L'"
    "r = Ok () \<or> r = Err MetadataExhausted" "L (LCache c k) \<noteq> [] \<longrightarrow> L' (LCache c k) \<noteq> []"
  using assms
proof (induction left arbitrary: s L own thesis)
  case 0
  show ?case by (rule "0.prems"(1) [OF _ "0.prems"(2) untouched_refl, of "Ok ()"]) simp_all
next
  case (Suc left)
  note prem = Suc.prems(1) and I = Suc.prems(2)
  show ?case
  proof (rule alloc_from_global_cases [OF I, of k])
    assume "alloc_from_global s k = Some (Err OutOfMemory, s)"
    then show ?thesis by (intro prem [OF _ I untouched_refl, of "Ok ()"]) simp_all
  next
    assume "alloc_from_global s k = Some (Err MetadataExhausted, s)"
    then show ?thesis by (intro prem [OF _ I untouched_refl, of "Err MetadataExhausted"]) simp_all
  next
    fix i s1 L1 own1
    assume s1: "alloc_from_global s k = Some (Ok i, s1)" "holds_block s1 L1 own1 i (blk s1 i)"
      "bn_order (blk s1 i) = k" "untouched (Collect outer) s L s1 L1"
    have c1: "c < cpu_count s1" using Suc.prems(3) fixed_partD(3) [OF untouched_fixed [OF s1(4)]] by simp
    let ?L = "L1(LCache c k := i # L1 (LCache c k))"
    obtain s2 where s2: "cpu_push s1 c k i = Some s2" "idle s2 ?L (own1(i := Some (LCache c k)))"
      "untouched (beside c k) s1 L1 s2 ?L"
      by (rule idle_cpu_push [OF s1(2) refl s1(3) c1 Suc.prems(4)])
    have c2: "c < cpu_count s2" using c1 fixed_partD(3) [OF untouched_fixed [OF s2(3)]] by simp
    obtain r s' L' own' where s': "refill_loop s2 c k left = Some (r, s')" "idle s' L' own'"
      "untouched (beside c k) s2 ?L s' L'" "r = Ok () \<or> r = Err MetadataExhausted"
      "?L (LCache c k) \<noteq> [] \<longrightarrow> L' (LCache c k) \<noteq> []"
      by (rule Suc.IH [OF _ s2(2) c2 Suc.prems(4)])
    have u: "untouched (beside c k) s L s' L'"
      by (rule untouched_trans [OF outer_beside [OF s1(4)] untouched_trans [OF s2(3) s'(3)]])
    show ?thesis by (rule prem [OF _ s'(2) u s'(4)]) (use s1(1) s2(1) s'(1,5) in simp_all)
  qed
qed

lemma refill_batch_pos: "refill_batch k = Suc (refill_batch k - 1)"
  by (simp add: refill_batch_def)

lemma refill_cases:
  assumes I: "idle s L own" and c: "c < cpu_count s" "k \<le> PER_CPU_CACHE_MAX_ORDER" and empty: "L (LCache c k) = []"
  obtains (oom) "refill_per_cpu_cache s c k = Some (Err OutOfMemory, s)"
      "\<And>j. k \<le> j \<Longrightarrow> j \<le> max_order s \<Longrightarrow> L (LFree j) = []"
  | (metadata) s' L' own' where "refill_per_cpu_cache s c k = Some (Err MetadataExhausted, s')" "idle s' L' own'"
      "untouched (beside c k) s L s' L'"
  | (ok) s' L' own' where "refill_per_cpu_cache s c k = Some (Ok (), s')" "idle s' L' own'"
      "untouched (beside c k) s L s' L'" "L' (LCache c k) \<noteq> []"
proof -
  have v: "valid_lid s (LCache c k)" using c idleD(3) [OF I] by (simp add: config_ok_def)
  define d where "d = refill_batch k - 1"
  have batch: "refill_batch k = Suc d" using refill_batch_pos d_def by simp
  show ?thesis
  proof (rule alloc_from_global_cases [OF I, of k])
    assume a: "alloc_from_global s k = Some (Err OutOfMemory, s)"
      "\<And>j. k \<le> j \<Longrightarrow> j \<le> max_order s \<Longrightarrow> L (LFree j) = []"
    show ?thesis
      using a(1) cache_len_spec [OF idleD(2) [OF I] v] empty a(2)
      by (intro oom) (simp_all add: refill_per_cpu_cache_def batch)
  next
    assume "alloc_from_global s k = Some (Err MetadataExhausted, s)"
    then show ?thesis by (intro metadata [OF _ I untouched_refl]) (simp add: refill_per_cpu_cache_def batch)
  next
    fix i s1 L1 own1
    assume s1: "alloc_from_global s k = Some (Ok i, s1)" "holds_block s1 L1 own1 i (blk s1 i)"
      "bn_order (blk s1 i) = k" "untouched (Collect outer) s L s1 L1"
    have c1: "c < cpu_count s1" using c(1) fixed_partD(3) [OF untouched_fixed [OF s1(4)]] by simp
    let ?L = "L1(LCache c k := i # L1 (LCache c k))"
    obtain s2 where s2: "cpu_push s1 c k i = Some s2" "idle s2 ?L (own1(i := Some (LCache c k)))"
      "untouched (beside c k) s1 L1 s2 ?L"
      by (rule idle_cpu_push [OF s1(2) refl s1(3) c1 c(2)])
    have c2: "c < cpu_count s2" using c1 fixed_partD(3) [OF untouched_fixed [OF s2(3)]] by simp
    obtain r s' L' own' where s': "refill_loop s2 c k d = Some (r, s')" "idle s' L' own'"
      "untouched (beside c k) s2 ?L s' L'" "r = Ok () \<or> r = Err MetadataExhausted"
      "?L (LCache c k) \<noteq> [] \<longrightarrow> L' (LCache c k) \<noteq> []"
      by (rule refill_loop_spec [OF s2(2) c2 c(2), of d])
    have u: "untouched (beside c k) s L s' L'"
      by (rule untouched_trans [OF outer_beside [OF s1(4)] untouched_trans [OF s2(3) s'(3)]])
    have c': "c < cpu_count s'" using c(1) fixed_partD(3) [OF untouched_fixed [OF u]] by simp
    then have v': "valid_lid s' (LCache c k)" using c(2) idleD(3) [OF s'(2)] by (simp add: config_ok_def)
    have loop: "refill_loop s c k (refill_batch k) = Some (r, s')" using s1(1) s2(1) s'(1) by (simp add: batch)
    have ne: "L' (LCache c k) \<noteq> []" using s'(5) by simp
    from s'(4) show ?thesis
    proof
      assume "r = Ok ()"
      then show ?thesis
        using loop cache_len_spec [OF idleD(2) [OF s'(2)] v'] ne
        by (intro ok [OF _ s'(2) u ne]) (simp add: refill_per_cpu_cache_def)
    next
      assume "r = Err MetadataExhausted"
      then show ?thesis using loop by (intro metadata [OF _ s'(2) u]) (simp add: refill_per_cpu_cache_def)
    qed
  qed
qed

lemma drain_loop_spec:
  assumes "idle s L own" "c < cpu_count s" "k \<le> PER_CPU_CACHE_MAX_ORDER"
  obtains s' L' own' where "drain_loop s c k low = Some (Ok (), s')" "idle s' L' own'" "untouched (beside c k) s L s' L'"
    "length (L' (LCache c k)) \<le> low"
  using assms
proof (induction "length (L (LCache c k))" arbitrary: s L own thesis rule: less_induct)
  case less
  note I = less.prems(2) and prem = less.prems(1)
  have v: "valid_lid s (LCache c k)" using less.prems(3,4) idleD(3) [OF I] by (simp add: config_ok_def)
  note len = cache_len_spec [OF idleD(2) [OF I] v]
  show ?case
  proof (cases "length (L (LCache c k)) > low")
    case False
    then show ?thesis
      by (intro prem [OF _ I untouched_refl]) (use len in \<open>simp_all add: drain_loop.simps [of s]\<close>)
  next
    case True
    then obtain i "is" where i: "L (LCache c k) = i # is" by (cases "L (LCache c k)") auto
    obtain s1 where s1: "cpu_pop s c k = Some (Some i, s1)"
      "holds_block s1 (L(LCache c k := is)) (own(i := None)) i (blk s1 i)"
      "untouched (beside c k) s L s1 (L(LCache c k := is))"
      by (rule idle_cpu_pop [OF I less.prems(3,4) i])
    obtain s2 L2 own2 where s2: "free_global_block s1 i = Some (Ok (), s2)" "idle s2 L2 own2"
      "untouched (Collect outer) s1 (L(LCache c k := is)) s2 L2"
      by (rule free_global_block_spec [OF s1(2)])
    have l2: "L2 (LCache c k) = is" using s2(3) by (simp add: untouched_def)
    have dec: "length (L2 (LCache c k)) < length (L (LCache c k))" using l2 i by simp
    have u: "untouched (beside c k) s L s2 L2" by (rule untouched_trans [OF s1(3) outer_beside [OF s2(3)]])
    have c2: "c < cpu_count s2" using less.prems(3) fixed_partD(3) [OF untouched_fixed [OF u]] by simp
    obtain s' L' own' where s': "drain_loop s2 c k low = Some (Ok (), s')" "idle s' L' own'"
      "untouched (beside c k) s2 L2 s' L'" "length (L' (LCache c k)) \<le> low"
      by (rule less.hyps [OF dec _ s2(2) c2 less.prems(4)])
    have "drain_loop s c k low = Some (Ok (), s')"
      using len True s1(1) s2(1) s'(1) by (simp add: drain_loop.simps [of s])
    then show ?thesis
      by (rule prem [OF _ s'(2) untouched_trans [OF u s'(3)] s'(4)])
  qed
qed

lemma drain_spec:
  assumes I: "idle s L own" and c: "c < cpu_count s" "k \<le> PER_CPU_CACHE_MAX_ORDER"
  obtains s' L' own' where "drain_per_cpu_cache s c k = Some (Ok (), s')" "idle s' L' own'" "untouched (beside c k) s L s' L'"
    "length (L' (LCache c k)) \<le> high_watermark k"
proof -
  have v: "valid_lid s (LCache c k)" using c idleD(3) [OF I] by (simp add: config_ok_def)
  note len = cache_len_spec [OF idleD(2) [OF I] v]
  show ?thesis
  proof (cases "length (L (LCache c k)) \<le> high_watermark k")
    case True
    then show ?thesis by (intro that [OF _ I untouched_refl]) (use len in \<open>simp_all add: drain_per_cpu_cache_def\<close>)
  next
    case False
    obtain s' L' own' where s': "drain_loop s c k (refill_batch k) = Some (Ok (), s')" "idle s' L' own'"
      "untouched (beside c k) s L s' L'" "length (L' (LCache c k)) \<le> refill_batch k"
      by (rule drain_loop_spec [OF I c])
    show ?thesis
      by (rule that [OF _ s'(2,3)]) (use s'(1,4) False len in \<open>simp_all add: drain_per_cpu_cache_def high_watermark_def\<close>)
  qed
qed

section \<open>Allocation\<close>

lemma alloc_block_cases:
  assumes I: "idle s L own"
  obtains (cpu) "alloc_block s c k = Some (Err InvalidCpu, s)" "\<not> c < cpu_count s"
  | (oom) "alloc_block s c k = Some (Err OutOfMemory, s)" "c < cpu_count s"
      "\<And>j. k \<le> j \<Longrightarrow> j \<le> max_order s \<Longrightarrow> L (LFree j) = []" "k \<le> PER_CPU_CACHE_MAX_ORDER \<Longrightarrow> L (LCache c k) = []"
  | (metadata) s' L' own' where "alloc_block s c k = Some (Err MetadataExhausted, s')" "idle s' L' own'"
      "untouched (beside c k) s L s' L'" "c < cpu_count s"
  | (ok) i s' L' own' where "alloc_block s c k = Some (Ok i, s')" "holds_block s' L' own' i (blk s' i)"
      "bn_order (blk s' i) = k" "bn_refcount (blk s' i) = 0" "untouched (beside c k) s L s' L'" "c < cpu_count s"
proof -
  consider "\<not> c < cpu_count s" | "c < cpu_count s" "\<not> k \<le> PER_CPU_CACHE_MAX_ORDER"
    | (full) i "is" where "c < cpu_count s" "k \<le> PER_CPU_CACHE_MAX_ORDER" "L (LCache c k) = i # is"
    | (empty) "c < cpu_count s" "k \<le> PER_CPU_CACHE_MAX_ORDER" "L (LCache c k) = []"
    by (cases "L (LCache c k)") auto
  then show ?thesis
  proof cases
    case 1
    then show ?thesis by (intro cpu) (simp_all add: alloc_block_def checked_cpu_def)
  next
    case 2
    have eq: "alloc_block s c k = alloc_from_global s k" using 2 by (simp add: alloc_block_def checked_cpu_def)
    show ?thesis
    proof (rule alloc_from_global_cases [OF I, of k])
      assume "alloc_from_global s k = Some (Err OutOfMemory, s)"
        "\<And>j. k \<le> j \<Longrightarrow> j \<le> max_order s \<Longrightarrow> L (LFree j) = []"
      then show ?thesis by (intro oom [OF _ 2(1)]) (simp_all add: eq 2)
    next
      assume "alloc_from_global s k = Some (Err MetadataExhausted, s)"
      then show ?thesis by (intro metadata [OF _ I untouched_refl 2(1)]) (simp add: eq)
    next
      fix i s' L' own' assume s': "alloc_from_global s k = Some (Ok i, s')" "holds_block s' L' own' i (blk s' i)"
        "bn_order (blk s' i) = k" "bn_refcount (blk s' i) = 0" "untouched (Collect outer) s L s' L'"
      show ?thesis by (rule ok [OF _ s'(2-4) outer_beside [OF s'(5)] 2(1)]) (simp add: eq s'(1))
    qed
  next
    case full
    obtain s' where s': "cpu_pop s c k = Some (Some i, s')" "holds_block s' (L(LCache c k := is)) (own(i := None)) i (blk s' i)"
      "bn_order (blk s' i) = k" "bn_refcount (blk s' i) = 0" "untouched (beside c k) s L s' (L(LCache c k := is))"
      by (rule idle_cpu_pop [OF I full])
    show ?thesis
      by (rule ok [OF _ s'(2-5) full(1)]) (use s'(1) full in \<open>simp add: alloc_block_def checked_cpu_def\<close>)
  next
    case empty
    have v: "valid_lid s (LCache c k)" using empty idleD(3) [OF I] by (simp add: config_ok_def)
    have eq: "alloc_block s c k = and_then (refill_per_cpu_cache s c k) (\<lambda>_ s. do {
        (popped, s) \<leftarrow> cpu_pop s c k;
        case popped of Some i \<Rightarrow> Some (Ok i, s) | None \<Rightarrow> alloc_from_global s k})"
      using empty cpu_pop_empty [OF idleD(2) [OF I] v empty(3)] by (simp add: alloc_block_def checked_cpu_def)
    show ?thesis
    proof (rule refill_cases [OF I empty])
      assume "refill_per_cpu_cache s c k = Some (Err OutOfMemory, s)"
        "\<And>j. k \<le> j \<Longrightarrow> j \<le> max_order s \<Longrightarrow> L (LFree j) = []"
      then show ?thesis by (intro oom [OF _ empty(1) _ empty(3)]) (simp_all add: eq)
    next
      fix s' L' own' assume s': "refill_per_cpu_cache s c k = Some (Err MetadataExhausted, s')" "idle s' L' own'"
        "untouched (beside c k) s L s' L'"
      show ?thesis by (rule metadata [OF _ s'(2,3) empty(1)]) (simp add: eq s'(1))
    next
      fix s1 L1 own1 assume s1: "refill_per_cpu_cache s c k = Some (Ok (), s1)" "idle s1 L1 own1"
        "untouched (beside c k) s L s1 L1" "L1 (LCache c k) \<noteq> []"
      have c1: "c < cpu_count s1" using empty(1) fixed_partD(3) [OF untouched_fixed [OF s1(3)]] by simp
      obtain i "is" where i: "L1 (LCache c k) = i # is" using s1(4) by (cases "L1 (LCache c k)") auto
      obtain s' where s': "cpu_pop s1 c k = Some (Some i, s')" "holds_block s' (L1(LCache c k := is)) (own1(i := None)) i (blk s' i)"
        "bn_order (blk s' i) = k" "bn_refcount (blk s' i) = 0" "untouched (beside c k) s1 L1 s' (L1(LCache c k := is))"
        by (rule idle_cpu_pop [OF s1(2) c1 empty(2) i])
      show ?thesis
        by (rule ok [OF _ s'(2-4) untouched_trans [OF s1(3) s'(5)] empty(1)]) (simp add: eq s1(1) s'(1))
    qed
  qed
qed

lemma idle_mark:
  assumes h: "holds_block s L own i (blk s i)" and n: "bn_order (blk s i) = k" "bn_refcount (blk s i) = 0"
  obtains s' where "mark_allocated s i k = Some (Ok (bn_start (blk s i)), s')"
    "idle s' (L(LAlloc := i # L LAlloc)) (own(i := Some LAlloc))"
    "fixed_part s' = fixed_part s" "allocated s' = (map_of (entries s (L LAlloc)))(bn_start (blk s i) \<mapsto> (k, 1))"
proof -
  note h' = holds_blockD [OF h]
  obtain s' where s': "mark_allocated s i k = Some (Ok (bn_start (blk s i)), s')"
    "rep s' (L(LAlloc := i # L LAlloc)) (own(i := Some LAlloc))" "fixed_part s' = fixed_part s"
    "blk s' = (blk s)(i := (blk s i)\<lparr>bn_order := k, bn_refcount := 1\<rparr>)"
    by (rule mark_allocated_spec [OF lists_okD(1) [OF h'(1)] h'(2,3) n(2)])
  have srt: "sorted_wrt (<) (starts s' ((L(LAlloc := i # L LAlloc)) (LFree k')))" for k'
  proof -
    have "sorted_wrt (<) (starts s' (L (LFree k')))" by (rule lists_ok_off [OF h'(1) _ s'(4)]) (simp add: h'(2))
    then show ?thesis by simp
  qed
  have "lists_ok s' (L(LAlloc := i # L LAlloc)) (own(i := Some LAlloc))"
    by (rule lists_ok_change [OF h'(1) s'(2-4) _ srt]) auto
  then have I: "idle s' (L(LAlloc := i # L LAlloc)) (own(i := Some LAlloc))"
    by (rule idle_put [OF h _ _ s'(3)]) (simp_all add: s'(4) n)
  have "i \<notin> set (L LAlloc)" using repD(6) [OF lists_okD(1) [OF h'(1)], of i LAlloc] h'(2) by simp
  then have "entries s' (i # L LAlloc) = (bn_start (blk s i), k, 1) # entries s (L LAlloc)"
    by (auto simp: entries_def s'(4))
  then have "allocated s' = (map_of (entries s (L LAlloc)))(bn_start (blk s i) \<mapsto> (k, 1))"
    using allocated_eq [OF I] by simp
  then show ?thesis by (rule that [OF s'(1) I s'(3)])
qed

lemma order_for_count_cases:
  assumes "count < usize_range"
  obtains (err) "order_for_count count mo = Err InvalidCount" "count = 0 \<or> 2 ^ mo < count"
  | (ok) "order_for_count count mo = Ok (ceil_log2 count)" "ceil_log2 count \<le> mo" "count \<le> 2 ^ ceil_log2 count" "0 < count"
proof (cases "0 < count \<and> ceil_log2 count \<le> mo")
  case True
  then show ?thesis using ceil_log2_bounds(1) [OF _ assms] by (intro ok) (simp_all add: order_for_count_def)
next
  case False
  have "2 ^ mo < count" if "0 < count"
  proof -
    have c: "mo < ceil_log2 count" "1 < count"
      using False that by (auto simp: ceil_log2_def split: if_splits)
    then have "(2::nat) ^ mo \<le> 2 ^ (ceil_log2 count - 1)" by (intro power_increasing) simp_all
    then show ?thesis using ceil_log2_bounds(3) [OF that assms c(2)] by linarith
  qed
  then show ?thesis using False by (intro err) (auto simp: order_for_count_def)
qed

lemma block_address:
  assumes "config_ok s" "good_block (max_order s) (usable s) n"
  shows "push_bit PAGE_SHIFT (bn_start n) mod usize_range = bn_start n * PAGE_SIZE"
  using good_block_bound(2) [OF assms] by (simp add: push_bit_eq_mult PAGE_SIZE_def)

lemma alloc_frame_cases:
  assumes I: "idle s L own" and count: "count < usize_range"
  obtains (invalid) "alloc_frame_4k_on_cpu s c count = Some (Err InvalidCount, s)" "count = 0 \<or> 2 ^ max_order s < count"
  | (cpu) "alloc_frame_4k_on_cpu s c count = Some (Err InvalidCpu, s)" "\<not> c < cpu_count s"
  | (oom) "alloc_frame_4k_on_cpu s c count = Some (Err OutOfMemory, s)" "c < cpu_count s"
      "\<And>j. ceil_log2 count \<le> j \<Longrightarrow> j \<le> max_order s \<Longrightarrow> L (LFree j) = []"
      "ceil_log2 count \<le> PER_CPU_CACHE_MAX_ORDER \<Longrightarrow> L (LCache c (ceil_log2 count)) = []"
  | (metadata) s' L' own' where "alloc_frame_4k_on_cpu s c count = Some (Err MetadataExhausted, s')" "idle s' L' own'"
      "untouched (beside c (ceil_log2 count)) s L s' L'"
  | (ok) f s' L' own' where "alloc_frame_4k_on_cpu s c count = Some (Ok (f * PAGE_SIZE), s')" "idle s' L' own'"
      "fixed_part s' = fixed_part s" "allocated s' = (allocated s)(f \<mapsto> (ceil_log2 count, 1))"
      "2 ^ ceil_log2 count dvd f" "{f ..< f + 2 ^ ceil_log2 count} \<subseteq> usable s"
      "{f ..< f + 2 ^ ceil_log2 count} \<inter> allocated_frames s = {}" "count \<le> 2 ^ ceil_log2 count"
proof (rule order_for_count_cases [OF count, of "max_order s"])
  assume "order_for_count count (max_order s) = Err InvalidCount" "count = 0 \<or> 2 ^ max_order s < count"
  then show ?thesis by (intro invalid) (simp_all add: alloc_frame_4k_on_cpu_def)
next
  let ?k = "ceil_log2 count"
  assume k: "order_for_count count (max_order s) = Ok ?k" "?k \<le> max_order s" "count \<le> 2 ^ ?k" "0 < count"
  show ?thesis
  proof (rule alloc_block_cases [OF I, of c ?k])
    assume "alloc_block s c ?k = Some (Err InvalidCpu, s)" "\<not> c < cpu_count s"
    then show ?thesis by (intro cpu) (simp_all add: alloc_frame_4k_on_cpu_def k)
  next
    assume "alloc_block s c ?k = Some (Err OutOfMemory, s)" "c < cpu_count s"
      "\<And>j. ?k \<le> j \<Longrightarrow> j \<le> max_order s \<Longrightarrow> L (LFree j) = []" "?k \<le> PER_CPU_CACHE_MAX_ORDER \<Longrightarrow> L (LCache c ?k) = []"
    then show ?thesis by (intro oom) (simp_all add: alloc_frame_4k_on_cpu_def k)
  next
    fix s' L' own' assume s': "alloc_block s c ?k = Some (Err MetadataExhausted, s')" "idle s' L' own'"
      "untouched (beside c ?k) s L s' L'"
    show ?thesis by (rule metadata [OF _ s'(2,3)]) (simp add: alloc_frame_4k_on_cpu_def k s'(1))
  next
    fix i s1 L1 own1 assume s1: "alloc_block s c ?k = Some (Ok i, s1)" "holds_block s1 L1 own1 i (blk s1 i)"
      "bn_order (blk s1 i) = ?k" "bn_refcount (blk s1 i) = 0" "untouched (beside c ?k) s L s1 L1"
    note h = holds_blockD [OF s1(2)]
    have ent: "entries s1 (L1 LAlloc) = entries s (L LAlloc)" by (rule entries_untouched [OF s1(5)]) simp
    obtain s' where s': "mark_allocated s1 i ?k = Some (Ok (bn_start (blk s1 i)), s')"
      "idle s' (L1(LAlloc := i # L1 LAlloc)) (own1(i := Some LAlloc))"
      "fixed_part s' = fixed_part s1" "allocated s' = (map_of (entries s1 (L1 LAlloc)))(bn_start (blk s1 i) \<mapsto> (?k, 1))"
      by (rule idle_mark [OF s1(2-4)])
    note u = untouched_fixed [OF s1(5)]
    have good: "good_block (max_order s) (usable s) (blk s1 i)"
      using h(6) fixed_partD(2) [OF u] fixed_part_usable [OF u] by simp
    have "block_frames (blk s1 i) \<inter> block_frames (blk s j) = {}" if "j \<in> set (L LAlloc)" for j
    proof -
      have j: "j \<in> set (L1 LAlloc)" "blk s1 j = blk s j" using that untouchedD [OF s1(5), of LAlloc] by simp_all
      have "j \<in> active s1 own1" "i \<noteq> j" using listed_active [OF h(1) j(1)] h(2) by auto
      from tiling_apart [OF h(5,4) this] show ?thesis using j(2) \<open>i \<noteq> j\<close> by simp
    qed
    then have "block_frames (blk s1 i) \<inter> allocated_frames s = {}" unfolding allocated_frames_eq [OF I] by blast
    then show ?thesis
      using good block_address [OF idleD(3) [OF I] good]
      by (intro ok [OF _ s'(2)])
        (simp_all add: alloc_frame_4k_on_cpu_def k s1(1,3) s' ent allocated_eq [OF I] u good_block_def block_frames_def)
  qed
qed

section \<open>Retaining and releasing\<close>

lemma frame_number_aligned: "frame_number_from_addr (f * PAGE_SIZE) = Ok f"
proof -
  have "f * PAGE_SIZE AND (PAGE_SIZE - 1) = 0"
    using take_bit_eq_mask [of PAGE_SHIFT "f * PAGE_SIZE"]
    by (simp add: PAGE_SIZE_def mask_eq_exp_minus_1 take_bit_eq_mod)
  then show ?thesis by (simp add: frame_number_from_addr_def drop_bit_eq_div PAGE_SIZE_def)
qed

lemma find_allocated:
  assumes I: "idle s L own"
  obtains (none) "find_allocation_index s f = Some None" "allocated s f = None"
  | (some) i ps qs where "find_allocation_index s f = Some (Some i)" "L LAlloc = ps @ i # qs"
      "allocated s f = Some (bn_order (blk s i), bn_refcount (blk s i))" "bn_start (blk s i) = f"
      "0 < bn_refcount (blk s i)" "bn_refcount (blk s i) < 2 ^ 32" "i < length (node_array s)" "own i = Some LAlloc"
proof (cases "find (\<lambda>i. bn_start (blk s i) = f) (L LAlloc)")
  case None
  then have "\<not> (\<exists>i \<in> set (L LAlloc). bn_start (blk s i) = f)" by (auto simp: find_None_iff)
  then have "allocated s f = None"
    using map_of_entries [OF I, of f] by (cases "allocated s f") auto
  then show ?thesis using None find_allocation_spec [OF idleD(2) [OF I], of f] by (intro none) simp_all
next
  case (Some i)
  then have i: "i \<in> set (L LAlloc)" "bn_start (blk s i) = f" by (auto simp: find_Some_iff)
  then obtain ps qs where sp: "L LAlloc = ps @ i # qs" by (meson split_list)
  have a: "allocated s f = Some (bn_order (blk s i), bn_refcount (blk s i))"
    using map_of_entries [OF I, of f "bn_order (blk s i)" "bn_refcount (blk s i)"] i by blast
  note la = listed_active [OF idleD(1) [OF I] i(1)]
  have "placed (cpu_count s) LAlloc (blk s i)"
    by (rule lists_okD(4) [OF idleD(1) [OF I]]) (use la in simp_all)
  then show ?thesis
    using Some find_allocation_spec [OF idleD(2) [OF I], of f] i(2) la by (intro some [OF _ sp a]) simp_all
qed

lemma upd_listed:
  assumes "rep s L own" "i < length (node_array s)" "\<And>n. bn_next (f n) = bn_next n"
    "\<And>n. (f n)\<lparr>bn_next := None\<rparr> = g (n\<lparr>bn_next := None\<rparr>)"
  obtains s' where "upd_node s i f = Some s'" "rep s' L own" "fixed_part s' = fixed_part s"
    "blk s' = (blk s)(i := g (blk s i))"
proof -
  let ?s = "set_nodes s ((node_array s)[i := f (node_array s ! i)])"
  have "blk ?s = (blk s)(i := g (blk s i))" using assms(2,4) by (simp add: blk_def)
  then show ?thesis
    using that [of ?s] upd_node_eq [OF assms(2)] rep_write_keep [OF assms(1,3)] by simp
qed

lemma starts_same:
  assumes "blk s' = (blk s)(i := (blk s i)\<lparr>bn_refcount := r\<rparr>)"
  shows "starts s' is = starts s is"
  by (simp add: assms)

lemma idle_set_refcount:
  assumes I: "idle s L own" and i: "own i = Some LAlloc" "i < length (node_array s)" and r: "0 < r" "r < 2 ^ 32"
    and s': "rep s' L own" "fixed_part s' = fixed_part s" "blk s' = (blk s)(i := (blk s i)\<lparr>bn_refcount := r\<rparr>)"
  shows "idle s' L own" "allocated s' = (allocated s)(bn_start (blk s i) \<mapsto> (bn_order (blk s i), r))"
proof -
  note f = fixed_partD [OF s'(2)] fixed_part_usable [OF s'(2)]
  have own: "own(i := Some LAlloc) = own" using i(1) by (simp add: fun_upd_idem)
  have srt: "sorted_wrt (<) (starts s' (L (LFree k)))" for k
    unfolding starts_same [OF s'(3)] by (rule lists_okD(3) [OF idleD(1) [OF I]])
  have "lists_ok s' L (own(i := Some LAlloc))"
    by (rule lists_ok_change [OF idleD(1) [OF I], where n = "(blk s i)\<lparr>bn_refcount := r\<rparr>"])
      (use own s' r srt in \<open>auto simp del: map_eq_conv\<close>)
  moreover have "active s' own = active s own" "held s' own = held s own" using f(6) by (simp_all add: active_def held_def)
  moreover have "tiling (max_order s) (usable s) (active s own) (blk s')"
    using idleD(6) [OF I] by (subst tiling_cong [where C = "blk s"]) (simp_all add: s'(3))
  ultimately show J: "idle s' L own" using idleD(4) [OF I] f own by (simp add: idle_def)
  have iL: "i \<in> set (L LAlloc)" using repD(6) [OF idleD(2) [OF I], of i LAlloc] i by simp
  have ne: "j = i" if "j \<in> set (L LAlloc)" "bn_start (blk s j) = bn_start (blk s i)" for j
    by (rule idle_distinct_starts [OF I that(1) iL]) (use that in simp_all)
  have "allocated s' g = Some (k, q) \<longleftrightarrow>
      ((allocated s)(bn_start (blk s i) \<mapsto> (bn_order (blk s i), r))) g = Some (k, q)" for g k q
  proof (cases "g = bn_start (blk s i)")
    case True
    then show ?thesis using iL ne by (auto simp: map_of_entries [OF J] s'(3))
  next
    case False
    then show ?thesis by (auto simp: map_of_entries [OF I] map_of_entries [OF J] s'(3))
  qed
  then show "allocated s' = (allocated s)(bn_start (blk s i) \<mapsto> (bn_order (blk s i), r))"
    by (rule map_eqI)
qed

lemma retain_frame_cases:
  assumes I: "idle s L own"
  obtains (none) "retain_frame s (f * PAGE_SIZE) = Some (Err InvalidFrame, s)" "allocated s f = None"
  | (full) k where "retain_frame s (f * PAGE_SIZE) = Some (Err RefCountOverflow, s)" "allocated s f = Some (k, 2 ^ 32 - 1)"
  | (ok) k r s' where "retain_frame s (f * PAGE_SIZE) = Some (Ok (r + 1), s')" "allocated s f = Some (k, r)" "idle s' L own"
      "allocated s' = (allocated s)(f \<mapsto> (k, r + 1))" "fixed_part s' = fixed_part s"
proof (rule find_allocated [OF I, of f])
  assume "find_allocation_index s f = Some None" "allocated s f = None"
  then show ?thesis by (intro none) (simp_all add: retain_frame_def frame_number_aligned)
next
  fix i ps qs
  assume a: "find_allocation_index s f = Some (Some i)" "L LAlloc = ps @ i # qs"
    "allocated s f = Some (bn_order (blk s i), bn_refcount (blk s i))" "bn_start (blk s i) = f"
    "0 < bn_refcount (blk s i)" "bn_refcount (blk s i) < 2 ^ 32" "i < length (node_array s)" "own i = Some LAlloc"
  show ?thesis
  proof (cases "bn_refcount (blk s i) + 1 < 2 ^ 32")
    case False
    then have "bn_refcount (blk s i) = 2 ^ 32 - 1" using a(6) by linarith
    then show ?thesis
      using False a by (intro full) (simp_all add: retain_frame_def frame_number_aligned blk_fields)
  next
    case True
    obtain s' where s': "upd_node s i (\<lambda>n. n\<lparr>bn_refcount := bn_refcount n + 1\<rparr>) = Some s'" "rep s' L own"
      "fixed_part s' = fixed_part s" "blk s' = (blk s)(i := (blk s i)\<lparr>bn_refcount := bn_refcount (blk s i) + 1\<rparr>)"
      by (rule upd_listed [OF idleD(2) [OF I] a(7), where f = "\<lambda>n. n\<lparr>bn_refcount := bn_refcount n + 1\<rparr>"
          and g = "\<lambda>n. n\<lparr>bn_refcount := bn_refcount n + 1\<rparr>"]) simp_all
    note upd = idle_set_refcount [OF I a(8,7) _ True s'(2-4)]
    have "retain_frame s (f * PAGE_SIZE) = Some (Ok (bn_refcount (blk s i) + 1), s')"
      using True a s'(1) by (simp add: retain_frame_def frame_number_aligned blk_fields)
    then show ?thesis by (rule ok [OF _ a(3)]) (use upd a(4) s'(3) in simp_all)
  qed
qed

lemma map_of_remove:
  "distinct (map fst (ps @ x # qs)) \<Longrightarrow> map_of (ps @ qs) = (map_of (ps @ x # qs))(fst x := None)"
proof (induction ps)
  case Nil
  then show ?case by (cases x) (auto simp: fun_eq_iff map_of_eq_None_iff)
next
  case (Cons p ps)
  then have "fst p \<noteq> fst x" by auto
  then have "(m(fst x := None))(fst p \<mapsto> snd p) = (m(fst p \<mapsto> snd p))(fst x := None)" for m :: "'a \<rightharpoonup> 'b"
    by (rule fun_upd_twist [symmetric])
  then show ?case using Cons by (simp del: fun_upd_apply)
qed

lemma idle_release:
  assumes I: "idle s L own" and sp: "L LAlloc = ps @ i # qs" and i: "own i = Some LAlloc" "i < length (node_array s)"
  obtains s1 s2 where "upd_node s i (\<lambda>n. n\<lparr>bn_refcount := 0\<rparr>) = Some s1" "remove_allocation_node s1 i = Some (Ok (), s2)"
    "holds_block s2 (L(LAlloc := ps @ qs)) (own(i := None)) i (blk s2 i)"
    "blk s2 i = (blk s i)\<lparr>bn_refcount := 0\<rparr>"
    "fixed_part s2 = fixed_part s" "map_of (entries s2 (ps @ qs)) = (allocated s)(bn_start (blk s i) := None)"
proof -
  note d = idleD [OF I]
  obtain s1 where s1: "upd_node s i (\<lambda>n. n\<lparr>bn_refcount := 0\<rparr>) = Some s1" "rep s1 L own"
    "fixed_part s1 = fixed_part s" "blk s1 = (blk s)(i := (blk s i)\<lparr>bn_refcount := 0\<rparr>)"
    by (rule upd_listed [OF d(2) i(2), where f = "\<lambda>n. n\<lparr>bn_refcount := 0\<rparr>" and g = "\<lambda>n. n\<lparr>bn_refcount := 0\<rparr>"]) simp_all
  obtain s2 where s2: "remove_allocation_node s1 i = Some (Ok (), s2)" "rep s2 (L(LAlloc := ps @ qs)) (own(i := None))"
    "fixed_part s2 = fixed_part s1" "blk s2 = blk s1"
    by (rule remove_allocation_spec [OF s1(2) sp])
  have f2: "fixed_part s2 = fixed_part s" and b2: "blk s2 = (blk s)(i := (blk s i)\<lparr>bn_refcount := 0\<rparr>)"
    using s1(3,4) s2(3,4) by simp_all
  note f = fixed_partD [OF f2] fixed_part_usable [OF f2]
  have srt: "sorted_wrt (<) (starts s2 ((L(LAlloc := ps @ qs)) (LFree k)))" for k
    using lists_okD(3) [OF d(1), of k] starts_same [OF b2, of "L (LFree k)"] by (simp del: map_eq_conv)
  have l2: "lists_ok s2 (L(LAlloc := ps @ qs)) (own(i := None))"
    by (rule lists_ok_change [OF d(1) s2(2) f2 b2 _ srt]) simp
  have "active s2 (own(i := None)) = active s own" "held s2 (own(i := None)) = {i}"
    using i d(4) f(6) by (auto simp: active_def held_def)
  moreover have "tiling (max_order s) (usable s) (active s own) (blk s2)"
    using d(6) by (subst tiling_cong [where C = "blk s"]) (simp_all add: b2)
  ultimately have "holds_block s2 (L(LAlloc := ps @ qs)) (own(i := None)) i (blk s2 i)"
    using l2 f by (simp add: holds_block_def fun_upd_idem)
  moreover have "distinct (map fst (entries s (ps @ i # qs)))"
  proof -
    have "distinct (L LAlloc)" by (rule repD(5) [OF d(2)])
    moreover have "inj_on (\<lambda>i. bn_start (blk s i)) (set (L LAlloc))"
      using idle_distinct_starts [OF I, of _ LAlloc _ LAlloc] by (auto intro: inj_onI)
    ultimately have "distinct (starts s (L LAlloc))" by (simp only: distinct_map simp_thms)
    then show ?thesis by (simp add: sp entries_def comp_def)
  qed
  moreover have "entries s2 (ps @ qs) = entries s (ps @ qs)"
    using repD(5) [OF d(2), of LAlloc] sp by (auto simp: entries_def b2)
  moreover have "entries s (ps @ i # qs) = entries s ps @ (bn_start (blk s i), bn_order (blk s i), bn_refcount (blk s i)) # entries s qs"
    "entries s (ps @ qs) = entries s ps @ entries s qs" by (simp_all add: entries_def)
  ultimately show ?thesis
    using map_of_remove [of "entries s ps" "(bn_start (blk s i), bn_order (blk s i), bn_refcount (blk s i))" "entries s qs"]
    by (intro that [OF s1(1) s2(1) _ _ f2]) (simp_all add: b2 allocated_eq [OF I] sp)
qed

text \<open>Where a released block goes: into the cache of the CPU, or merged into the free lists.\<close>

lemma give_back_spec:
  assumes h: "holds_block s L own i (blk s i)" and c: "c < cpu_count s"
  obtains s' L' own' where
    "(if bn_order (blk s i) \<le> PER_CPU_CACHE_MAX_ORDER
      then cpu_push s c (bn_order (blk s i)) i \<bind> (\<lambda>t. drain_per_cpu_cache t c (bn_order (blk s i)))
      else free_global_block s i) = Some (Ok (), s')"
    "idle s' L' own'" "untouched (beside c (bn_order (blk s i))) s L s' L'"
proof (cases "bn_order (blk s i) \<le> PER_CPU_CACHE_MAX_ORDER")
  case True
  let ?k = "bn_order (blk s i)"
  let ?L = "L(LCache c ?k := i # L (LCache c ?k))"
  obtain s1 where s1: "cpu_push s c ?k i = Some s1" "idle s1 ?L (own(i := Some (LCache c ?k)))"
    "untouched (beside c ?k) s L s1 ?L"
    by (rule idle_cpu_push [OF h refl refl c True])
  have c1: "c < cpu_count s1" using c fixed_partD(3) [OF untouched_fixed [OF s1(3)]] by simp
  obtain s' L' own' where s': "drain_per_cpu_cache s1 c ?k = Some (Ok (), s')" "idle s' L' own'"
    "untouched (beside c ?k) s1 ?L s' L'"
    by (rule drain_spec [OF s1(2) c1 True])
  show ?thesis by (rule that [OF _ s'(2) untouched_trans [OF s1(3) s'(3)]]) (simp add: True s1(1) s'(1))
next
  case False
  obtain s' L' own' where s': "free_global_block s i = Some (Ok (), s')" "idle s' L' own'"
    "untouched (Collect outer) s L s' L'"
    by (rule free_global_block_spec [OF h])
  show ?thesis by (rule that [OF _ s'(2) outer_beside [OF s'(3)]]) (simp add: False s'(1))
qed

lemma free_frame_cases:
  assumes I: "idle s L own"
  obtains (cpu) "free_frame_on_cpu s c (f * PAGE_SIZE) = Some (Err InvalidCpu, s)" "\<not> c < cpu_count s"
  | (none) "free_frame_on_cpu s c (f * PAGE_SIZE) = Some (Err InvalidFrame, s)" "c < cpu_count s" "allocated s f = None"
  | (keep) k r s' where "free_frame_on_cpu s c (f * PAGE_SIZE) = Some (Ok (), s')" "c < cpu_count s"
      "allocated s f = Some (k, r)" "1 < r" "idle s' L own" "allocated s' = (allocated s)(f \<mapsto> (k, r - 1))"
      "fixed_part s' = fixed_part s"
  | (release) k s' L' own' where "free_frame_on_cpu s c (f * PAGE_SIZE) = Some (Ok (), s')" "c < cpu_count s"
      "allocated s f = Some (k, 1)" "idle s' L' own'" "allocated s' = (allocated s)(f := None)"
      "fixed_part s' = fixed_part s"
proof (cases "c < cpu_count s")
  case False
  then show ?thesis by (intro cpu) (simp_all add: free_frame_on_cpu_def checked_cpu_def)
next
  case True
  show ?thesis
  proof (rule find_allocated [OF I, of f])
    assume "find_allocation_index s f = Some None" "allocated s f = None"
    then show ?thesis
      using True by (intro none) (simp_all add: free_frame_on_cpu_def checked_cpu_def frame_number_aligned)
  next
    fix i ps qs
    assume a: "find_allocation_index s f = Some (Some i)" "L LAlloc = ps @ i # qs"
      "allocated s f = Some (bn_order (blk s i), bn_refcount (blk s i))" "bn_start (blk s i) = f"
      "0 < bn_refcount (blk s i)" "bn_refcount (blk s i) < 2 ^ 32" "i < length (node_array s)" "own i = Some LAlloc"
    let ?r = "bn_refcount (blk s i)"
    show ?thesis
    proof (cases "1 < ?r")
      case r: True
      obtain s' where s': "upd_node s i (\<lambda>n. n\<lparr>bn_refcount := bn_refcount n - 1\<rparr>) = Some s'" "rep s' L own"
        "fixed_part s' = fixed_part s" "blk s' = (blk s)(i := (blk s i)\<lparr>bn_refcount := ?r - 1\<rparr>)"
        by (rule upd_listed [OF idleD(2) [OF I] a(7), where f = "\<lambda>n. n\<lparr>bn_refcount := bn_refcount n - 1\<rparr>"
            and g = "\<lambda>n. n\<lparr>bn_refcount := bn_refcount n - 1\<rparr>"]) simp_all
      note upd = idle_set_refcount [OF I a(8,7) _ _ s'(2-4)]
      have "free_frame_on_cpu s c (f * PAGE_SIZE) = Some (Ok (), s')"
        using True r a(1,7) s'(1) by (simp add: free_frame_on_cpu_def checked_cpu_def frame_number_aligned blk_fields)
      then show ?thesis by (rule keep [OF _ True a(3) r]) (use upd a(4,6) r s'(3) in simp_all)
    next
      case False
      then have r: "?r = 1" using a(5) by simp
      obtain s1 s2 where s2: "upd_node s i (\<lambda>n. n\<lparr>bn_refcount := 0\<rparr>) = Some s1" "remove_allocation_node s1 i = Some (Ok (), s2)"
        "holds_block s2 (L(LAlloc := ps @ qs)) (own(i := None)) i (blk s2 i)" "blk s2 i = (blk s i)\<lparr>bn_refcount := 0\<rparr>"
        "fixed_part s2 = fixed_part s" "map_of (entries s2 (ps @ qs)) = (allocated s)(bn_start (blk s i) := None)"
        by (rule idle_release [OF I a(2,8,7)])
      have c2: "c < cpu_count s2" using True fixed_partD(3) [OF s2(5)] by simp
      have ord: "bn_order (blk s2 i) = bn_order (blk s i)" using s2(4) by simp
      obtain s' L' own' where s':
        "(if bn_order (blk s2 i) \<le> PER_CPU_CACHE_MAX_ORDER
          then cpu_push s2 c (bn_order (blk s2 i)) i \<bind> (\<lambda>t. drain_per_cpu_cache t c (bn_order (blk s2 i)))
          else free_global_block s2 i) = Some (Ok (), s')"
        "idle s' L' own'" "untouched (beside c (bn_order (blk s2 i))) s2 (L(LAlloc := ps @ qs)) s' L'"
        by (rule give_back_spec [OF s2(3) c2])
      have "upd_node s i (\<lambda>n. n\<lparr>bn_refcount := bn_refcount n - 1\<rparr>) = Some s1"
        using s2(1) r a(7) by (simp add: upd_node_eq blk_fields)
      then have eq: "free_frame_on_cpu s c (f * PAGE_SIZE) = Some (Ok (), s')"
        using True r a(1,7) s2(2) s'(1) [unfolded ord blk_fields(2) [OF a(7)]]
        by (simp add: free_frame_on_cpu_def checked_cpu_def frame_number_aligned blk_fields)
      have "allocated s' = (allocated s)(f := None)"
        using entries_untouched [OF s'(3)] s2(6) a(4) by (simp add: allocated_eq [OF s'(2)])
      then show ?thesis
        using a(3) r untouched_fixed [OF s'(3)] s2(5) by (intro release [OF eq True _ s'(2)]) simp_all
    qed
  qed
qed

end
