(* ===== verification/Buddy_Boot.thy ===== *)
theory Buddy_Boot
  imports Buddy_Ops
begin

text \<open>
  Construction of the buddy allocator from a memory map: seeding carves every usable range
  into aligned blocks, and the finished state satisfies the invariant with every usable
  frame free.
\<close>

section \<open>The empty allocator\<close>

definition blank :: "nat \<Rightarrow> nat \<Rightarrow> range_list \<Rightarrow> usize \<Rightarrow> usize \<Rightarrow> buddy" where
  "blank max_cpus max_block_nodes ranges cpus frames =
     \<lparr>total_frames = frames, max_order = floor_log2 frames, cpu_count = cpus,
      usable_ranges = ranges,
      global_free_heads = replicate MAX_ORDER_SLOTS None,
      global_free_lens = replicate MAX_ORDER_SLOTS 0,
      allocations_head = None, allocation_len = 0,
      per_cpu = replicate max_cpus cache_new,
      nodes = pool_init max_block_nodes\<rparr>"

lemma pool_chain:
  "k \<le> cap \<Longrightarrow> chain (pool_nodes (pool_init cap)) (if k < cap then Some k else None) [k..<cap]"
proof (induction "cap - k" arbitrary: k)
  case (Suc n)
  have k: "k < cap" using Suc.hyps(2) by simp
  have IH: "chain (pool_nodes (pool_init cap)) (if Suc k < cap then Some (Suc k) else None) [Suc k..<cap]"
    by (rule Suc.hyps(1)) (use Suc.hyps(2) in simp_all)
  have node: "length (pool_nodes (pool_init cap)) = cap"
    "bn_next (pool_nodes (pool_init cap) ! k) = (if Suc k < cap then Some (Suc k) else None)"
    using k by (simp_all add: pool_init_def)
  have "[k..<cap] = k # [Suc k..<cap]" using k by (rule upt_conv_Cons)
  then show ?case using IH node k by (simp only: chain.simps if_True simp_thms)
qed simp

definition blank_contents :: "nat \<Rightarrow> contents" where
  "blank_contents cap = (\<lambda>_. [])(LUnused := [0..<cap])"

lemma blank_rep:
  assumes "cap < usize_range"
  shows "rep (blank mc cap r c f) (blank_contents cap) (\<lambda>_. Some LUnused)"
proof -
  let ?s = "blank mc cap r c f"
  have len: "length (node_array ?s) = cap" by (simp add: blank_def pool_init_def)
  have "shape ?s" by (auto simp: shape_def blank_def cache_new_def)
  moreover have "chain (node_array ?s) (head_of ?s l) (blank_contents cap l) \<and> length_of ?s l = length (blank_contents cap l)
      \<and> distinct (blank_contents cap l) \<and> set (blank_contents cap l) = {i. i < length (node_array ?s) \<and> Some LUnused = Some l}" for l
  proof (cases l)
    case LUnused
    then show ?thesis using pool_chain [of 0 cap] len by (auto simp: blank_contents_def blank_def pool_init_def)
  next
    case LAlloc
    then show ?thesis by (simp add: blank_contents_def blank_def)
  next
    case (LFree k)
    then show ?thesis by (simp add: blank_contents_def blank_def)
  next
    case (LCache c' k)
    then show ?thesis by (simp add: blank_contents_def blank_def cache_new_def del: replicate.simps)
  qed
  ultimately show ?thesis using assms len by (simp add: rep_def)
qed

section \<open>Seeding\<close>

text \<open>A state under construction: the blocks made so far tile the frames seeded so far.\<close>

definition seeded :: "buddy \<Rightarrow> contents \<Rightarrow> owner \<Rightarrow> usize set \<Rightarrow> bool" where
  "seeded s L own V \<longleftrightarrow> lists_ok s L own \<and> held s own = {} \<and> tiling (max_order s) V (active s own) (blk s)"

lemma seed_turn:
  assumes S: "seeded s L own V" and n: "start + 2 ^ k < usize_range" "{start ..< start + 2 ^ k} \<inter> V = {}"
    "2 ^ k dvd start" "k \<le> max_order s" and j: "L LUnused = j # js"
  obtains s1 s2 s3 L' own' where "pool_alloc s = Some (Ok j, s1)"
    "upd_node s1 j (\<lambda>_. \<lparr>bn_start = start, bn_order = k, bn_refcount = 0, bn_next = None\<rparr>) = Some s2"
    "global_insert_sorted s2 k j = Some (Ok (), s3)"
    "seeded s3 L' own' (V \<union> {start ..< start + 2 ^ k})" "L' LUnused = js" "untouched (Collect outer) s L s3 L'"
proof -
  let ?n = "\<lparr>bn_start = start, bn_order = k, bn_refcount = 0, bn_next = None\<rparr>"
  have l: "lists_ok s L own" and t: "tiling (max_order s) V (active s own) (blk s)" and hd: "held s own = {}"
    using S by (simp_all add: seeded_def)
  have k64: "k < 64" using config_max_order [OF lists_okD(2) [OF l]] n(4) by simp
  obtain s1 where s1: "pool_alloc s = Some (Ok j, s1)" "lists_ok s1 (L(LUnused := js)) (own(j := None))"
    "fixed_part s1 = fixed_part s" "blk s1 = blk s" "j < length (node_array s)" "own j = Some LUnused"
    by (rule lists_ok_pool_alloc [OF l j])
  have j1: "(own(j := None)) j = None" "j < length (node_array s1)" using s1(5) fixed_partD(6) [OF s1(3)] by simp_all
  obtain s2 where s2: "upd_node s1 j (\<lambda>_. ?n) = Some s2" "lists_ok s2 (L(LUnused := js)) (own(j := None))"
    "fixed_part s2 = fixed_part s1" "blk s2 = (blk s1)(j := ?n)"
    by (rule lists_ok_upd [OF s1(2) j1, where f = "\<lambda>_. ?n" and g = "\<lambda>_. ?n"]) simp_all
  have fresh: "bn_start (blk s2 j) \<notin> set (starts s2 ((L(LUnused := js)) (LFree k)))"
  proof
    assume "bn_start (blk s2 j) \<in> set (starts s2 ((L(LUnused := js)) (LFree k)))"
    then obtain x where x: "x \<in> set (L (LFree k))" "start = bn_start (blk s2 x)" by (auto simp: s2(4))
    note a = listed_active [OF l x(1)]
    have "x \<noteq> j" using a(2) s1(6) by auto
    then have "start \<in> block_frames (blk s x)" using x(2) s2(4) s1(4) by simp
    then have "start \<in> V" using t a(1) by (auto simp: tiling_def)
    then show False using n(2) by (auto simp: disjoint_iff)
  qed
  have j2: "j < length (node_array s2)" "placed (cpu_count s2) (LFree k) (blk s2 j)"
    using j1 fixed_partD(6) [OF s2(3)] s2(4) by simp_all
  obtain s3 ps qs where s3: "global_insert_sorted s2 k j = Some (Ok (), s3)" "(L(LUnused := js)) (LFree k) = ps @ qs"
    "lists_ok s3 (L(LUnused := js, LFree k := ps @ j # qs)) (own(j := None, j := Some (LFree k)))"
    "fixed_part s3 = fixed_part s2" "blk s3 = blk s2"
    by (rule lists_ok_insert [OF s2(2) j1(1) j2(1) k64 fresh j2(2)])
  let ?L = "L(LUnused := js, LFree k := ps @ j # qs)" and ?own = "own(j := Some (LFree k))"
  have f3: "fixed_part s3 = fixed_part s" using s3(4) s2(3) s1(3) by simp
  have b3: "blk s3 = (blk s)(j := ?n)" using s3(5) s2(4) s1(4) by simp
  have fr: "block_frames ?n = {start ..< start + 2 ^ k}" by (simp add: block_frames_def)
  have "tiling (max_order s) (V \<union> block_frames ?n) (insert j (active s own)) ((blk s)(j := ?n))"
    by (rule tiling_extend [OF t]) (use s1(6) n fr in \<open>simp_all add: active_def\<close>)
  moreover have "insert j (active s own) = active s3 ?own" "held s3 ?own = {}"
    using s1(5,6) hd fixed_partD(6) [OF f3] by (auto simp: active_def held_def)
  ultimately have "seeded s3 ?L ?own (V \<union> {start ..< start + 2 ^ k})"
    using s3(3) fixed_partD(2) [OF f3] fr by (simp add: seeded_def b3)
  moreover have "untouched (Collect outer) s L s3 ?L"
    using s1(6) by (intro untouched_change [OF lists_okD(1) [OF l] f3]) (auto simp: b3 split: if_splits)
  ultimately show ?thesis by (intro that [OF s1(1) s2(1) s3(1)]) simp_all
qed

lemma seed_region_spec:
  assumes "seeded s L own V" "start + remaining < usize_range" "{start ..< start + remaining} \<inter> V = {}"
  obtains (ok) s' L' own' where "seed_global_free_region s start remaining = Some (Ok (), s')"
      "seeded s' L' own' (V \<union> {start ..< start + remaining})" "untouched (Collect outer) s L s' L'"
      "length (L LUnused) \<le> length (L' LUnused) + remaining"
  | (metadata) s' where "seed_global_free_region s start remaining = Some (Err MetadataExhausted, s')"
      "length (L LUnused) < remaining"
  using assms
proof (induction remaining arbitrary: s L own V start thesis rule: less_induct)
  case (less remaining)
  note ok = less.prems(1) and metadata = less.prems(2) and S = less.prems(3)
  have l: "lists_ok s L own" using S by (simp add: seeded_def)
  show ?case
  proof (cases "remaining = 0")
    case True
    then show ?thesis by (intro ok [OF _ _ untouched_refl]) (use S in \<open>simp_all add: seed_global_free_region.simps\<close>)
  next
    case False
    define k where "k = max_fit_order start remaining (max_order s)"
    have mo: "max_order s < 64" using config_max_order [OF lists_okD(2) [OF l]] .
    have r: "0 < remaining" "remaining < usize_range" using False less.prems(4) by simp_all
    note kb = max_fit_order_bounds [OF r mo, of start, folded k_def]
    show ?thesis
    proof (cases "L LUnused")
      case Nil
      then have "pool_alloc s = Some (Err MetadataExhausted, s)" by (rule pool_alloc_empty [OF lists_okD(1) [OF l]])
      then show ?thesis
        by (intro metadata) (use False Nil in \<open>simp_all add: seed_global_free_region.simps [of s]\<close>)
    next
      case (Cons j js)
      have sub: "start + 2 ^ k < usize_range" "{start ..< start + 2 ^ k} \<inter> V = {}"
        using kb(3) less.prems(4,5) by (linarith, fastforce)
      obtain s1 s2 s3 L3 own3 where s3: "pool_alloc s = Some (Ok j, s1)"
        "upd_node s1 j (\<lambda>_. \<lparr>bn_start = start, bn_order = k, bn_refcount = 0, bn_next = None\<rparr>) = Some s2"
        "global_insert_sorted s2 k j = Some (Ok (), s3)"
        "seeded s3 L3 own3 (V \<union> {start ..< start + 2 ^ k})" "L3 LUnused = js" "untouched (Collect outer) s L s3 L3"
        by (rule seed_turn [OF S sub kb(2,1) Cons])
      have w: "wadd start (block_size k) = start + 2 ^ k" "wsub remaining (block_size k) = remaining - 2 ^ k"
        using sub(1) kb(3,4) r(2) by (simp_all add: wadd_exact wsub_exact)
      have eq: "seed_global_free_region s start remaining = seed_global_free_region s3 (start + 2 ^ k) (remaining - 2 ^ k)"
        using r(1) s3(1-3) w by (subst seed_global_free_region.simps) (simp add: k_def Let_def)
      have pos: "(0::nat) < 2 ^ k" by simp
      have dec: "remaining - 2 ^ k < remaining" using r(1) pos by (rule diff_less [rotated])
      have part: "{start ..< start + remaining} = {start ..< start + 2 ^ k} \<union> {start + 2 ^ k ..< start + 2 ^ k + (remaining - 2 ^ k)}"
        using kb(3) by auto
      have pre: "start + 2 ^ k + (remaining - 2 ^ k) < usize_range"
        "{start + 2 ^ k ..< start + 2 ^ k + (remaining - 2 ^ k)} \<inter> (V \<union> {start ..< start + 2 ^ k}) = {}"
        using less.prems(4,5) kb(3) by (linarith, auto simp: part)
      show ?thesis
      proof (rule less.IH [OF dec _ _ s3(4) pre])
        fix s' L' own' assume s': "seed_global_free_region s3 (start + 2 ^ k) (remaining - 2 ^ k) = Some (Ok (), s')"
          "seeded s' L' own' (V \<union> {start ..< start + 2 ^ k} \<union> {start + 2 ^ k ..< start + 2 ^ k + (remaining - 2 ^ k)})"
          "untouched (Collect outer) s3 L3 s' L'" "length (L3 LUnused) \<le> length (L' LUnused) + (remaining - 2 ^ k)"
        show ?thesis
          by (rule ok [OF _ _ untouched_trans [OF s3(6) s'(3)]])
            (use s' eq part s3(5) Cons dec in \<open>simp_all add: Un_assoc\<close>)
      next
        fix s' assume s': "seed_global_free_region s3 (start + 2 ^ k) (remaining - 2 ^ k) = Some (Err MetadataExhausted, s')"
          "length (L3 LUnused) < remaining - 2 ^ k"
        have "length (L LUnused) < remaining" using s'(2) s3(5) Cons dec pos kb(3) by (simp, linarith)
        then show ?thesis using s'(1) eq by (intro metadata) simp_all
      qed
    qed
  qed
qed

lemma frames_of_take:
  assumes "n < length xs"
  shows "frames_of (take (Suc n) xs) = frames_of (take n xs) \<union> {fst (xs ! n) ..< fst (xs ! n) + snd (xs ! n)}"
  using assms by (simp add: take_Suc_conv_app_nth)

lemma range_fresh:
  assumes "ranges_ok xs" "n < length xs"
  shows "{fst (xs ! n) ..< fst (xs ! n) + snd (xs ! n)} \<inter> frames_of (take n xs) = {}"
    "fst (xs ! n) + snd (xs ! n) < usize_range"
proof -
  have "fst d + snd d < fst (xs ! n)" if d: "d \<in> set (take n xs)" for d
  proof -
    obtain m where "m < n" "d = xs ! m" using d assms(2) by (auto simp: in_set_conv_nth)
    then show ?thesis using assms by (auto simp: ranges_ok_def sorted_wrt_iff_nth_less)
  qed
  then show "{fst (xs ! n) ..< fst (xs ! n) + snd (xs ! n)} \<inter> frames_of (take n xs) = {}"
    by (fastforce simp: frames_of_def)
  show "fst (xs ! n) + snd (xs ! n) < usize_range" using assms nth_mem [OF assms(2)] by (auto simp: ranges_ok_def)
qed

lemma seed_ranges_spec:
  assumes "seeded s L own (frames_of (take n xs))" "xs = live (usable_ranges s)" "n \<le> length xs"
  obtains (ok) s' L' own' where "seed_ranges s [n..<length xs] = Some (Ok (), s')" "seeded s' L' own' (frames_of xs)"
      "untouched (Collect outer) s L s' L'"
  | (metadata) s' where "seed_ranges s [n..<length xs] = Some (Err MetadataExhausted, s')"
      "length (L LUnused) < sum_list (map snd (drop n xs))"
  using assms
proof (induction "length xs - n" arbitrary: s L own n thesis)
  case 0
  then show ?case by (intro "0.prems"(1) [OF _ _ untouched_refl]) simp_all
next
  case (Suc d)
  note ok = Suc.prems(1) and metadata = Suc.prems(2) and S = Suc.prems(3)
  have n: "n < length xs" using Suc.hyps(2) by simp
  have cfg: "config_ok s" using S lists_okD(2) by (auto simp: seeded_def)
  then have rl: "rl_ok (usable_ranges s)" "ranges_ok xs" using Suc.prems(4) by (simp_all add: config_ok_def)
  have get: "rl_get (usable_ranges s) n = Some (xs ! n)"
    using live_nth [OF rl(1)] live_length [OF rl(1)] n Suc.prems(4) by (simp add: rl_get_def)
  have upt: "[n..<length xs] = n # [Suc n..<length xs]" using n by (simp add: upt_conv_Cons)
  obtain a b where ab: "xs ! n = (a, b)" by (cases "xs ! n") simp
  have fresh: "a + b < usize_range" "{a ..< a + b} \<inter> frames_of (take n xs) = {}"
    using range_fresh [OF rl(2) n] by (simp_all add: ab)
  have ext: "frames_of (take n xs) \<union> {a ..< a + b} = frames_of (take (Suc n) xs)"
    using frames_of_take [OF n] by (simp add: ab)
  have sum: "sum_list (map snd (drop n xs)) = b + sum_list (map snd (drop (Suc n) xs))"
    using Cons_nth_drop_Suc [OF n] ab by (metis list.simps(9) sum_list.Cons snd_conv)
  show ?case
  proof (rule seed_region_spec [OF S fresh])
    fix s1 L1 own1 assume s1: "seed_global_free_region s a b = Some (Ok (), s1)"
      "seeded s1 L1 own1 (frames_of (take n xs) \<union> {a ..< a + b})" "untouched (Collect outer) s L s1 L1"
      "length (L LUnused) \<le> length (L1 LUnused) + b"
    have eq: "seed_ranges s [n..<length xs] = seed_ranges s1 [Suc n..<length xs]" using s1(1) get upt ab by simp
    have pre: "d = length xs - Suc n" "seeded s1 L1 own1 (frames_of (take (Suc n) xs))"
      "xs = live (usable_ranges s1)" "Suc n \<le> length xs"
      using Suc.hyps(2) s1(2) ext Suc.prems(4) fixed_partD(4) [OF untouched_fixed [OF s1(3)]] n by simp_all
    show ?thesis
    proof (rule Suc.hyps(1) [OF pre(1) _ _ pre(2-4)])
      fix s' L' own' assume s': "seed_ranges s1 [Suc n..<length xs] = Some (Ok (), s')" "seeded s' L' own' (frames_of xs)"
        "untouched (Collect outer) s1 L1 s' L'"
      show ?thesis by (rule ok [OF _ s'(2) untouched_trans [OF s1(3) s'(3)]]) (simp only: eq s'(1))
    next
      fix s' assume s': "seed_ranges s1 [Suc n..<length xs] = Some (Err MetadataExhausted, s')"
        "length (L1 LUnused) < sum_list (map snd (drop (Suc n) xs))"
      have "length (L LUnused) < sum_list (map snd (drop n xs))" using s1(4) s'(2) sum by linarith
      then show ?thesis using s'(1) eq by (intro metadata) simp_all
    qed
  next
    fix s' assume "seed_global_free_region s a b = Some (Err MetadataExhausted, s')" "length (L LUnused) < b"
    then show ?thesis using get upt ab sum by (intro metadata) simp_all
  qed
qed

section \<open>Construction\<close>

lemma blank_seeded:
  assumes "cap < usize_range" "rl_ok r" "ranges_ok (live r)" "0 < card (frames_of (live r))" "cpus \<le> mc"
    and "\<forall>f \<in> frames_of (live r). f * PAGE_SIZE < usize_range"
  shows "seeded (blank mc cap r cpus (card (frames_of (live r)))) (blank_contents cap) (\<lambda>_. Some LUnused) {}"
proof -
  let ?s = "blank mc cap r cpus (card (frames_of (live r)))"
  have "config_ok ?s" using assms by (simp add: config_ok_def blank_def usable_def)
  moreover have "placed (cpu_count ?s) LUnused (blk ?s i)" for i
    by (simp add: blk_def blank_def pool_init_def EMPTY_def)
  ultimately have "lists_ok ?s (blank_contents cap) (\<lambda>_. Some LUnused)"
    using blank_rep [OF assms(1)] by (simp add: lists_ok_def blank_contents_def)
  then show ?thesis by (simp add: seeded_def held_def active_def tiling_def disjoint_family_on_def)
qed

lemma init_cases:
  assumes r: "rl_ok r" "ranges_ok (live r)" "\<forall>f \<in> frames_of (live r). f * PAGE_SIZE < usize_range"
    and cap: "cap < usize_range" and cpus: "0 < cpus" "cpus \<le> mc"
  obtains (empty) "init_from_usable_ranges mc cap r cpus = Some (Err InvalidMemoryMap)" "frames_of (live r) = {}"
  | (metadata) "init_from_usable_ranges mc cap r cpus = Some (Err MetadataExhausted)" "cap < card (frames_of (live r))"
  | (ok) s where "init_from_usable_ranges mc cap r cpus = Some (Ok s)" "buddy_inv s" "allocated s = Map.empty"
      "usable s = frames_of (live r)" "cpu_count s = cpus"
proof -
  let ?F = "card (frames_of (live r))" and ?s = "blank mc cap r cpus (card (frames_of (live r)))"
  have total: "rl_total_frames r = Some (Ok ?F)" by (rule rl_total_frames_spec [OF r(1,2)])
  show ?thesis
  proof (cases "?F = 0")
    case True
    then show ?thesis
      using total cpus by (intro empty) (simp_all add: init_from_usable_ranges_def)
  next
    case False
    then have S: "seeded ?s (blank_contents cap) (\<lambda>_. Some LUnused) (frames_of (take 0 (live r)))"
      using blank_seeded [OF cap r(1,2) _ cpus(2) r(3)] by (simp add: card_gt_0_iff)
    have live: "live r = live (usable_ranges ?s)" by (simp add: blank_def)
    have "floor_log2 ?F < MAX_ORDER_SLOTS"
      using floor_log2_bounds(1) [of ?F] card_frames_of_bound [OF r(2)] False by (simp add: MAX_ORDER_SLOTS_def)
    then have eq: "init_from_usable_ranges mc cap r cpus = (case seed_ranges ?s [0..<length (live r)] of
        None \<Rightarrow> None | Some (q, s) \<Rightarrow> (case q of Err e \<Rightarrow> Some (Err e) | Ok _ \<Rightarrow> Some (Ok s)))"
      using total cpus False live_length [OF r(1)]
      by (simp add: init_from_usable_ranges_def blank_def Option.bind_eq_Some_conv split: option.split)
    show ?thesis
    proof (rule seed_ranges_spec [OF S live])
      fix s' assume "seed_ranges ?s [0..<length (live r)] = Some (Err MetadataExhausted, s')"
        "length (blank_contents cap LUnused) < sum_list (map snd (drop 0 (live r)))"
      then show ?thesis using eq card_frames_of [OF r(2)] by (intro metadata) (simp_all add: blank_contents_def)
    next
      fix s' L' own' assume s': "seed_ranges ?s [0..<length (live r)] = Some (Ok (), s')"
        "seeded s' L' own' (frames_of (live r))" "untouched (Collect outer) ?s (blank_contents cap) s' L'"
      note f = fixed_partD [OF untouched_fixed [OF s'(3)]]
      have u: "usable s' = frames_of (live r)" using f(4) by (simp add: usable_def blank_def)
      then have I: "idle s' L' own'" using s'(2) by (simp add: idle_def seeded_def)
      have "L' LAlloc = []" using untouchedD(1) [OF s'(3), of LAlloc] by (simp add: blank_contents_def)
      then have "allocated s' = Map.empty" by (simp add: allocated_eq [OF I] entries_def)
      then show ?thesis
        using eq s'(1) I u f(3) by (intro ok) (auto simp: buddy_inv_def blank_def)
    qed simp
  qed
qed

text \<open>What the boot loader has to promise of its map.\<close>

definition map_ok :: "memory_region list \<Rightarrow> bool" where
  "map_ok gs \<longleftrightarrow> (\<forall>g \<in> set gs. region_start g + PAGE_SIZE \<le> usize_range \<and> region_start g + region_len g < usize_range)
     \<and> sorted_wrt (\<lambda>g h. region_frames g \<inter> region_frames h = {}) gs"

definition map_frames :: "memory_region list \<Rightarrow> usize set" where
  "map_frames gs = (\<Union>g \<in> set gs. region_frames g)"

lemma bootstrap_cases:
  assumes gs: "map_ok gs" "length gs \<le> ranges" "ranges < usize_range"
    and cap: "cap < usize_range" and cpus: "0 < cpus" "cpus \<le> mc"
  obtains (empty) "bootstrap ranges mc cap gs cpus = Some (Err InvalidMemoryMap)" "map_frames gs = {}"
  | (metadata) "bootstrap ranges mc cap gs cpus = Some (Err MetadataExhausted)" "cap < card (map_frames gs)"
  | (ok) s where "bootstrap ranges mc cap gs cpus = Some (Ok s)" "buddy_inv s" "allocated s = Map.empty"
      "usable s = map_frames gs" "cpu_count s = cpus"
proof -
  let ?r = "rl_clear (rl_new ranges)"
  have r: "rl_ok ?r" "ranges_ok (live ?r)" "frames_of (live ?r) = {}" "rl_len ?r = 0" "length (rl_entries ?r) = ranges"
    using gs(3) by (simp_all add: rl_clear_def rl_new_def rl_ok_def live_def ranges_ok_def)
  obtain r' where r': "collect_regions gs ?r = Some (Ok (), r')" "rl_ok r'" "ranges_ok (live r')"
    "frames_of (live r') = map_frames gs"
    using collect_regions_spec [OF r(1,2), of gs] gs r(3-5) by (auto simp: map_ok_def map_frames_def)
  have "f * PAGE_SIZE < usize_range" if "f \<in> map_frames gs" for f
  proof -
    obtain g where g: "g \<in> set gs" "f * PAGE_SIZE + PAGE_SIZE \<le> region_start g + region_len g"
      using \<open>f \<in> map_frames gs\<close> by (auto simp: map_frames_def region_frames_def)
    then have "region_start g + region_len g < usize_range" using gs(1) by (simp add: map_ok_def)
    then show ?thesis using g(2) by linarith
  qed
  then have bound: "\<forall>f \<in> frames_of (live r'). f * PAGE_SIZE < usize_range" using r'(4) by simp
  have eq: "bootstrap ranges mc cap gs cpus = init_from_usable_ranges mc cap r' cpus"
    using cpus r'(1) by (simp add: bootstrap_def collect_usable_ranges_def)
  show ?thesis
    by (rule init_cases [OF r'(2,3) bound cap cpus]) (use empty metadata ok r'(4) eq in simp_all)
qed

end
