(* ===== verification/Frame_Allocator.thy ===== *)
theory Frame_Allocator
  imports Buddy_Boot
begin

text \<open>
  The trait \<open>FrameAllocator\<close> of \<open>aether-frame/src/mm/frame.rs\<close> as an interface: what a
  client may rely on when it allocates, retains and releases physical frames, proved of
  the buddy allocator by an interpretation. A state is seen through its ledger, the map
  from the first frame of every live block to its order and reference count.
\<close>

section \<open>The contract\<close>

type_synonym ledger = "usize \<rightharpoonup> usize \<times> nat"

definition taken :: "ledger \<Rightarrow> usize set" where
  "taken m = {g. \<exists>f k r. m f = Some (k, r) \<and> f \<le> g \<and> g < f + 2 ^ k}"

definition aligned_frame :: "phys_frame \<Rightarrow> bool" where
  "aligned_frame f \<longleftrightarrow> start_address f = frame_index f * PAGE_SIZE"

locale frame_allocator =
  fixes inv :: "'s \<Rightarrow> bool"
    and view :: "'s \<Rightarrow> ledger"
    and ram :: "'s \<Rightarrow> usize set"
    and alloc :: "'s \<Rightarrow> usize \<Rightarrow> ('s, frame_alloc_error, phys_frame) run"
    and retain :: "'s \<Rightarrow> phys_frame \<Rightarrow> ('s, frame_alloc_error, nat) run"
    and release :: "'s \<Rightarrow> phys_frame \<Rightarrow> usize \<Rightarrow> ('s, frame_alloc_error, nat) run"
    and ref_count :: "'s \<Rightarrow> phys_frame \<Rightarrow> nat option option"
  assumes alloc_returns: "inv s \<Longrightarrow> n < usize_range \<Longrightarrow> \<exists>r s'. alloc s n = Some (r, s')"
    and alloc_keeps: "inv s \<Longrightarrow> n < usize_range \<Longrightarrow> alloc s n = Some (r, s') \<Longrightarrow> inv s' \<and> ram s' = ram s"
    and alloc_ok: "inv s \<Longrightarrow> n < usize_range \<Longrightarrow> alloc s n = Some (Ok f, s') \<Longrightarrow>
      aligned_frame f \<and> n \<le> 2 ^ ceil_log2 n \<and> view s' = (view s)(frame_index f \<mapsto> (ceil_log2 n, 1)) \<and>
      {frame_index f ..< frame_index f + 2 ^ ceil_log2 n} \<subseteq> ram s - taken (view s)"
    and alloc_err: "inv s \<Longrightarrow> n < usize_range \<Longrightarrow> alloc s n = Some (Err e, s') \<Longrightarrow> view s' = view s"
    and retain_returns: "inv s \<Longrightarrow> \<exists>r s'. retain s f = Some (r, s') \<and> inv s' \<and> ram s' = ram s"
    and retain_ok: "inv s \<Longrightarrow> retain s f = Some (Ok c, s') \<Longrightarrow>
      \<exists>k q. c = q + 1 \<and> view s (frame_index f) = Some (k, q) \<and> view s' = (view s)(frame_index f \<mapsto> (k, c))"
    and retain_err: "inv s \<Longrightarrow> retain s f = Some (Err e, s') \<Longrightarrow> s' = s"
    and retain_live: "inv s \<Longrightarrow> aligned_frame f \<Longrightarrow> view s (frame_index f) = Some (k, q) \<Longrightarrow> q + 1 < 2 ^ 32 \<Longrightarrow>
      \<exists>s'. retain s f = Some (Ok (q + 1), s')"
    and release_returns: "inv s \<Longrightarrow> n < usize_range \<Longrightarrow>
      \<exists>r s'. release s f n = Some (r, s') \<and> inv s' \<and> ram s' = ram s"
    and release_ok: "inv s \<Longrightarrow> n < usize_range \<Longrightarrow> release s f n = Some (Ok c, s') \<Longrightarrow>
      view s (frame_index f) = Some (ceil_log2 n, c + 1) \<and>
      view s' = (view s)(frame_index f := if c = 0 then None else Some (ceil_log2 n, c))"
    and release_err: "inv s \<Longrightarrow> n < usize_range \<Longrightarrow> release s f n = Some (Err e, s') \<Longrightarrow> s' = s"
    and release_live: "inv s \<Longrightarrow> n < usize_range \<Longrightarrow> aligned_frame f \<Longrightarrow>
      view s (frame_index f) = Some (ceil_log2 n, c + 1) \<Longrightarrow> 0 < n \<Longrightarrow> \<exists>s'. release s f n = Some (Ok c, s')"
    and ref_count_eq: "inv s \<Longrightarrow> aligned_frame f \<Longrightarrow> ref_count s f = Some (map_option snd (view s (frame_index f)))"
begin

lemma alloc_fresh:
  assumes "inv s" "n < usize_range" "alloc s n = Some (Ok f, s')"
  shows "view s (frame_index f) = None"
proof (rule ccontr)
  assume "view s (frame_index f) \<noteq> None"
  then obtain k r where "view s (frame_index f) = Some (k, r)" by auto
  then have "frame_index f \<in> taken (view s)" by (force simp: taken_def)
  then show False using alloc_ok [OF assms] by (auto simp: subset_iff)
qed

text \<open>Giving back what was just allocated restores the ledger.\<close>

lemma alloc_release:
  assumes "inv s" "n < usize_range" "0 < n" "alloc s n = Some (Ok f, s1)"
  obtains s2 where "release s1 f n = Some (Ok 0, s2)" "view s2 = view s" "inv s2"
proof -
  note ok = alloc_ok [OF assms(1,2,4)] and i1 = alloc_keeps [OF assms(1,2,4)]
  obtain s2 where s2: "release s1 f n = Some (Ok 0, s2)"
    using release_live [of s1 n f 0] ok i1 assms(2,3) by auto
  moreover have "view s2 = view s"
    using release_ok [OF _ assms(2) s2] i1 ok alloc_fresh [OF assms(1,2,4)] by (auto simp: fun_upd_idem)
  moreover have "inv s2" using release_returns [of s1 n f] i1 assms(2) s2 by auto
  ultimately show ?thesis by (rule that)
qed

text \<open>A retained frame survives one release.\<close>

lemma retain_release:
  assumes "inv s" "n < usize_range" "0 < n" "aligned_frame f" "view s (frame_index f) = Some (ceil_log2 n, q)" "0 < q"
    and "retain s f = Some (Ok c, s1)"
  obtains s2 where "release s1 f n = Some (Ok q, s2)" "view s2 = view s" "inv s2"
proof -
  have i1: "inv s1" using retain_returns [OF assms(1), of f] assms(7) by auto
  have v1: "view s1 = (view s)(frame_index f \<mapsto> (ceil_log2 n, q + 1))" "c = q + 1"
    using retain_ok [OF assms(1,7)] assms(5) by auto
  obtain s2 where s2: "release s1 f n = Some (Ok q, s2)"
    using release_live [OF i1 assms(2,4), of q] v1 assms(3) by auto
  moreover have "view s2 = view s"
    using release_ok [OF i1 assms(2) s2] v1 assms(5,6) by (auto simp: fun_upd_idem)
  moreover have "inv s2" using release_returns [OF i1 assms(2), of f] s2 by auto
  ultimately show ?thesis by (rule that)
qed

text \<open>Blocks that are live at the same time never share a frame.\<close>

lemma alloc_disjoint:
  assumes "inv s" "n < usize_range" "alloc s n = Some (Ok f, s')" "view s g = Some (k, r)"
  shows "{frame_index f ..< frame_index f + 2 ^ ceil_log2 n} \<inter> {g ..< g + 2 ^ k} = {}"
proof -
  have "{g ..< g + 2 ^ k} \<subseteq> taken (view s)" using assms(4) by (force simp: taken_def)
  then show ?thesis using alloc_ok [OF assms(1-3)] by blast
qed

end

section \<open>The buddy allocator as a frame allocator\<close>

lemma aligned_frame_iff: "aligned_frame f \<longleftrightarrow> checked_addr_from_frame f = Ok (start_address f)"
proof -
  have "start_address f AND (PAGE_SIZE - 1) = start_address f mod PAGE_SIZE"
    using take_bit_eq_mask [of PAGE_SHIFT "start_address f"]
    by (simp add: PAGE_SIZE_def mask_eq_exp_minus_1 take_bit_eq_mod)
  moreover have "start_address f mod PAGE_SIZE = 0 \<longleftrightarrow> start_address f = start_address f div PAGE_SIZE * PAGE_SIZE"
    using div_mult_mod_eq [of "start_address f" PAGE_SIZE] by linarith
  ultimately show ?thesis
    by (auto simp: aligned_frame_def checked_addr_from_frame_def frame_index_def drop_bit_eq_div PAGE_SIZE_def)
qed

lemma unaligned_frame: "\<not> aligned_frame f \<Longrightarrow> checked_addr_from_frame f = Err InvalidFrame"
  by (simp add: aligned_frame_iff checked_addr_from_frame_def split: if_splits)

lemma frame_of_block: "aligned_frame \<lparr>start_address = f * PAGE_SIZE\<rparr>" "frame_index \<lparr>start_address = f * PAGE_SIZE\<rparr> = f"
  by (simp_all add: aligned_frame_def frame_index_def drop_bit_eq_div PAGE_SIZE_def)

lemma allocated_frames_taken: "allocated_frames s = taken (allocated s)"
  by (simp add: allocated_frames_def taken_def)

text \<open>The state an operation finds: the invariant, on a CPU the allocator knows.\<close>

definition buddy_ready :: "usize \<Rightarrow> buddy \<Rightarrow> bool" where
  "buddy_ready cpuid s \<longleftrightarrow> buddy_inv s \<and> cpuid < cpu_count s"

lemma buddy_readyI: "idle s' L' own' \<Longrightarrow> fixed_part s' = fixed_part s \<Longrightarrow> buddy_ready c s \<Longrightarrow>
    buddy_ready c s'"
  using fixed_partD(3) [of s' s] by (auto simp: buddy_ready_def buddy_inv_def)

lemma alloc_frame_outcome:
  assumes "buddy_ready c s" "n < usize_range"
  obtains (ok) f s' where "alloc_frame_4k_on_cpu s c n = Some (Ok (f * PAGE_SIZE), s')" "buddy_ready c s'" "fixed_part s' = fixed_part s"
      "allocated s' = (allocated s)(f \<mapsto> (ceil_log2 n, 1))" "n \<le> 2 ^ ceil_log2 n"
      "{f ..< f + 2 ^ ceil_log2 n} \<subseteq> usable s - taken (allocated s)"
  | (err) e s' where "alloc_frame_4k_on_cpu s c n = Some (Err e, s')" "buddy_ready c s'" "fixed_part s' = fixed_part s"
      "allocated s' = allocated s"
proof -
  obtain L own where I: "idle s L own" using assms(1) by (auto simp: buddy_ready_def buddy_inv_def)
  show ?thesis
  proof (rule alloc_frame_cases [OF I assms(2), of c])
    fix s' L' own' assume s': "alloc_frame_4k_on_cpu s c n = Some (Err MetadataExhausted, s')" "idle s' L' own'"
      "untouched (beside c (ceil_log2 n)) s L s' L'"
    show ?thesis
      using buddy_readyI [OF s'(2) untouched_fixed [OF s'(3)] assms(1)] allocated_untouched [OF I s'(2,3)]
        untouched_fixed [OF s'(3)]
      by (intro err [OF s'(1)]) simp_all
  next
    fix f s' L' own' assume s': "alloc_frame_4k_on_cpu s c n = Some (Ok (f * PAGE_SIZE), s')" "idle s' L' own'"
      "fixed_part s' = fixed_part s" "allocated s' = (allocated s)(f \<mapsto> (ceil_log2 n, 1))"
      "{f ..< f + 2 ^ ceil_log2 n} \<subseteq> usable s" "{f ..< f + 2 ^ ceil_log2 n} \<inter> allocated_frames s = {}"
      "n \<le> 2 ^ ceil_log2 n"
    show ?thesis
      using buddy_readyI [OF s'(2,3) assms(1)] s'(3-7)
      by (intro ok [OF s'(1)]) (auto simp: allocated_frames_taken)
  qed (rule err [OF _ assms(1) refl refl], assumption)+
qed

lemma buddy_alloc_outcome:
  assumes "buddy_ready c s" "n < usize_range"
  obtains (ok) f s' where "buddy_alloc c b s n = Some (Ok \<lparr>start_address = f * PAGE_SIZE\<rparr>, s')" "buddy_ready c s'" "fixed_part s' = fixed_part s"
      "allocated s' = (allocated s)(f \<mapsto> (ceil_log2 n, 1))" "n \<le> 2 ^ ceil_log2 n"
      "{f ..< f + 2 ^ ceil_log2 n} \<subseteq> usable s - taken (allocated s)"
  | (err) e s' where "buddy_alloc c b s n = Some (Err e, s')" "buddy_ready c s'" "fixed_part s' = fixed_part s"
      "allocated s' = allocated s"
proof (rule alloc_frame_outcome [OF assms])
  fix f s' assume "alloc_frame_4k_on_cpu s c n = Some (Ok (f * PAGE_SIZE), s')" "buddy_ready c s'" "fixed_part s' = fixed_part s"
      "allocated s' = (allocated s)(f \<mapsto> (ceil_log2 n, 1))" "n \<le> 2 ^ ceil_log2 n"
      "{f ..< f + 2 ^ ceil_log2 n} \<subseteq> usable s - taken (allocated s)"
  then show ?thesis by (intro ok) (simp_all add: buddy_alloc_def)
next
  fix e s1 assume s1: "alloc_frame_4k_on_cpu s c n = Some (Err e, s1)" "buddy_ready c s1" "fixed_part s1 = fixed_part s"
    "allocated s1 = allocated s"
  show ?thesis
  proof (cases "e = OutOfMemory \<and> b")
    case False
    then show ?thesis by (intro err [OF _ s1(2-4), of e]) (auto simp: buddy_alloc_def s1(1))
  next
    case True
    show ?thesis
    proof (rule alloc_frame_outcome [OF s1(2) assms(2)])
      fix f s' assume "alloc_frame_4k_on_cpu s1 c n = Some (Ok (f * PAGE_SIZE), s')" "buddy_ready c s'" "fixed_part s' = fixed_part s1"
        "allocated s' = (allocated s1)(f \<mapsto> (ceil_log2 n, 1))" "n \<le> 2 ^ ceil_log2 n"
        "{f ..< f + 2 ^ ceil_log2 n} \<subseteq> usable s1 - taken (allocated s1)"
      then show ?thesis using True s1 fixed_part_usable [OF s1(3)] by (intro ok) (simp_all add: buddy_alloc_def)
    next
      fix e' s' assume "alloc_frame_4k_on_cpu s1 c n = Some (Err e', s')" "buddy_ready c s'" "fixed_part s' = fixed_part s1"
        "allocated s' = allocated s1"
      then show ?thesis using True s1 by (intro err [of e' s']) (simp_all add: buddy_alloc_def)
    qed
  qed
qed

lemma buddy_retain_outcome:
  assumes "buddy_ready c s"
  obtains (unaligned) "buddy_retain s f = Some (Err InvalidFrame, s)" "\<not> aligned_frame f"
  | (none) "buddy_retain s f = Some (Err InvalidFrame, s)" "allocated s (frame_index f) = None"
  | (full) k where "buddy_retain s f = Some (Err RefCountOverflow, s)" "allocated s (frame_index f) = Some (k, 2 ^ 32 - 1)"
  | (ok) k r s' where "buddy_retain s f = Some (Ok (r + 1), s')" "allocated s (frame_index f) = Some (k, r)"
      "buddy_ready c s'" "fixed_part s' = fixed_part s" "allocated s' = (allocated s)(frame_index f \<mapsto> (k, r + 1))"
proof (cases "aligned_frame f")
  case False
  then show ?thesis by (intro unaligned) (simp_all add: buddy_retain_def unaligned_frame)
next
  case True
  obtain L own where I: "idle s L own" using assms by (auto simp: buddy_ready_def buddy_inv_def)
  have eq: "buddy_retain s f = retain_frame s (frame_index f * PAGE_SIZE)"
    using True by (simp add: buddy_retain_def aligned_frame_iff [THEN iffD1] flip: aligned_frame_def) (simp add: aligned_frame_def)
  show ?thesis
  proof (rule retain_frame_cases [OF I, of "frame_index f"])
    fix k r s' assume s': "retain_frame s (frame_index f * PAGE_SIZE) = Some (Ok (r + 1), s')"
      "allocated s (frame_index f) = Some (k, r)" "idle s' L own"
      "allocated s' = (allocated s)(frame_index f \<mapsto> (k, r + 1))" "fixed_part s' = fixed_part s"
    then show ?thesis using buddy_readyI [OF s'(3,5) assms] by (intro ok [OF _ s'(2)]) (simp_all add: eq)
  qed (use none full eq in simp_all)
qed

lemma buddy_release_outcome:
  assumes "buddy_ready c s" "n < usize_range"
  obtains (err) e where "buddy_release c s f n = Some (Err e, s)"
      "\<not> (aligned_frame f \<and> 0 < n \<and> (\<exists>q. allocated s (frame_index f) = Some (ceil_log2 n, q)))"
  | (ok) q s' where "buddy_release c s f n = Some (Ok q, s')" "allocated s (frame_index f) = Some (ceil_log2 n, q + 1)"
      "aligned_frame f" "0 < n" "buddy_ready c s'" "fixed_part s' = fixed_part s"
      "allocated s' = (allocated s)(frame_index f := if q = 0 then None else Some (ceil_log2 n, q))"
proof (cases "aligned_frame f")
  case False
  then show ?thesis by (intro err) (simp_all add: buddy_release_def unaligned_frame)
next
  case True
  obtain L own where I: "idle s L own" using assms(1) by (auto simp: buddy_ready_def buddy_inv_def)
  have c: "c < cpu_count s" using assms(1) by (simp add: buddy_ready_def)
  have addr: "checked_addr_from_frame f = Ok (frame_index f * PAGE_SIZE)"
    using True aligned_frame_iff [of f] by (simp add: aligned_frame_def)
  show ?thesis
  proof (rule order_for_count_cases [OF assms(2), of "max_order s"])
    assume a: "order_for_count n (max_order s) = Err InvalidCount" "n = 0 \<or> 2 ^ max_order s < n"
    have "ceil_log2 n \<le> max_order s" if al: "allocated s (frame_index f) = Some (ceil_log2 n, q)" for q
    proof -
      obtain i where i: "i \<in> set (L LAlloc)" "bn_order (blk s i) = ceil_log2 n"
        using al by (auto simp: map_of_entries [OF I])
      have "i \<in> active s own" using listed_active(1) [OF idleD(1) [OF I] i(1)] by simp
      then show ?thesis using idleD(6) [OF I] i(2) by (auto simp: tiling_def good_block_def)
    qed
    moreover have "n \<le> 2 ^ max_order s" if "ceil_log2 n \<le> max_order s" "0 < n"
      using ceil_log2_bounds(1) [OF that(2) assms(2)] power_increasing [OF that(1), of "2::nat"] by (simp del: power_increasing_iff)
    ultimately show ?thesis
      using a by (intro err [of InvalidCount]) (auto simp: buddy_release_def addr ensure_release_matches_count_def)
  next
    assume k: "order_for_count n (max_order s) = Ok (ceil_log2 n)" "0 < n"
    show ?thesis
    proof (rule find_allocated [OF I, of "frame_index f"])
      assume "find_allocation_index s (frame_index f) = Some None" "allocated s (frame_index f) = None"
      then show ?thesis
        by (intro err [of InvalidFrame]) (simp_all add: buddy_release_def addr ensure_release_matches_count_def k)
    next
      fix i ps qs
      assume a: "find_allocation_index s (frame_index f) = Some (Some i)"
        "allocated s (frame_index f) = Some (bn_order (blk s i), bn_refcount (blk s i))"
        "0 < bn_refcount (blk s i)" "bn_refcount (blk s i) < 2 ^ 32" "i < length (node_array s)"
      show ?thesis
      proof (cases "bn_order (blk s i) = ceil_log2 n")
        case False
        then show ?thesis
          using a by (intro err [of InvalidCount])
            (simp_all add: buddy_release_def addr ensure_release_matches_count_def k blk_fields)
      next
        case ord: True
        have w: "wsub (bn_refcount (blk s i)) 1 = bn_refcount (blk s i) - 1"
          using a(3,4) by (intro wsub_exact) (simp_all add: usize_range_def)
        have eq: "buddy_release c s f n =
            and_then (free_frame_on_cpu s c (frame_index f * PAGE_SIZE)) (\<lambda>_ s'. Some (Ok (bn_refcount (blk s i) - 1), s'))"
          using a ord w by (simp add: buddy_release_def addr ensure_release_matches_count_def k blk_fields)
        show ?thesis
        proof (rule free_frame_cases [OF I, of c "frame_index f"])
          fix j r s' assume s': "free_frame_on_cpu s c (frame_index f * PAGE_SIZE) = Some (Ok (), s')"
            "allocated s (frame_index f) = Some (j, r)" "1 < r" "idle s' L own"
            "allocated s' = (allocated s)(frame_index f \<mapsto> (j, r - 1))" "fixed_part s' = fixed_part s"
          have "j = ceil_log2 n" "r = bn_refcount (blk s i)" using s'(2) a(2) ord by simp_all
          then show ?thesis
            using s' a(2) ord True k(2) buddy_readyI [OF s'(4,6) assms(1)]
            by (intro ok [of "r - 1"]) (simp_all add: eq)
        next
          fix j s' L' own' assume s': "free_frame_on_cpu s c (frame_index f * PAGE_SIZE) = Some (Ok (), s')"
            "allocated s (frame_index f) = Some (j, 1)" "idle s' L' own'"
            "allocated s' = (allocated s)(frame_index f := None)" "fixed_part s' = fixed_part s"
          then show ?thesis
            using a(2) ord True k(2) buddy_readyI [OF s'(3,5) assms(1)] by (intro ok [of 0]) (simp_all add: eq)
        qed (use c a(2) in simp_all)
      qed
    qed
  qed
qed

lemma buddy_ref_count_eq:
  assumes "buddy_ready c s" "aligned_frame f"
  shows "buddy_ref_count s f = Some (map_option snd (allocated s (frame_index f)))"
proof -
  obtain L own where I: "idle s L own" using assms(1) by (auto simp: buddy_ready_def buddy_inv_def)
  have "checked_addr_from_frame f = Ok (frame_index f * PAGE_SIZE)"
    using assms(2) aligned_frame_iff [of f] by (simp add: aligned_frame_def)
  then have eq: "buddy_ref_count s f = ref_count_for_addr s (frame_index f * PAGE_SIZE)" by (simp add: buddy_ref_count_def)
  show ?thesis
    by (rule find_allocated [OF I, of "frame_index f"]) (simp_all add: eq ref_count_for_addr_def frame_number_aligned blk_fields)
qed

interpretation buddy_frames: frame_allocator "buddy_ready cpuid" allocated usable "buddy_alloc cpuid recovered"
  buddy_retain "buddy_release cpuid" buddy_ref_count
  for cpuid recovered
proof (unfold_locales, goal_cases)
  case (1 s n)
  then show ?case by (rule buddy_alloc_outcome [where b = recovered]) blast+
next
  case (2 s n r s')
  from 2(1,2) show ?case by (rule buddy_alloc_outcome [where b = recovered]) (use 2(3) in \<open>auto dest: fixed_part_usable\<close>)
next
  case (3 s n f s')
  from 3(1,2) show ?case
    by (rule buddy_alloc_outcome [where b = recovered]) (use 3(3) frame_of_block in auto)
next
  case (4 s n e s')
  from 4(1,2) show ?case by (rule buddy_alloc_outcome [where b = recovered]) (use 4(3) in auto)
next
  case (5 s f)
  then show ?case by (rule buddy_retain_outcome [where f = f]) (use 5 fixed_part_usable in blast)+
next
  case (6 s f c s')
  from 6(1) show ?case by (rule buddy_retain_outcome [where f = f]) (use 6(2) in auto)
next
  case (7 s f e s')
  from 7(1) show ?case by (rule buddy_retain_outcome [where f = f]) (use 7(2) in auto)
next
  case (8 s f k q)
  from 8(1) show ?case by (rule buddy_retain_outcome [where f = f]) (use 8 in auto)
next
  case (9 s n f)
  from 9 show ?case by (rule buddy_release_outcome [where f = f]) (use 9 fixed_part_usable in blast)+
next
  case (10 s n f c s')
  from 10(1,2) show ?case by (rule buddy_release_outcome [where f = f]) (use 10(3) in auto)
next
  case (11 s n f e s')
  from 11(1,2) show ?case by (rule buddy_release_outcome [where f = f]) (use 11(3) in auto)
next
  case (12 s n f c)
  from 12(1,2) show ?case by (rule buddy_release_outcome [where f = f]) (use 12 in auto)
next
  case (13 s f)
  then show ?case by (rule buddy_ref_count_eq)
qed

end
