(* ===== verification/Buddy_Check.thy ===== *)
theory Buddy_Check
  imports Frame_Allocator
begin

text \<open>
  The allocator's own accounting: \<open>free_pages\<close>, which adds up the lengths of the lists,
  and \<open>validate_invariants\<close>, the self check that walks every list. Under the invariant
  the count is exact and the self check accepts.
\<close>

section \<open>The self check\<close>

fun fits_some :: "usize \<Rightarrow> usize \<Rightarrow> (usize \<times> usize) list \<Rightarrow> bool" where
  "fits_some start end' [] = False"
| "fits_some start end' ((rs, rl) # ranges) = (case checked_add rs rl of
       None \<Rightarrow> False
     | Some re \<Rightarrow> if start \<ge> rs \<and> end' \<le> re then True else fits_some start end' ranges)"

definition block_fits_usable_ranges :: "usize \<Rightarrow> usize \<Rightarrow> (usize \<times> usize) list \<Rightarrow> bool" where
  "block_fits_usable_ranges start len ranges = (case checked_add start len of
       None \<Rightarrow> False
     | Some end' \<Rightarrow> fits_some start end' ranges)"

definition validate_block_shape :: "usize \<Rightarrow> usize \<Rightarrow> (usize \<times> usize) list \<Rightarrow> (string, unit) result" where
  "validate_block_shape start len ranges =
     (if len = 0 then Err ''block length cannot be zero''
      else if \<not> len dvd start then Err ''block is not aligned to its order''
      else if block_fits_usable_ranges start len ranges then Ok ()
      else Err ''block falls outside usable ranges'')"

definition validate_node_index :: "buddy \<Rightarrow> usize \<Rightarrow> bool list \<Rightarrow> (string, block_node) result" where
  "validate_node_index s node_index visited =
     (if node_index \<ge> length (node_array s) then Err ''node index out of bounds''
      else if visited ! node_index then Err ''metadata node appears in multiple lists''
      else Ok (node_array s ! node_index))"

text \<open>The local variables of the check: the marks, the blocks seen so far and their pages.\<close>

record survey =
  visited :: "bool list"
  sv_starts :: "usize list"
  sv_lens :: "usize list"
  block_count :: usize
  accounted_pages :: usize

text \<open>The part of the three list walks that they share: check the shape, mark and record.\<close>

definition record_block ::
    "buddy \<Rightarrow> usize \<Rightarrow> usize \<Rightarrow> usize \<Rightarrow> string \<Rightarrow> survey \<Rightarrow> (string, survey) result option" where
  "record_block s node_index start len overflow v = do {
     ranges \<leftarrow> as_slice (usable_ranges s);
     case validate_block_shape start len ranges of
       Err e \<Rightarrow> Some (Err e)
     | Ok _ \<Rightarrow> do {
         marks \<leftarrow> put (visited v) node_index True;
         ss \<leftarrow> put (sv_starts v) (block_count v) start;
         ls \<leftarrow> put (sv_lens v) (block_count v) len;
         case checked_add (accounted_pages v) len of
           None \<Rightarrow> Some (Err overflow)
         | Some pages \<Rightarrow> Some (Ok (v\<lparr>visited := marks, sv_starts := ss, sv_lens := ls,
             block_count := block_count v + 1, accounted_pages := pages\<rparr>))
       }
   }"

text \<open>
  A walk along one list: \<open>check\<close> is the list's own condition on a node (an error or none),
  \<open>size\<close> the length it records for it.
\<close>

partial_function (option) walk ::
    "buddy \<Rightarrow> (block_node \<Rightarrow> string option) \<Rightarrow> (block_node \<Rightarrow> usize) \<Rightarrow> string \<Rightarrow> usize option \<Rightarrow> usize \<Rightarrow> survey
      \<Rightarrow> (string, usize \<times> survey) result option" where [code]:
  "walk s check size' overflow cursor count v = (case cursor of
       None \<Rightarrow> Some (Ok (count, v))
     | Some node_index \<Rightarrow> (case validate_node_index s node_index (visited v) of
         Err e \<Rightarrow> Some (Err e)
       | Ok node \<Rightarrow> (case check node of
           Some e \<Rightarrow> Some (Err e)
         | None \<Rightarrow> do {
             r \<leftarrow> record_block s node_index (bn_start node) (size' node) overflow v;
             case r of
               Err e \<Rightarrow> Some (Err e)
             | Ok v' \<Rightarrow> walk s check size' overflow (bn_next node) (count + 1) v'
           })))"

definition check_allocated :: "buddy \<Rightarrow> block_node \<Rightarrow> string option" where
  "check_allocated s node =
     (if bn_refcount node = 0 then Some ''allocated block has zero refcount''
      else if bn_order node > max_order s then Some ''allocated block order exceeds max_order''
      else None)"

definition check_free :: "buddy \<Rightarrow> usize \<Rightarrow> block_node \<Rightarrow> string option" where
  "check_free s order node =
     (if order > max_order s then Some ''free block stored beyond max_order''
      else if bn_refcount node \<noteq> 0 then Some ''global free block has non-zero refcount''
      else if bn_order node \<noteq> order then Some ''global free block stored in wrong order list''
      else None)"

definition check_cached :: "buddy \<Rightarrow> usize \<Rightarrow> usize \<Rightarrow> block_node \<Rightarrow> string option" where
  "check_cached s cpu_id order node =
     (if cpu_id \<ge> cpu_count s then Some ''inactive cpu cache contains free blocks''
      else if bn_refcount node \<noteq> 0 then Some ''per-cpu free block has non-zero refcount''
      else if bn_order node \<noteq> order then Some ''per-cpu free block stored in wrong order list''
      else None)"

text \<open>One list: walk it, then compare the length with the recorded one.\<close>

definition check_list ::
    "buddy \<Rightarrow> (block_node \<Rightarrow> string option) \<Rightarrow> (block_node \<Rightarrow> usize) \<Rightarrow> string \<Rightarrow> string \<Rightarrow> usize option \<Rightarrow> usize
      \<Rightarrow> survey \<Rightarrow> (string, survey) result option" where
  "check_list s check size' overflow mismatch head len v = do {
     r \<leftarrow> walk s check size' overflow head 0 v;
     case r of
       Err e \<Rightarrow> Some (Err e)
     | Ok (count, v') \<Rightarrow> if count \<noteq> len then Some (Err mismatch) else Some (Ok v')
   }"

fun check_free_lists :: "buddy \<Rightarrow> usize list \<Rightarrow> survey \<Rightarrow> (string, survey) result option" where
  "check_free_lists s [] v = Some (Ok v)"
| "check_free_lists s (order # orders) v = do {
     head \<leftarrow> at (global_free_heads s) order;
     len \<leftarrow> at (global_free_lens s) order;
     r \<leftarrow> check_list s (check_free s order) (\<lambda>_. block_size order) ''global free page accounting overflow''
            ''global free list length mismatch'' head len v;
     case r of Err e \<Rightarrow> Some (Err e) | Ok v' \<Rightarrow> check_free_lists s orders v'
   }"

fun check_caches :: "buddy \<Rightarrow> (usize \<times> usize) list \<Rightarrow> survey \<Rightarrow> (string, survey) result option" where
  "check_caches s [] v = Some (Ok v)"
| "check_caches s ((cpu_id, order) # rest) v = do {
     c \<leftarrow> at (per_cpu s) cpu_id;
     head \<leftarrow> at (heads c) order;
     len \<leftarrow> at (lens c) order;
     r \<leftarrow> check_list s (check_cached s cpu_id order) (\<lambda>_. block_size order) ''per-cpu free page accounting overflow''
            ''per-cpu free list length mismatch'' head len v;
     case r of Err e \<Rightarrow> Some (Err e) | Ok v' \<Rightarrow> check_caches s rest v'
   }"

text \<open>The pairwise overlap test over the recorded blocks.\<close>

fun overlaps_right :: "survey \<Rightarrow> usize \<Rightarrow> usize \<Rightarrow> usize list \<Rightarrow> string option option" where
  "overlaps_right v left left_end [] = Some None"
| "overlaps_right v left left_end (right # rest) = do {
     ls \<leftarrow> at (sv_starts v) left;
     rs \<leftarrow> at (sv_starts v) right;
     rl \<leftarrow> at (sv_lens v) right;
     case checked_add rs rl of
       None \<Rightarrow> Some (Some ''block end overflow'')
     | Some right_end \<Rightarrow>
         if ls < right_end \<and> rs < left_end then Some (Some ''allocator blocks overlap'')
         else overlaps_right v left left_end rest
   }"

fun overlaps :: "survey \<Rightarrow> usize list \<Rightarrow> string option option" where
  "overlaps v [] = Some None"
| "overlaps v (left # rest) = do {
     ls \<leftarrow> at (sv_starts v) left;
     ll \<leftarrow> at (sv_lens v) left;
     case checked_add ls ll of
       None \<Rightarrow> Some (Some ''block end overflow'')
     | Some left_end \<Rightarrow> do {
         r \<leftarrow> overlaps_right v left left_end [left + 1..<block_count v];
         case r of Some e \<Rightarrow> Some (Some e) | None \<Rightarrow> overlaps v rest
       }
   }"

text \<open>The walk along the unused nodes.\<close>

partial_function (option) walk_unused ::
    "buddy \<Rightarrow> usize option \<Rightarrow> usize \<Rightarrow> bool list \<Rightarrow> (string, usize \<times> bool list) result option" where [code]:
  "walk_unused s cursor count marks = (case cursor of
       None \<Rightarrow> Some (Ok (count, marks))
     | Some node_index \<Rightarrow>
         if node_index \<ge> length (node_array s) then Some (Err ''node index out of bounds'')
         else if marks ! node_index then Some (Err ''metadata node appears in both active and unused lists'')
         else walk_unused s (bn_next (node_array s ! node_index)) (count + 1) (marks[node_index := True]))"

definition validate_invariants :: "buddy \<Rightarrow> (string, unit) result option" where
  "validate_invariants s =
     (if max_order s \<ge> MAX_ORDER_SLOTS then Some (Err ''max_order exceeds supported order slots'')
      else do {
        let cap = length (node_array s);
        r \<leftarrow> check_list s (check_allocated s) (\<lambda>node. block_size (bn_order node)) ''allocated page accounting overflow''
               ''allocation list length mismatch'' (allocations_head s) (allocation_len s)
               \<lparr>visited = replicate cap False, sv_starts = replicate cap 0, sv_lens = replicate cap 0,
                block_count = 0, accounted_pages = 0\<rparr>;
        case r of Err e \<Rightarrow> Some (Err e) | Ok v \<Rightarrow> do {
        r \<leftarrow> check_free_lists s [0..<MAX_ORDER_SLOTS] v;
        case r of Err e \<Rightarrow> Some (Err e) | Ok v \<Rightarrow> do {
        r \<leftarrow> check_caches s (List.product [0..<length (per_cpu s)] [0..<PER_CPU_CACHE_MAX_ORDER + 1]) v;
        case r of Err e \<Rightarrow> Some (Err e) | Ok v \<Rightarrow> do {
        r \<leftarrow> overlaps v [0..<block_count v];
        case r of Some e \<Rightarrow> Some (Err e) | None \<Rightarrow>
        if accounted_pages v \<noteq> total_frames s then Some (Err ''allocator page accounting mismatch'')
        else do {
          r \<leftarrow> walk_unused s (unused_head (nodes s)) 0 (visited v);
          case r of Err e \<Rightarrow> Some (Err e) | Ok (count, marks) \<Rightarrow>
          if count \<noteq> unused_len (nodes s) then Some (Err ''unused node count mismatch'')
          else if \<not> list_all id marks then Some (Err ''metadata node leaked from all lists'')
          else Some (Ok ())
        }}}}
      })"

section \<open>The walks\<close>

lemma fits_some_iff:
  "ranges_ok xs \<Longrightarrow> fits_some a b xs \<longleftrightarrow> (\<exists>(rs, rl) \<in> set xs. rs \<le> a \<and> b \<le> rs + rl)"
proof (induction xs)
  case (Cons e xs)
  obtain rs rl where e: "e = (rs, rl)" by (cases e)
  have "ranges_ok xs" "rs + rl < usize_range" using Cons.prems e by (auto simp: ranges_ok_Cons)
  then show ?case using Cons.IH by (auto simp: e checked_add_def)
qed simp

text \<open>A block of usable frames lies inside one range: the ranges have gaps between them.\<close>

lemma interval_in_range:
  assumes "ranges_ok xs" "{a ..< a + n} \<subseteq> frames_of xs" "0 < n"
  shows "\<exists>(rs, rl) \<in> set xs. rs \<le> a \<and> a + n \<le> rs + rl"
  using assms(2,3)
proof (induction n)
  case (Suc n)
  show ?case
  proof (cases "n = 0")
    case True
    then have "a \<in> frames_of xs" using Suc.prems(1) by auto
    then obtain e where e: "e \<in> set xs" "fst e \<le> a" "a < fst e + snd e" by (auto simp: frames_of_def)
    show ?thesis by (rule bexI [OF _ e(1)]) (use e True in \<open>simp add: split_beta\<close>)
  next
    case False
    have "{a ..< a + n} \<subseteq> frames_of xs" using Suc.prems(1) by auto
    then obtain rs rl where r: "(rs, rl) \<in> set xs" "rs \<le> a" "a + n \<le> rs + rl" using Suc.IH False by auto
    have "a + n \<in> frames_of xs" using Suc.prems(1) by (auto simp: subset_iff)
    then obtain qs ql where q: "(qs, ql) \<in> set xs" "qs \<le> a + n" "a + n < qs + ql" by (auto simp: frames_of_def)
    show ?thesis
    proof (cases "(qs, ql) = (rs, rl)")
      case True
      then show ?thesis using r q by (intro bexI [of _ "(rs, rl)"]) auto
    next
      case ne: False
      obtain i j where ij: "i < length xs" "xs ! i = (rs, rl)" "j < length xs" "xs ! j = (qs, ql)"
        using r(1) q(1) by (metis in_set_conv_nth)
      then have "i < j \<or> j < i" using ne by (metis linorder_neqE_nat)
      then have "rs + rl < qs \<or> qs + ql < rs"
        using assms(1) ij sorted_wrt_nth_less [of "\<lambda>d e. fst d + snd d < fst e" xs i j]
          sorted_wrt_nth_less [of "\<lambda>d e. fst d + snd d < fst e" xs j i] by (auto simp: ranges_ok_def)
      then show ?thesis using r q by linarith
    qed
  qed
qed simp

lemma shape_accepted:
  assumes "config_ok s" "good_block (max_order s) (usable s) n"
  shows "as_slice (usable_ranges s) = Some (live (usable_ranges s))"
    "validate_block_shape (bn_start n) (2 ^ bn_order n) (live (usable_ranges s)) = Ok ()"
proof -
  show "as_slice (usable_ranges s) = Some (live (usable_ranges s))"
    using assms(1) by (simp add: as_slice_def live_def config_ok_def rl_ok_def)
  have ok: "ranges_ok (live (usable_ranges s))" using assms(1) by (simp add: config_ok_def)
  have "\<exists>(rs, rl) \<in> set (live (usable_ranges s)). rs \<le> bn_start n \<and> bn_start n + 2 ^ bn_order n \<le> rs + rl"
    by (rule interval_in_range [OF ok]) (use assms(2) in \<open>simp_all add: good_block_def block_frames_def usable_def\<close>)
  then have "block_fits_usable_ranges (bn_start n) (2 ^ bn_order n) (live (usable_ranges s))"
    using good_block_bound(1) [OF assms] fits_some_iff [OF ok]
    by (simp add: block_fits_usable_ranges_def checked_add_def)
  then show "validate_block_shape (bn_start n) (2 ^ bn_order n) (live (usable_ranges s)) = Ok ()"
    using assms(2) by (simp add: validate_block_shape_def good_block_def)
qed

text \<open>What the survey holds after recording the nodes of a list.\<close>

definition pages :: "buddy \<Rightarrow> usize list \<Rightarrow> nat" where
  "pages s is = (\<Sum>i \<leftarrow> is. 2 ^ bn_order (blk s i))"

definition surveyed :: "buddy \<Rightarrow> usize list \<Rightarrow> survey \<Rightarrow> bool" where
  "surveyed s is v \<longleftrightarrow> visited v = map (\<lambda>i. i \<in> set is) [0..<length (node_array s)]
     \<and> length (sv_starts v) = length (node_array s) \<and> length (sv_lens v) = length (node_array s)
     \<and> block_count v = length is \<and> accounted_pages v = pages s is
     \<and> (\<forall>n < length is. sv_starts v ! n = bn_start (blk s (is ! n)) \<and> sv_lens v ! n = 2 ^ bn_order (blk s (is ! n)))"

lemma pages_append [simp]: "pages s (is @ js) = pages s is + pages s js"
  by (simp add: pages_def)

lemma marks_update:
  "i < n \<Longrightarrow> (map (\<lambda>j. j \<in> set is) [0..<n])[i := True] = map (\<lambda>j. j \<in> set (is @ [i])) [0..<n]"
  by (rule nth_equalityI) (auto simp: nth_list_update)

lemma record_block_spec:
  assumes "surveyed s is v" "config_ok s" "i < length (node_array s)" "good_block (max_order s) (usable s) (blk s i)"
    and "length is < length (node_array s)" "pages s (is @ [i]) < usize_range"
  obtains v' where "record_block s i (bn_start (blk s i)) (2 ^ bn_order (blk s i)) msg v = Some (Ok v')" "surveyed s (is @ [i]) v'"
proof -
  let ?v = "v\<lparr>visited := (visited v)[i := True], sv_starts := (sv_starts v)[block_count v := bn_start (blk s i)],
    sv_lens := (sv_lens v)[block_count v := 2 ^ bn_order (blk s i)],
    block_count := block_count v + 1, accounted_pages := accounted_pages v + 2 ^ bn_order (blk s i)\<rparr>"
  note sv = assms(1) [unfolded surveyed_def]
  have "record_block s i (bn_start (blk s i)) (2 ^ bn_order (blk s i)) msg v = Some (Ok ?v)"
    using sv shape_accepted [OF assms(2,4)] assms(3,5,6)
    by (simp add: record_block_def checked_add_def pages_def)
  moreover have "surveyed s (is @ [i]) ?v"
    using sv assms(3,5) marks_update [OF assms(3), of "is"]
    by (auto simp: surveyed_def pages_def nth_append nth_list_update less_Suc_eq)
  ultimately show ?thesis by (rule that)
qed

lemma walk_spec:
  assumes "chain (node_array s) h js" "surveyed s is v" "config_ok s" "distinct (is @ js)"
    and "set is \<subseteq> {..< length (node_array s)}" "pages s (is @ js) < usize_range"
    and "\<And>j. j \<in> set js \<Longrightarrow> good_block (max_order s) (usable s) (blk s j) \<and> check (node_array s ! j) = None
      \<and> size' (node_array s ! j) = 2 ^ bn_order (blk s j)"
  obtains v' where "walk s check size' msg h count v = Some (Ok (count + length js, v'))" "surveyed s (is @ js) v'"
  using assms
proof (induction js arbitrary: h "is" v count thesis)
  case Nil
  then show ?case by (intro Nil.prems(1)) (simp_all add: walk.simps)
next
  case (Cons j js)
  have j: "h = Some j" "j < length (node_array s)" "chain (node_array s) (bn_next (node_array s ! j)) js"
    using Cons.prems(2) by simp_all
  have g: "good_block (max_order s) (usable s) (blk s j)" "check (node_array s ! j) = None"
    "size' (node_array s ! j) = 2 ^ bn_order (blk s j)"
    using Cons.prems(8) by simp_all
  have "set is \<subset> {..< length (node_array s)}" using Cons.prems(5,6) j(2) by auto
  then have "card (set is) < length (node_array s)" using psubset_card_mono [of "{..< length (node_array s)}"] by simp
  then have room: "length is < length (node_array s)" using Cons.prems(5) by (simp add: distinct_card)
  have pg: "pages s (is @ [j]) < usize_range" using Cons.prems(7) by (simp add: pages_def)
  obtain v1 where v1: "record_block s j (bn_start (blk s j)) (2 ^ bn_order (blk s j)) msg v = Some (Ok v1)"
    "surveyed s (is @ [j]) v1"
    by (rule record_block_spec [OF Cons.prems(3,4) j(2) g(1) room pg])
  have "validate_node_index s j (visited v) = Ok (node_array s ! j)"
    using j(2) Cons.prems(3,5) by (auto simp: validate_node_index_def surveyed_def)
  then have eq: "walk s check size' msg h count v = walk s check size' msg (bn_next (node_array s ! j)) (count + 1) v1"
    using j v1(1) g by (subst walk.simps) (simp add: blk_fields)
  have pre: "distinct ((is @ [j]) @ js)" "set (is @ [j]) \<subseteq> {..< length (node_array s)}" "pages s ((is @ [j]) @ js) < usize_range"
    using Cons.prems(5-7) j(2) by auto
  have rest: "good_block (max_order s) (usable s) (blk s k) \<and> check (node_array s ! k) = None
      \<and> size' (node_array s ! k) = 2 ^ bn_order (blk s k)" if "k \<in> set js" for k
    using Cons.prems(8) that by simp
  obtain v' where v': "walk s check size' msg (bn_next (node_array s ! j)) (count + 1) v1 = Some (Ok (count + 1 + length js, v'))"
    "surveyed s ((is @ [j]) @ js) v'"
    by (rule Cons.IH [OF _ j(3) v1(2) Cons.prems(4) pre rest])
  then show ?case by (intro Cons.prems(1)) (simp_all add: eq)
qed

lemma check_list_spec:
  assumes "chain (node_array s) h js" "surveyed s is v" "config_ok s" "distinct (is @ js)"
    and "set is \<subseteq> {..< length (node_array s)}" "pages s (is @ js) < usize_range" "len = length js"
    and "\<And>j. j \<in> set js \<Longrightarrow> good_block (max_order s) (usable s) (blk s j) \<and> check (node_array s ! j) = None
      \<and> size' (node_array s ! j) = 2 ^ bn_order (blk s j)"
  obtains v' where "check_list s check size' msg mis h len v = Some (Ok v')" "surveyed s (is @ js) v'"
proof -
  obtain v' where "walk s check size' msg h 0 v = Some (Ok (0 + length js, v'))" "surveyed s (is @ js) v'"
    by (rule walk_spec [OF assms(1-6,8)])
  then show ?thesis by (intro that) (simp_all add: check_list_def assms(7))
qed

section \<open>The whole check\<close>

text \<open>The lists of a state laid end to end.\<close>

definition laid_out :: "contents \<Rightarrow> lid list \<Rightarrow> usize list" where
  "laid_out L ls = concat (map L ls)"

lemma laid_out_simps [simp]:
  "laid_out L [] = []" "laid_out L (l # ls) = L l @ laid_out L ls" "laid_out L (ls @ ms) = laid_out L ls @ laid_out L ms"
  by (simp_all add: laid_out_def)

lemma laid_out_set: "rep s L own \<Longrightarrow> set (laid_out L ls) = {i. i < length (node_array s) \<and> own i \<in> Some ` set ls}"
  by (induction ls) (auto simp: rep_set)

lemma laid_out_distinct: "rep s L own \<Longrightarrow> distinct ls \<Longrightarrow> distinct (laid_out L ls)"
proof (induction ls)
  case (Cons l ls)
  have "i \<notin> set (laid_out L ls)" if "i \<in> set (L l)" for i
    using that Cons.prems(2) by (auto simp: rep_set [OF Cons.prems(1)] laid_out_set [OF Cons.prems(1)])
  then have "set (L l) \<inter> set (laid_out L ls) = {}" by blast
  moreover have "distinct (laid_out L ls)" using Cons by simp
  ultimately show ?case using repD(5) [OF Cons.prems(1), of l] by simp
qed simp

lemma laid_out_pages:
  assumes I: "idle s L own" and ls: "distinct ls" "LUnused \<notin> set ls"
  shows "pages s (laid_out L ls) \<le> card (usable s)" "set ls \<supseteq> {l. L l \<noteq> []} - {LUnused} \<Longrightarrow> pages s (laid_out L ls) = card (usable s)"
proof -
  have fin: "finite (active s own)" by (simp add: active_def)
  have sub: "set (laid_out L ls) \<subseteq> active s own" using ls(2) by (auto simp: laid_out_set [OF idleD(2) [OF I]] active_def)
  have eq: "pages s (laid_out L ls) = (\<Sum>i \<in> set (laid_out L ls). 2 ^ bn_order (blk s i))"
    unfolding pages_def by (rule sum_list_distinct_conv_sum_set [OF laid_out_distinct [OF idleD(2) [OF I] ls(1)]])
  note card = tiling_card [OF idleD(6) [OF I] fin]
  show "pages s (laid_out L ls) \<le> card (usable s)" unfolding eq card by (rule sum_mono2 [OF fin sub]) simp
  assume all: "set ls \<supseteq> {l. L l \<noteq> []} - {LUnused}"
  have "i \<in> set (laid_out L ls)" if i: "i \<in> active s own" for i
  proof -
    obtain l where l: "own i = Some l" "l \<noteq> LUnused" using i idleD(4) [OF I] by (cases "own i") (auto simp: active_def held_def)
    then have "i \<in> set (L l)" using repD(6) [OF idleD(2) [OF I], of i l] i by (simp add: active_def)
    then have "l \<in> set ls" using all l(2) by auto
    then show ?thesis using l(1) i by (auto simp: laid_out_set [OF idleD(2) [OF I]] active_def)
  qed
  then have "set (laid_out L ls) = active s own" using sub by blast
  then show "pages s (laid_out L ls) = card (usable s)" using eq card by simp
qed

lemma listed_good:
  assumes "idle s L own" "i \<in> set (L l)" "l \<noteq> LUnused"
  shows "good_block (max_order s) (usable s) (blk s i)" "placed (cpu_count s) l (blk s i)" "i < length (node_array s)"
proof -
  note a = listed_active [OF idleD(1) [OF assms(1)] assms(2,3)]
  show "good_block (max_order s) (usable s) (blk s i)" using idleD(6) [OF assms(1)] a(1) by (simp add: tiling_def)
  show "placed (cpu_count s) l (blk s i)" by (rule lists_okD(4) [OF idleD(1) [OF assms(1)] a(3,2)])
  show "i < length (node_array s)" by (rule a(3))
qed

lemma usable_card: "config_ok s \<Longrightarrow> card (usable s) < usize_range"
  using card_frames_of_bound [of "live (usable_ranges s)"] by (simp add: usable_def config_ok_def)

text \<open>Appending one list of the state to what was laid out before.\<close>

lemma laid_out_step:
  assumes I: "idle s L own" and ls: "distinct (ls @ [l])" "LUnused \<notin> set (ls @ [l])"
  shows "chain (node_array s) (head_of s l) (L l)" "distinct (laid_out L ls @ L l)"
    "set (laid_out L ls) \<subseteq> {..< length (node_array s)}" "pages s (laid_out L ls @ L l) < usize_range" "length_of s l = length (L l)"
proof -
  note d = idleD [OF I]
  show "chain (node_array s) (head_of s l) (L l)" "length_of s l = length (L l)" using repD(3,4) [OF d(2), of l] by simp_all
  show "distinct (laid_out L ls @ L l)" using laid_out_distinct [OF d(2) ls(1)] by simp
  show "set (laid_out L ls) \<subseteq> {..< length (node_array s)}" by (auto simp: laid_out_set [OF d(2)])
  show "pages s (laid_out L ls @ L l) < usize_range"
    using laid_out_pages(1) [OF I ls] usable_card [OF d(3)] by simp
qed

lemma check_free_lists_spec:
  assumes I: "idle s L own" and v: "surveyed s (laid_out L ls) v" and n: "n \<le> MAX_ORDER_SLOTS"
    and ls: "distinct (ls @ map LFree [n..<MAX_ORDER_SLOTS])" "LUnused \<notin> set ls"
  obtains v' where "check_free_lists s [n..<MAX_ORDER_SLOTS] v = Some (Ok v')"
    "surveyed s (laid_out L (ls @ map LFree [n..<MAX_ORDER_SLOTS])) v'"
  using v n ls
proof (induction "MAX_ORDER_SLOTS - n" arbitrary: n ls v thesis)
  case 0
  then show ?case by simp
next
  case (Suc d)
  note D = idleD [OF I]
  have n: "n < MAX_ORDER_SLOTS" using Suc.hyps(2) by simp
  have upt: "[n..<MAX_ORDER_SLOTS] = n # [Suc n..<MAX_ORDER_SLOTS]" using n by (rule upt_conv_Cons)
  have ls: "distinct (ls @ [LFree n])" "LUnused \<notin> set (ls @ [LFree n])" using Suc.prems(4,5) unfolding upt by auto
  note st = laid_out_step [OF I ls]
  have ok: "good_block (max_order s) (usable s) (blk s j) \<and> check_free s n (node_array s ! j) = None \<and> block_size n = 2 ^ bn_order (blk s j)"
    if "j \<in> set (L (LFree n))" for j
    using listed_good [OF I that] D(5) by (auto simp: check_free_def good_block_def simp flip: blk_fields)
  obtain v1 where v1: "check_list s (check_free s n) (\<lambda>_. block_size n) ''global free page accounting overflow''
      ''global free list length mismatch'' (head_of s (LFree n)) (length_of s (LFree n)) v = Some (Ok v1)"
    "surveyed s (laid_out L ls @ L (LFree n)) v1"
    by (rule check_list_spec [OF st(1) Suc.prems(2) D(3) st(2-5) ok])
  have pre: "d = MAX_ORDER_SLOTS - Suc n" "surveyed s (laid_out L (ls @ [LFree n])) v1" "Suc n \<le> MAX_ORDER_SLOTS"
    "distinct ((ls @ [LFree n]) @ map LFree [Suc n..<MAX_ORDER_SLOTS])"
    using Suc.hyps(2) v1(2) n Suc.prems(4) unfolding upt by simp_all
  obtain v' where v': "check_free_lists s [Suc n..<MAX_ORDER_SLOTS] v1 = Some (Ok v')"
    "surveyed s (laid_out L ((ls @ [LFree n]) @ map LFree [Suc n..<MAX_ORDER_SLOTS])) v'"
    by (rule Suc.hyps(1) [OF pre(1) _ pre(2-4) ls(2)])
  show ?case
    by (rule Suc.prems(1) [of v']) (use v1(1) v' n shape_lengths(1,2) [OF repD(1) [OF D(2)]] in \<open>simp_all add: upt\<close>)
qed

lemma check_caches_spec:
  assumes I: "idle s L own" and v: "surveyed s (laid_out L ls) v"
    and cks: "\<And>c k. (c, k) \<in> set cks \<Longrightarrow> c < length (per_cpu s) \<and> k \<le> PER_CPU_CACHE_MAX_ORDER"
    and ls: "distinct (ls @ map (case_prod LCache) cks)" "LUnused \<notin> set ls"
  obtains v' where "check_caches s cks v = Some (Ok v')" "surveyed s (laid_out L (ls @ map (case_prod LCache) cks)) v'"
  using v cks ls
proof (induction cks arbitrary: ls v thesis)
  case Nil
  then show ?case by simp
next
  case (Cons ck cks)
  note D = idleD [OF I]
  obtain c k where ck: "ck = (c, k)" by (cases ck)
  have b: "c < length (per_cpu s)" "k \<le> PER_CPU_CACHE_MAX_ORDER" using Cons.prems(3) [of c k] ck by simp_all
  have ls: "distinct (ls @ [LCache c k])" "LUnused \<notin> set (ls @ [LCache c k])" using Cons.prems(4,5) ck by auto
  note st = laid_out_step [OF I ls]
  have k64: "k < 64" using b(2) by (simp add: PER_CPU_CACHE_MAX_ORDER_def)
  have ok: "good_block (max_order s) (usable s) (blk s j) \<and> check_cached s c k (node_array s ! j) = None \<and> block_size k = 2 ^ bn_order (blk s j)"
    if "j \<in> set (L (LCache c k))" for j
    using listed_good [OF I that] k64 by (auto simp: check_cached_def simp flip: blk_fields)
  obtain v1 where v1: "check_list s (check_cached s c k) (\<lambda>_. block_size k) ''per-cpu free page accounting overflow''
      ''per-cpu free list length mismatch'' (head_of s (LCache c k)) (length_of s (LCache c k)) v = Some (Ok v1)"
    "surveyed s (laid_out L ls @ L (LCache c k)) v1"
    by (rule check_list_spec [OF st(1) Cons.prems(2) D(3) st(2-5) ok])
  have pre: "surveyed s (laid_out L (ls @ [LCache c k])) v1"
    "distinct ((ls @ [LCache c k]) @ map (case_prod LCache) cks)"
    using v1(2) Cons.prems(4) ck by simp_all
  have rest: "c' < length (per_cpu s) \<and> k' \<le> PER_CPU_CACHE_MAX_ORDER" if "(c', k') \<in> set cks" for c' k'
    using Cons.prems(3) [of c' k'] that by simp
  obtain v' where v': "check_caches s cks v1 = Some (Ok v')"
    "surveyed s (laid_out L ((ls @ [LCache c k]) @ map (case_prod LCache) cks)) v'"
    by (rule Cons.IH [OF _ pre(1) rest pre(2) ls(2)])
  show ?case
    by (rule Cons.prems(1) [of v']) (use v1(1) v' b shape_lengths(3,4) [OF repD(1) [OF D(2)] b(1)] ck in simp_all)
qed

lemma overlaps_right_spec:
  assumes "surveyed s is v" "left < length is"
    and "\<And>r. r \<in> set rs \<Longrightarrow> r < length is \<and> bn_start (blk s (is ! r)) + 2 ^ bn_order (blk s (is ! r)) < usize_range
      \<and> block_frames (blk s (is ! left)) \<inter> block_frames (blk s (is ! r)) = {}"
    and "length is \<le> length (node_array s)"
  shows "overlaps_right v left (bn_start (blk s (is ! left)) + 2 ^ bn_order (blk s (is ! left))) rs = Some None"
  using assms(3)
proof (induction rs)
  case (Cons r rs)
  note sv = assms(1) [unfolded surveyed_def]
  let ?a = "blk s (is ! left)" and ?b = "blk s (is ! r)"
  have r: "r < length is" "bn_start ?b + 2 ^ bn_order ?b < usize_range" "block_frames ?a \<inter> block_frames ?b = {}"
    using Cons.prems [of r] by simp_all
  have "\<not> (bn_start ?a < bn_start ?b + 2 ^ bn_order ?b \<and> bn_start ?b < bn_start ?a + 2 ^ bn_order ?a)"
  proof
    assume a: "bn_start ?a < bn_start ?b + 2 ^ bn_order ?b \<and> bn_start ?b < bn_start ?a + 2 ^ bn_order ?a"
    have "max (bn_start ?a) (bn_start ?b) \<in> block_frames ?a \<inter> block_frames ?b"
      using a by (auto simp: block_frames_def max_def)
    then show False using r(3) by blast
  qed
  moreover have "overlaps_right v left (bn_start ?a + 2 ^ bn_order ?a) rs = Some None"
    using Cons.prems by (intro Cons.IH) simp
  ultimately show ?case using sv r assms(2,4) by (auto simp: checked_add_def)
qed simp

lemma overlaps_spec:
  assumes "surveyed s is v" "set ns \<subseteq> {..< length is}" "length is \<le> length (node_array s)"
    and "\<And>n. n < length is \<Longrightarrow> bn_start (blk s (is ! n)) + 2 ^ bn_order (blk s (is ! n)) < usize_range"
    and "\<And>n m. n < length is \<Longrightarrow> m < length is \<Longrightarrow> n \<noteq> m \<Longrightarrow> block_frames (blk s (is ! n)) \<inter> block_frames (blk s (is ! m)) = {}"
  shows "overlaps v ns = Some None"
  using assms(2)
proof (induction ns)
  case (Cons n ns)
  note sv = assms(1) [unfolded surveyed_def]
  have n: "n < length is" using Cons.prems by simp
  have "overlaps_right v n (bn_start (blk s (is ! n)) + 2 ^ bn_order (blk s (is ! n))) [n + 1..<block_count v] = Some None"
    by (rule overlaps_right_spec [OF assms(1) n _ assms(3)]) (use sv assms(4,5) n in auto)
  moreover have "at (sv_starts v) n = Some (bn_start (blk s (is ! n)))" "at (sv_lens v) n = Some (2 ^ bn_order (blk s (is ! n)))"
    using sv n assms(3) by simp_all
  ultimately show ?case using Cons assms(4) [OF n] by (simp add: checked_add_def)
qed simp

lemma walk_unused_spec:
  "chain (node_array s) h js \<Longrightarrow> distinct (is @ js) \<Longrightarrow>
    walk_unused s h count (map (\<lambda>i. i \<in> set is) [0..<length (node_array s)]) =
      Some (Ok (count + length js, map (\<lambda>i. i \<in> set (is @ js)) [0..<length (node_array s)]))"
proof (induction js arbitrary: h "is" count)
  case Nil
  then show ?case by (simp add: walk_unused.simps)
next
  case (Cons j js)
  have j: "h = Some j" "j < length (node_array s)" "chain (node_array s) (bn_next (node_array s ! j)) js" "j \<notin> set is"
    using Cons.prems by auto
  have "walk_unused s h count (map (\<lambda>i. i \<in> set is) [0..<length (node_array s)]) =
      walk_unused s (bn_next (node_array s ! j)) (count + 1) (map (\<lambda>i. i \<in> set (is @ [j])) [0..<length (node_array s)])"
    using j marks_update [OF j(2), of "is"] by (subst walk_unused.simps) simp
  then show ?case using Cons.IH [OF j(3), of "is @ [j]"] Cons.prems(2) by simp
qed

text \<open>All lists but the unused nodes, in the order of the check.\<close>

definition block_lists :: "buddy \<Rightarrow> lid list" where
  "block_lists s = [LAlloc] @ map LFree [0..<MAX_ORDER_SLOTS]
     @ map (case_prod LCache) (List.product [0..<length (per_cpu s)] [0..<PER_CPU_CACHE_MAX_ORDER + 1])"

lemma block_lists_distinct: "distinct (block_lists s)" "LUnused \<notin> set (block_lists s)"
  by (auto simp: block_lists_def distinct_map distinct_product inj_on_def simp del: upt_Suc)

lemma block_lists_all:
  assumes "rep s L own"
  shows "{l. L l \<noteq> []} - {LUnused} \<subseteq> set (block_lists s)"
proof
  fix l assume "l \<in> {l. L l \<noteq> []} - {LUnused}"
  then have "L l \<noteq> []" "l \<noteq> LUnused" by auto
  moreover have "L l = []" if "\<not> valid_lid s l"
    using that repD(3) [OF assms, of l] by (cases l) auto
  ultimately have "valid_lid s l" by blast
  then show "l \<in> set (block_lists s)"
    using \<open>l \<noteq> LUnused\<close> by (cases l) (force simp: block_lists_def simp del: upt_Suc)+
qed

lemma validate_accepts:
  assumes I: "idle s L own"
  shows "validate_invariants s = Some (Ok ())"
proof -
  note D = idleD [OF I]
  let ?cap = "length (node_array s)" and ?frees = "map LFree [0..<MAX_ORDER_SLOTS]"
  let ?cks = "List.product [0..<length (per_cpu s)] [0..<PER_CPU_CACHE_MAX_ORDER + 1]"
  let ?v0 = "\<lparr>visited = replicate ?cap False, sv_starts = replicate ?cap 0, sv_lens = replicate ?cap 0,
    block_count = 0, accounted_pages = 0\<rparr>"
  note dist = block_lists_distinct [of s, unfolded block_lists_def]
  have v0: "surveyed s (laid_out L []) ?v0"
    by (auto simp: surveyed_def pages_def map_replicate_const [symmetric] intro!: nth_equalityI)
  have st: "distinct ([] @ [LAlloc])" "LUnused \<notin> set ([] @ [LAlloc])" by simp_all
  note st' = laid_out_step [OF I st]
  have ok: "good_block (max_order s) (usable s) (blk s j) \<and> check_allocated s (node_array s ! j) = None
      \<and> block_size (bn_order (node_array s ! j)) = 2 ^ bn_order (blk s j)" if "j \<in> set (L LAlloc)" for j
    using listed_good [OF I that] D(5) by (auto simp: check_allocated_def good_block_def simp flip: blk_fields)
  obtain v1 where v1: "check_list s (check_allocated s) (\<lambda>node. block_size (bn_order node)) ''allocated page accounting overflow''
      ''allocation list length mismatch'' (head_of s LAlloc) (length_of s LAlloc) ?v0 = Some (Ok v1)"
    "surveyed s (laid_out L [] @ L LAlloc) v1"
    by (rule check_list_spec [OF st'(1) v0 D(3) st'(2-5) ok])
  have p2: "surveyed s (laid_out L [LAlloc]) v1" "distinct ([LAlloc] @ ?frees)" "LUnused \<notin> set [LAlloc]"
    using v1(2) dist by (simp_all add: distinct_map)
  obtain v2 where v2: "check_free_lists s [0..<MAX_ORDER_SLOTS] v1 = Some (Ok v2)"
    "surveyed s (laid_out L ([LAlloc] @ ?frees)) v2"
    by (rule check_free_lists_spec [OF I p2(1) _ p2(2,3)]) simp
  have p3: "distinct (([LAlloc] @ ?frees) @ map (case_prod LCache) ?cks)" unfolding append_assoc by (rule dist(1))
  have p4: "LUnused \<notin> set ([LAlloc] @ ?frees)" by auto
  have cks: "c < length (per_cpu s) \<and> k \<le> PER_CPU_CACHE_MAX_ORDER" if "(c, k) \<in> set ?cks" for c k
    using that by (auto simp: less_Suc_eq_le simp del: upt_Suc)
  obtain v3 where v3: "check_caches s ?cks v2 = Some (Ok v3)"
    "surveyed s (laid_out L (([LAlloc] @ ?frees) @ map (case_prod LCache) ?cks)) v3"
    by (rule check_caches_spec [OF I v2(2) cks p3 p4])
  let ?is = "laid_out L (block_lists s)"
  have sv: "surveyed s ?is v3" using v3(2) by (simp add: block_lists_def del: upt_Suc)
  have dis: "distinct ?is" by (rule laid_out_distinct [OF D(2) block_lists_distinct(1)])
  have act: "set ?is \<subseteq> active s own" using block_lists_distinct(2) by (auto simp: laid_out_set [OF D(2)] active_def)
  have len: "length ?is \<le> ?cap"
    using card_mono [of "{..< ?cap}" "set ?is"] act by (auto simp: active_def distinct_card [OF dis])
  have good: "good_block (max_order s) (usable s) (blk s (?is ! n))" if "n < length ?is" for n
    using D(6) subsetD [OF act nth_mem [OF that]] by (simp add: tiling_def)
  have ov: "overlaps v3 [0..<block_count v3] = Some None"
  proof (rule overlaps_spec [OF sv _ len])
    show "set [0..<block_count v3] \<subseteq> {..< length ?is}" using sv by (auto simp: surveyed_def)
    show "bn_start (blk s (?is ! n)) + 2 ^ bn_order (blk s (?is ! n)) < usize_range" if "n < length ?is" for n
      by (rule good_block_bound(1) [OF D(3) good [OF that]])
    show "block_frames (blk s (?is ! n)) \<inter> block_frames (blk s (?is ! m)) = {}" if "n < length ?is" "m < length ?is" "n \<noteq> m" for n m
      by (rule tiling_apart [OF D(6)]) (use that act dis nth_mem nth_eq_iff_index_eq in blast)+
  qed
  have pg: "accounted_pages v3 = total_frames s"
    using laid_out_pages(2) [OF I block_lists_distinct block_lists_all [OF D(2)]] sv D(3) by (simp add: surveyed_def config_ok_def)
  have dis2: "distinct (?is @ L LUnused)"
    using laid_out_distinct [OF D(2), of "block_lists s @ [LUnused]"] block_lists_distinct by simp
  have un: "walk_unused s (unused_head (nodes s)) 0 (visited v3) =
      Some (Ok (length (L LUnused), map (\<lambda>i. i \<in> set (?is @ L LUnused)) [0..<?cap]))"
    using walk_unused_spec [OF _ dis2, of s "unused_head (nodes s)" 0] repD(3) [OF D(2), of LUnused] sv by (simp add: surveyed_def)
  have "i \<in> set (?is @ L LUnused)" if i: "i < ?cap" for i
  proof -
    obtain l where l: "own i = Some l" using i D(4) by (cases "own i") (auto simp: held_def)
    then have il: "i \<in> set (L l)" using repD(6) [OF D(2), of i l] i by simp
    then have "l \<in> {l. L l \<noteq> []}" by auto
    then have "l = LUnused \<or> l \<in> set (block_lists s)" using block_lists_all [OF D(2)] by blast
    then show ?thesis using il l i by (auto simp: laid_out_set [OF D(2)])
  qed
  then have all: "list_all id (map (\<lambda>i. i \<in> set (?is @ L LUnused)) [0..<?cap])" by (simp add: list_all_iff)
  have "unused_len (nodes s) = length (L LUnused)" "max_order s < MAX_ORDER_SLOTS"
    using repD(4) [OF D(2), of LUnused] D(5) by (simp_all add: MAX_ORDER_SLOTS_def)
  then show ?thesis
    using v1(1) v2(1) v3(1) ov pg un all by (simp add: validate_invariants_def Let_def del: upt_Suc)
qed

section \<open>Counting free pages\<close>

lemma sum_pages_spec:
  assumes "\<And>k. k \<in> set ks \<Longrightarrow> k < length ls \<and> k < 64" "acc + (\<Sum>k \<leftarrow> ks. ls ! k * 2 ^ k) < usize_range"
  shows "sum_pages ls ks acc = Some (acc + (\<Sum>k \<leftarrow> ks. ls ! k * 2 ^ k))"
  using assms
proof (induction ks arbitrary: acc)
  case (Cons k ks)
  have k: "k < length ls" "k < 64" using Cons.prems(1) [of k] by simp_all
  have "ls ! k * 2 ^ k < usize_range" "acc + ls ! k * 2 ^ k < usize_range" using Cons.prems(2) by simp_all
  then have "wadd acc (wmul (ls ! k) (block_size k)) = acc + ls ! k * 2 ^ k" using k(2) by (simp add: wadd_exact wmul_exact)
  then show ?case using Cons k(1) by (simp add: add.assoc)
qed simp

lemma pages_listed:
  assumes "idle s L own"
  shows "pages s (L (LFree k)) = length (L (LFree k)) * 2 ^ k" "pages s (L (LCache c k)) = length (L (LCache c k)) * 2 ^ k"
proof -
  have const: "(\<Sum>i \<leftarrow> is. 2 ^ bn_order (blk s i)) = length is * 2 ^ k" if "\<And>i. i \<in> set is \<Longrightarrow> bn_order (blk s i) = k" for "is"
    using that by (induction "is") simp_all
  show "pages s (L (LFree k)) = length (L (LFree k)) * 2 ^ k"
    unfolding pages_def by (rule const) (use listed_good(2) [OF assms] in fastforce)
  show "pages s (L (LCache c k)) = length (L (LCache c k)) * 2 ^ k"
    unfolding pages_def by (rule const) (use listed_good(2) [OF assms] in fastforce)
qed

lemma pages_laid_out: "pages s (laid_out L ls) = (\<Sum>l \<leftarrow> ls. pages s (L l))"
  by (induction ls) (simp_all add: pages_def)

definition free_lists :: "buddy \<Rightarrow> lid list" where
  "free_lists s = map LFree [0..<max_order s + 1]
     @ concat (map (\<lambda>c. map (LCache c) [0..<PER_CPU_CACHE_MAX_ORDER + 1]) [0..<cpu_count s])"

lemma free_lists_distinct: "distinct (LAlloc # free_lists s)" "LUnused \<notin> set (LAlloc # free_lists s)"
proof -
  have "distinct (concat (map (\<lambda>c. map (LCache c) [0..<PER_CPU_CACHE_MAX_ORDER + 1]) [0..<n]))" for n
    by (induction n) (auto simp: distinct_map inj_on_def simp del: upt_Suc simp add: upt_Suc_append)
  then show "distinct (LAlloc # free_lists s)"
    by (auto simp: free_lists_def distinct_map inj_on_def simp del: upt_Suc)
  show "LUnused \<notin> set (LAlloc # free_lists s)" by (auto simp: free_lists_def simp del: upt_Suc)
qed

lemma free_lists_all:
  assumes "idle s L own"
  shows "{l. L l \<noteq> []} - {LUnused} \<subseteq> set (LAlloc # free_lists s)"
proof
  fix l assume l: "l \<in> {l. L l \<noteq> []} - {LUnused}"
  then obtain i where i: "i \<in> set (L l)" "l \<noteq> LUnused" by (cases "L l") auto
  note g = listed_good [OF assms i]
  have "valid_lid s l"
    using block_lists_all [OF idleD(2) [OF assms]] l by (cases l) (auto simp: block_lists_def less_Suc_eq_le simp del: upt_Suc)
  then show "l \<in> set (LAlloc # free_lists s)"
    using g(1,2) i(2) by (cases l) (auto simp: free_lists_def good_block_def image_iff less_Suc_eq_le simp del: upt_Suc)
qed

lemma sum_caches_spec:
  assumes I: "idle s L own" and cs: "\<And>c. c \<in> set cs \<Longrightarrow> c < cpu_count s"
    and "acc + (\<Sum>c \<leftarrow> cs. \<Sum>k \<leftarrow> [0..<PER_CPU_CACHE_MAX_ORDER + 1]. pages s (L (LCache c k))) < usize_range"
  shows "sum_caches (per_cpu s) cs acc =
    Some (acc + (\<Sum>c \<leftarrow> cs. \<Sum>k \<leftarrow> [0..<PER_CPU_CACHE_MAX_ORDER + 1]. pages s (L (LCache c k))))"
  using assms(2,3)
proof (induction cs arbitrary: acc)
  case (Cons c cs)
  note D = idleD [OF I]
  let ?ks = "[0..<PER_CPU_CACHE_MAX_ORDER + 1]"
  have c: "c < length (per_cpu s)" using Cons.prems(1) [of c] D(3) by (simp add: config_ok_def)
  note len = shape_lengths(4) [OF repD(1) [OF D(2)] c]
  have eq: "lens (per_cpu s ! c) ! k * 2 ^ k = pages s (L (LCache c k))" if "k \<in> set ?ks" for k
    using that c repD(4) [OF D(2), of "LCache c k"] pages_listed(2) [OF I, of c k] by (simp add: less_Suc_eq_le del: upt_Suc)
  then have sum: "(\<Sum>k \<leftarrow> ?ks. lens (per_cpu s ! c) ! k * 2 ^ k) = (\<Sum>k \<leftarrow> ?ks. pages s (L (LCache c k)))"
    by (intro arg_cong [of _ _ sum_list] map_cong refl) auto
  have one: "cache_free_pages (per_cpu s ! c) = Some (\<Sum>k \<leftarrow> ?ks. pages s (L (LCache c k)))"
    unfolding cache_free_pages_def
    by (subst sum_pages_spec) (use len sum Cons.prems(2) in \<open>auto simp: PER_CPU_CACHE_MAX_ORDER_def simp del: upt_Suc\<close>)
  have w: "wadd acc (\<Sum>k \<leftarrow> ?ks. pages s (L (LCache c k))) = acc + (\<Sum>k \<leftarrow> ?ks. pages s (L (LCache c k)))"
    using Cons.prems(2) by (intro wadd_exact) (simp del: upt_Suc)
  have "sum_caches (per_cpu s) cs (acc + (\<Sum>k \<leftarrow> ?ks. pages s (L (LCache c k)))) =
      Some (acc + (\<Sum>k \<leftarrow> ?ks. pages s (L (LCache c k))) + (\<Sum>c \<leftarrow> cs. \<Sum>k \<leftarrow> ?ks. pages s (L (LCache c k))))"
    by (rule Cons.IH) (use Cons.prems in \<open>simp_all add: add.assoc del: upt_Suc\<close>)
  then show ?case using c one w by (simp add: add.assoc del: upt_Suc)
qed simp

lemma alloc_pages:
  assumes "idle s L own"
  shows "pages s (L LAlloc) = card (allocated_frames s)"
proof -
  note D = idleD [OF assms]
  have act: "set (L LAlloc) \<subseteq> active s own" using listed_active(1) [OF D(1), of _ LAlloc] by auto
  have "card (allocated_frames s) = card (\<Union>i \<in> set (L LAlloc). block_frames (blk s i))"
    by (simp add: allocated_frames_eq [OF assms])
  also have "\<dots> = (\<Sum>i \<in> set (L LAlloc). card (block_frames (blk s i)))"
    using D(6) act by (intro card_UN_disjoint') (auto simp: tiling_def block_frames_def disjoint_family_on_def subset_iff)
  finally show ?thesis
    using sum_list_distinct_conv_sum_set [OF repD(5) [OF D(2), of LAlloc], of "\<lambda>i. 2 ^ bn_order (blk s i) :: nat"]
    by (simp add: pages_def block_frames_def)
qed

lemma free_pages_eq:
  assumes I: "idle s L own"
  shows "free_pages s = Some (card (usable s) - card (allocated_frames s))"
proof -
  note D = idleD [OF I]
  let ?ks = "[0..<PER_CPU_CACHE_MAX_ORDER + 1]"
  let ?g = "\<Sum>k \<leftarrow> [0..<max_order s + 1]. pages s (L (LFree k))"
  let ?l = "\<Sum>c \<leftarrow> [0..<cpu_count s]. \<Sum>k \<leftarrow> ?ks. pages s (L (LCache c k))"
  have "(\<Sum>l \<leftarrow> concat (map (\<lambda>c. map (LCache c) ?ks) cs). pages s (L l)) = (\<Sum>c \<leftarrow> cs. \<Sum>k \<leftarrow> ?ks. pages s (L (LCache c k)))" for cs
    by (induction cs) (simp_all add: comp_def del: upt_Suc)
  then have "pages s (laid_out L (LAlloc # free_lists s)) = card (allocated_frames s) + (?g + ?l)"
    unfolding pages_laid_out free_lists_def by (simp add: alloc_pages [OF I] comp_def del: upt_Suc)
  then have total: "card (usable s) = card (allocated_frames s) + (?g + ?l)"
    using laid_out_pages(2) [OF I free_lists_distinct free_lists_all [OF I]] by simp
  have bound: "?g + ?l < usize_range" using total usable_card [OF D(3)] by linarith
  have "global_free_lens s ! k * 2 ^ k = pages s (L (LFree k))" if "k \<in> set [0..<max_order s + 1]" for k
    using that D(5) repD(4) [OF D(2), of "LFree k"] pages_listed(1) [OF I, of k] by (simp add: MAX_ORDER_SLOTS_def del: upt_Suc)
  then have g: "(\<Sum>k \<leftarrow> [0..<max_order s + 1]. global_free_lens s ! k * 2 ^ k) = ?g"
    by (intro arg_cong [of _ _ sum_list] map_cong refl) auto
  have "sum_pages (global_free_lens s) [0..<max_order s + 1] 0 = Some ?g"
    by (subst sum_pages_spec)
      (use g bound D(5) shape_lengths(2) [OF repD(1) [OF D(2)]] in \<open>auto simp: MAX_ORDER_SLOTS_def simp del: upt_Suc\<close>)
  moreover have "sum_caches (per_cpu s) [0..<cpu_count s] 0 = Some ?l"
    using sum_caches_spec [OF I, of "[0..<cpu_count s]" 0] bound by (simp del: upt_Suc)
  ultimately show ?thesis using bound total by (simp add: free_pages_def wadd_exact del: upt_Suc)
qed

end
