(* ===== verification/Buddy_Properties.thy ===== *)
theory Buddy_Properties
  imports Buddy_Check "HOL-Library.Code_Target_Nat"
begin

text \<open>
  What the physical frame allocator of \<open>aether-frame/src/mm/buddy.rs\<close> guarantees to the
  rest of the kernel: every state that boot and any sequence of allocations, retains and
  releases can reach keeps the invariant, passes the code's own \<open>validate_invariants\<close> and
  counts its free pages exactly; an allocation hands out free memory only; a release
  undoes an allocation; errors leave the state alone and mean what they say.
\<close>

section \<open>Runs of the allocator\<close>

text \<open>
  The states the kernel can bring the allocator into: \<open>bootstrap\<close> on the memory map, then
  any operations, each from a CPU the allocator knows. \<open>recovered\<close> is what the kernel's
  out-of-memory hook answers.
\<close>

inductive reachable :: "usize \<Rightarrow> usize \<Rightarrow> usize \<Rightarrow> memory_region list \<Rightarrow> usize \<Rightarrow> buddy \<Rightarrow> bool"
  for ranges max_cpus cap mem_map cpus where
  boot: "bootstrap ranges max_cpus cap mem_map cpus = Some (Ok s) \<Longrightarrow> reachable ranges max_cpus cap mem_map cpus s"
| alloc: "reachable ranges max_cpus cap mem_map cpus s \<Longrightarrow> cpuid < cpus \<Longrightarrow> n < usize_range \<Longrightarrow>
    buddy_alloc cpuid recovered s n = Some (r, s') \<Longrightarrow> reachable ranges max_cpus cap mem_map cpus s'"
| retain: "reachable ranges max_cpus cap mem_map cpus s \<Longrightarrow> buddy_retain s f = Some (c, s') \<Longrightarrow>
    reachable ranges max_cpus cap mem_map cpus s'"
| release: "reachable ranges max_cpus cap mem_map cpus s \<Longrightarrow> cpuid < cpus \<Longrightarrow> n < usize_range \<Longrightarrow>
    buddy_release cpuid s f n = Some (c, s') \<Longrightarrow> reachable ranges max_cpus cap mem_map cpus s'"

definition boot_config :: "usize \<Rightarrow> usize \<Rightarrow> usize \<Rightarrow> memory_region list \<Rightarrow> usize \<Rightarrow> bool" where
  "boot_config ranges max_cpus cap mem_map cpus \<longleftrightarrow> map_ok mem_map \<and> length mem_map \<le> ranges \<and> ranges < usize_range
     \<and> cap < usize_range \<and> 0 < cpus \<and> cpus \<le> max_cpus"

lemma boot_outcome:
  assumes "boot_config ranges mc cap gs cpus"
  obtains (empty) "bootstrap ranges mc cap gs cpus = Some (Err InvalidMemoryMap)" "map_frames gs = {}"
  | (metadata) "bootstrap ranges mc cap gs cpus = Some (Err MetadataExhausted)" "cap < card (map_frames gs)"
  | (ok) s where "bootstrap ranges mc cap gs cpus = Some (Ok s)" "buddy_inv s" "allocated s = Map.empty"
      "usable s = map_frames gs" "cpu_count s = cpus"
  using assms by (elim bootstrap_cases [of gs ranges cap cpus mc, rotated -1]) (auto simp: boot_config_def)

lemma reachable_ready:
  assumes "reachable ranges mc cap gs cpus s" "boot_config ranges mc cap gs cpus"
  shows "buddy_inv s \<and> cpu_count s = cpus \<and> usable s = map_frames gs"
  using assms
proof (induction rule: reachable.induct)
  case (boot s)
  then show ?case by (elim boot_outcome) auto
next
  case (alloc s cpuid n recovered r s')
  then have "buddy_ready cpuid s" by (simp add: buddy_ready_def)
  then show ?case
    by (rule buddy_alloc_outcome [where b = recovered, OF _ alloc.hyps(3)])
      (use alloc in \<open>auto simp: buddy_ready_def dest: fixed_partD(3) fixed_part_usable\<close>)
next
  case (retain s f c s')
  then have "buddy_ready 0 s" by (simp add: buddy_ready_def boot_config_def)
  then show ?case
    by (rule buddy_retain_outcome [where f = f])
      (use retain in \<open>auto simp: buddy_ready_def dest: fixed_partD(3) fixed_part_usable\<close>)
next
  case (release s cpuid n f c s')
  then have "buddy_ready cpuid s" by (simp add: buddy_ready_def)
  then show ?case
    by (rule buddy_release_outcome [where f = f, OF _ release.hyps(3)])
      (use release in \<open>auto simp: buddy_ready_def dest: fixed_partD(3) fixed_part_usable\<close>)
qed

lemma live_refcount:
  assumes "buddy_ready c s" "allocated s f = Some (k, r)"
  shows "0 < r" "r < 2 ^ 32"
proof -
  obtain L own where I: "idle s L own" using assms(1) by (auto simp: buddy_ready_def buddy_inv_def)
  obtain i where "i \<in> set (L LAlloc)" "bn_refcount (blk s i) = r" using assms(2) by (auto simp: map_of_entries [OF I])
  then have "placed (cpu_count s) LAlloc (blk s i)" "bn_refcount (blk s i) = r"
    using repD(6) [OF idleD(2) [OF I], of i LAlloc] lists_okD(4) [OF idleD(1) [OF I], of i LAlloc] by auto
  then show "0 < r" "r < 2 ^ 32" by simp_all
qed

section \<open>A small machine\<close>

text \<open>Four pages of memory above the first one, one CPU, eight block descriptors.\<close>

definition sample_map :: "memory_region list" where
  "sample_map = [\<lparr>region_start = 4096, region_len = 16384, region_kind = USABLE\<rparr>]"

definition sample_frame :: phys_frame where
  "sample_frame = \<lparr>start_address = 8192\<rparr>"

definition sample_trace where
  "sample_trace = do {
     booted \<leftarrow> bootstrap 1 1 8 sample_map 1;
     s0 \<leftarrow> to_option booted;
     (r0, _) \<leftarrow> buddy_alloc 0 False s0 1;
     (r1, s1) \<leftarrow> buddy_alloc 0 False s0 2;
     (r2, s2) \<leftarrow> buddy_retain s1 sample_frame;
     (r3, s3) \<leftarrow> buddy_release 0 s2 sample_frame 2;
     (r4, s4) \<leftarrow> buddy_release 0 s3 sample_frame 2;
     (r5, s5) \<leftarrow> buddy_release 0 s4 sample_frame 2;
     (r6, s6) \<leftarrow> alloc_frame_4k_on_cpu s5 0 3;
     Some (r0, r1, r2, r3, r4, r5, r6)
   }"

lemma sample_trace: "sample_trace = Some (Ok \<lparr>start_address = 12288\<rparr>, Ok sample_frame, Ok 2, Ok 1, Ok 0, Err InvalidFrame, Err OutOfMemory)"
  by code_simp

lemma sample_config: "boot_config 1 1 8 sample_map 1"
  by (simp add: boot_config_def map_ok_def sample_map_def usize_range_def PAGE_SIZE_def PAGE_SHIFT_def)

lemma sample_frames: "map_frames sample_map = {1 ..< 5}"
  by (simp add: map_frames_def sample_map_def region_frames_interval PAGE_SIZE_def PAGE_SHIFT_def)

lemma sample_run:
  obtains s0 s s1 s2 s3 s4 s6 where "bootstrap 1 1 8 sample_map 1 = Some (Ok s0)" "buddy_ready 0 s0"
    "usable s0 = {1 ..< 5}" "buddy_alloc 0 False s0 1 = Some (Ok \<lparr>start_address = 12288\<rparr>, s)"
    "buddy_alloc 0 False s0 2 = Some (Ok sample_frame, s1)" "buddy_ready 0 s1"
    "buddy_retain s1 sample_frame = Some (Ok 2, s2)" "buddy_ready 0 s2"
    "buddy_release 0 s2 sample_frame 2 = Some (Ok 1, s3)" "buddy_ready 0 s3"
    "buddy_release 0 s3 sample_frame 2 = Some (Ok 0, s4)" "buddy_ready 0 s4"
    "buddy_release 0 s4 sample_frame 2 = Some (Err InvalidFrame, s4)"
    "alloc_frame_4k_on_cpu s4 0 3 = Some (Err OutOfMemory, s6)"
proof -
  obtain s0 s' s1 s2 s3 s4 s5 s6 where s: "bootstrap 1 1 8 sample_map 1 = Some (Ok s0)"
    "buddy_alloc 0 False s0 2 = Some (Ok sample_frame, s1)" "buddy_retain s1 sample_frame = Some (Ok 2, s2)"
    "buddy_release 0 s2 sample_frame 2 = Some (Ok 1, s3)" "buddy_release 0 s3 sample_frame 2 = Some (Ok 0, s4)"
    "buddy_release 0 s4 sample_frame 2 = Some (Err InvalidFrame, s5)"
    "alloc_frame_4k_on_cpu s5 0 3 = Some (Err OutOfMemory, s6)"
    and one: "buddy_alloc 0 False s0 1 = Some (Ok \<lparr>start_address = 12288\<rparr>, s')"
    using sample_trace by (auto simp: sample_trace_def bind_eq_Some_conv)
  have n: "(2::nat) < usize_range" by (simp add: usize_range_def)
  have r0: "buddy_ready 0 s0" by (rule boot_outcome [OF sample_config]) (use s(1) in \<open>auto simp: buddy_ready_def\<close>)
  have r1: "buddy_ready 0 s1" using buddy_frames.alloc_keeps [OF r0 n s(2)] by simp
  have r2: "buddy_ready 0 s2" using buddy_frames.retain_returns [OF r1, of sample_frame] s(3) by auto
  have r3: "buddy_ready 0 s3" using buddy_frames.release_returns [OF r2 n, of sample_frame] s(4) by auto
  have r4: "buddy_ready 0 s4" using buddy_frames.release_returns [OF r3 n, of sample_frame] s(5) by auto
  have "s5 = s4" by (rule buddy_frames.release_err [OF r4 n s(6)])
  moreover have "usable s0 = {1 ..< 5}"
    by (rule boot_outcome [OF sample_config]) (use s(1) sample_frames in auto)
  ultimately show ?thesis using s(6,7) by (intro that [OF s(1) r0 _ one s(2) r1 s(3) r2 s(4) r3 s(5) r4]) simp_all
qed

section \<open>Properties\<close>

text \<open>
  C1: Every allocator state that boot and any sequence of allocations, retains and releases
  reach satisfies the invariant, is accepted by the code's own \<open>validate_invariants\<close>, manages
  exactly the usable frames of the memory map, and \<open>free_pages\<close> is the number of usable frames
  minus the number of frames in live blocks.
\<close>

theorem reachable_sound:
  assumes "boot_config ranges max_cpus cap mem_map cpus" "reachable ranges max_cpus cap mem_map cpus s"
  shows "buddy_inv s \<and> validate_invariants s = Some (Ok ()) \<and> usable s = map_frames mem_map \<and>
    free_pages s = Some (card (map_frames mem_map) - card (allocated_frames s))"
proof -
  note r = reachable_ready [OF assms(2,1)]
  then obtain L own where "idle s L own" by (auto simp: buddy_inv_def)
  then show ?thesis using validate_accepts free_pages_eq r by auto
qed

theorem reachable_sound_witness:
  "\<exists>s s'. bootstrap 1 1 8 sample_map 1 = Some (Ok s) \<and> buddy_alloc 0 False s 2 = Some (Ok sample_frame, s') \<and>
    validate_invariants s' = Some (Ok ())"
proof -
  obtain s0 s1 where s: "bootstrap 1 1 8 sample_map 1 = Some (Ok s0)" "buddy_alloc 0 False s0 2 = Some (Ok sample_frame, s1)"
    by (rule sample_run)
  have "reachable 1 1 8 sample_map 1 s1"
    by (rule reachable.alloc [OF reachable.boot [OF s(1)] _ _ s(2)]) (simp_all add: usize_range_def)
  then show ?thesis using reachable_sound [OF sample_config] s by blast
qed

text \<open>
  C2: A successful allocation of \<open>n\<close> frames returns an aligned frame address whose block of
  \<open>2 ^ ceil_log2 n\<close> frames, at least \<open>n\<close> of them, lies in usable memory, meets no live block,
  and is entered in the ledger with reference count one; every allocation returns, and one that
  fails leaves the ledger as it was.
\<close>

theorem alloc_safe:
  assumes "buddy_ready cpuid s" "n < usize_range"
  shows "\<exists>r s'. buddy_alloc cpuid recovered s n = Some (r, s') \<and> buddy_ready cpuid s' \<and>
    (case r of
       Ok f \<Rightarrow> aligned_frame f \<and> n \<le> 2 ^ ceil_log2 n \<and>
         {frame_index f ..< frame_index f + 2 ^ ceil_log2 n} \<subseteq> usable s - allocated_frames s \<and>
         allocated s' = (allocated s)(frame_index f \<mapsto> (ceil_log2 n, 1))
     | Err e \<Rightarrow> allocated s' = allocated s)"
proof -
  obtain r s' where r: "buddy_alloc cpuid recovered s n = Some (r, s')"
    using buddy_frames.alloc_returns [OF assms] by blast
  then show ?thesis
    using buddy_frames.alloc_keeps [OF assms r] buddy_frames.alloc_ok [OF assms] buddy_frames.alloc_err [OF assms]
    by (cases r) (simp_all add: allocated_frames_taken)
qed

theorem alloc_safe_witness:
  "\<exists>s s'. bootstrap 1 1 8 sample_map 1 = Some (Ok s) \<and> buddy_alloc 0 False s 2 = Some (Ok sample_frame, s') \<and>
    {2 ..< 4} \<subseteq> usable s - allocated_frames s"
proof -
  obtain s0 s1 where s: "bootstrap 1 1 8 sample_map 1 = Some (Ok s0)" "buddy_ready 0 s0"
    "buddy_alloc 0 False s0 2 = Some (Ok sample_frame, s1)"
    by (rule sample_run)
  have "ceil_log2 2 = 1" "frame_index sample_frame = 2" by code_simp+
  then have "{2 ..< 4} \<subseteq> usable s0 - allocated_frames s0"
    using alloc_safe [OF s(2), of 2 False] s(3) by (simp add: usize_range_def)
  then show ?thesis using s by blast
qed

text \<open>
  C4: Releasing what was just allocated, with the same count, succeeds with no reference left
  and restores the ledger of live blocks: allocate and release are inverse.
\<close>

theorem alloc_release_inverse:
  assumes "buddy_ready cpuid s" "0 < n" "n < usize_range" "buddy_alloc cpuid recovered s n = Some (Ok f, s1)"
  shows "\<exists>s2. buddy_release cpuid s1 f n = Some (Ok 0, s2) \<and> allocated s2 = allocated s \<and> buddy_ready cpuid s2"
  by (rule buddy_frames.alloc_release [OF assms(1,3,2,4)]) blast

theorem alloc_release_inverse_witness:
  "\<exists>s s1 s2. bootstrap 1 1 8 sample_map 1 = Some (Ok s) \<and> buddy_alloc 0 False s 2 = Some (Ok sample_frame, s1) \<and>
    buddy_release 0 s1 sample_frame 2 = Some (Ok 0, s2) \<and> allocated s2 = allocated s"
proof -
  obtain s0 s1 where s: "bootstrap 1 1 8 sample_map 1 = Some (Ok s0)" "buddy_ready 0 s0"
    "buddy_alloc 0 False s0 2 = Some (Ok sample_frame, s1)"
    by (rule sample_run)
  show ?thesis using alloc_release_inverse [OF s(2) _ _ s(3)] s by (auto simp: usize_range_def)
qed

text \<open>
  C3: Releasing a frame changes the ledger only when the address is aligned, the frame heads a
  live block and the count has the block's order: then the reference count drops by one and the
  block leaves the ledger exactly when it reaches zero. In every other case, a double free or a
  count of the wrong order among them, the call fails and the state is untouched.
\<close>

theorem release_exact:
  assumes "buddy_ready cpuid s" "n < usize_range"
  shows "\<exists>r s'. buddy_release cpuid s f n = Some (r, s') \<and> buddy_ready cpuid s' \<and>
    (if aligned_frame f \<and> 0 < n \<and> (\<exists>q. allocated s (frame_index f) = Some (ceil_log2 n, q))
     then \<exists>q. r = Ok q \<and> allocated s (frame_index f) = Some (ceil_log2 n, q + 1) \<and>
       allocated s' = (allocated s)(frame_index f := if q = 0 then None else Some (ceil_log2 n, q))
     else s' = s \<and> (\<exists>e. r = Err e))"
  by (rule buddy_release_outcome [OF assms, of f]) (use assms(1) in auto)

theorem release_exact_witness:
  "\<exists>s s' s''. buddy_ready 0 s \<and> buddy_release 0 s sample_frame 2 = Some (Ok 0, s') \<and> allocated s' (frame_index sample_frame) = None \<and>
    buddy_release 0 s' sample_frame 2 = Some (Err InvalidFrame, s'') \<and> s'' = s'"
proof -
  obtain s3 s4 where s: "buddy_ready 0 s3" "buddy_release 0 s3 sample_frame 2 = Some (Ok 0, s4)"
    "buddy_release 0 s4 sample_frame 2 = Some (Err InvalidFrame, s4)"
    by (rule sample_run)
  have "allocated s4 (frame_index sample_frame) = None"
    using release_exact [OF s(1), of 2 sample_frame] s(2) by (auto simp: usize_range_def split: if_splits)
  then show ?thesis using s by blast
qed

text \<open>
  C5: An allocation that reports out of memory is honest and changes nothing: no free list of
  a sufficient order has a block, and neither has the calling CPU's cache of that order.
\<close>

theorem alloc_oom_honest:
  assumes "buddy_inv s" "n < usize_range" "alloc_frame_4k_on_cpu s c n = Some (Err OutOfMemory, s')"
  shows "s' = s \<and> (\<forall>k. ceil_log2 n \<le> k \<and> k \<le> max_order s \<longrightarrow> global_free_len s k = Some (Ok 0)) \<and>
    (ceil_log2 n \<le> PER_CPU_CACHE_MAX_ORDER \<longrightarrow> cpu_cache_len s c (ceil_log2 n) = Some (Ok 0))"
proof -
  obtain L own where I: "idle s L own" using assms(1) by (auto simp: buddy_inv_def)
  note D = idleD [OF I]
  show ?thesis
  proof (rule alloc_frame_cases [OF I assms(2), of c])
    assume a: "alloc_frame_4k_on_cpu s c n = Some (Err OutOfMemory, s)" "c < cpu_count s"
      "\<And>j. ceil_log2 n \<le> j \<Longrightarrow> j \<le> max_order s \<Longrightarrow> L (LFree j) = []"
      "ceil_log2 n \<le> PER_CPU_CACHE_MAX_ORDER \<Longrightarrow> L (LCache c (ceil_log2 n)) = []"
    have "global_free_len s k = Some (Ok 0)" if "ceil_log2 n \<le> k" "k \<le> max_order s" for k
      using that a(3) [OF that] D(5) repD(4) [OF D(2), of "LFree k"] shape_lengths(2) [OF repD(1) [OF D(2)]]
      by (simp add: global_free_len_def MAX_ORDER_SLOTS_def)
    moreover have "cpu_cache_len s c (ceil_log2 n) = Some (Ok 0)" if "ceil_log2 n \<le> PER_CPU_CACHE_MAX_ORDER"
      using that a(2,4) D(3) cache_len_spec [OF D(2), of c "ceil_log2 n"]
      by (simp add: cpu_cache_len_def checked_cpu_def config_ok_def)
    ultimately show ?thesis using a(1) assms(3) by simp
  qed (use assms(3) in auto)
qed

theorem alloc_oom_honest_witness:
  "\<exists>s. buddy_ready 0 s \<and> alloc_frame_4k_on_cpu s 0 3 = Some (Err OutOfMemory, s) \<and> cpu_cache_len s 0 2 = Some (Ok 0)"
proof -
  obtain s4 s6 where s: "buddy_ready 0 s4" "alloc_frame_4k_on_cpu s4 0 3 = Some (Err OutOfMemory, s6)" by (rule sample_run)
  have "ceil_log2 3 = 2" by code_simp
  then show ?thesis
    using alloc_oom_honest [OF _ _ s(2)] s by (auto simp: buddy_ready_def usize_range_def PER_CPU_CACHE_MAX_ORDER_def)
qed





text \<open>
  C8: Draining a per-CPU cache terminates, leaves at most the high watermark of blocks in it,
  and keeps the invariant and the ledger of live blocks.
\<close>

theorem drain_bounds_cache:
  assumes "buddy_inv s" "cpuid < cpu_count s" "k \<le> PER_CPU_CACHE_MAX_ORDER"
  shows "\<exists>s' n. drain_per_cpu_cache s cpuid k = Some (Ok (), s') \<and> cpu_cache_len s' cpuid k = Some (Ok n) \<and>
    n \<le> high_watermark k \<and> buddy_inv s' \<and> allocated s' = allocated s"
proof -
  obtain L own where I: "idle s L own" using assms(1) by (auto simp: buddy_inv_def)
  obtain s' L' own' where s': "drain_per_cpu_cache s cpuid k = Some (Ok (), s')" "idle s' L' own'"
    "untouched (beside cpuid k) s L s' L'" "length (L' (LCache cpuid k)) \<le> high_watermark k"
    by (rule drain_spec [OF I assms(2,3)])
  have c: "cpuid < cpu_count s'" using fixed_partD(3) [OF untouched_fixed [OF s'(3)]] assms(2) by simp
  have "cpu_cache_len s' cpuid k = Some (Ok (length (L' (LCache cpuid k))))"
    using c assms(3) idleD(3) [OF s'(2)] cache_len_spec [OF idleD(2) [OF s'(2)], of cpuid k]
    by (simp add: cpu_cache_len_def checked_cpu_def config_ok_def)
  then show ?thesis using s' allocated_untouched [OF I s'(2,3)] by (auto simp: buddy_inv_def)
qed

theorem drain_bounds_cache_witness:
  "\<exists>s s'. buddy_ready 0 s \<and> drain_per_cpu_cache s 0 1 = Some (Ok (), s') \<and> allocated s' = allocated s"
proof -
  obtain s4 where s: "buddy_ready 0 s4" by (rule sample_run)
  then show ?thesis
    using drain_bounds_cache [of s4 0 1] by (auto simp: buddy_ready_def PER_CPU_CACHE_MAX_ORDER_def)
qed

text \<open>
  C9: Retaining a live block raises its reference count by one, up to the \<open>u32\<close> limit, and one
  release then brings the ledger back; a frame that heads no live block cannot be retained.
\<close>

theorem retain_then_release:
  assumes "buddy_ready cpuid s" "aligned_frame f" "0 < n" "n < usize_range"
  shows "case allocated s (frame_index f) of
      None \<Rightarrow> buddy_retain s f = Some (Err InvalidFrame, s)
    | Some (k, q) \<Rightarrow>
        if q = 2 ^ 32 - 1 then buddy_retain s f = Some (Err RefCountOverflow, s)
        else \<exists>s1. buddy_retain s f = Some (Ok (q + 1), s1) \<and> buddy_ready cpuid s1 \<and>
          buddy_ref_count s1 f = Some (Some (q + 1)) \<and>
          (k = ceil_log2 n \<longrightarrow> (\<exists>s2. buddy_release cpuid s1 f n = Some (Ok q, s2) \<and> allocated s2 = allocated s))"
proof (rule buddy_retain_outcome [OF assms(1), of f])
  fix k r s' assume s': "buddy_retain s f = Some (Ok (r + 1), s')" "allocated s (frame_index f) = Some (k, r)"
    "buddy_ready cpuid s'" "allocated s' = (allocated s)(frame_index f \<mapsto> (k, r + 1))"
  have r: "0 < r" "r \<noteq> 2 ^ 32 - 1"
    using live_refcount [OF assms(1) s'(2)] live_refcount [OF s'(3), of "frame_index f" k "r + 1"] s'(4) by simp_all
  have "\<exists>s2. buddy_release cpuid s' f n = Some (Ok r, s2) \<and> allocated s2 = allocated s" if "k = ceil_log2 n"
    by (rule buddy_frames.retain_release [OF assms(1,4,3,2) _ r(1) s'(1)]) (use s'(2) that in auto)
  then show ?thesis using s' r buddy_ref_count_eq [OF s'(3) assms(2)] by simp
qed (use assms(2) in auto)

theorem retain_then_release_witness:
  "\<exists>s s1 s2. buddy_ready 0 s \<and> buddy_retain s sample_frame = Some (Ok 2, s1) \<and>
    buddy_release 0 s1 sample_frame 2 = Some (Ok 1, s2) \<and> allocated s2 = allocated s"
proof -
  obtain s0 s1 s2 where s: "buddy_ready 0 s0" "buddy_alloc 0 False s0 2 = Some (Ok sample_frame, s1)" "buddy_ready 0 s1"
    "buddy_retain s1 sample_frame = Some (Ok 2, s2)"
    by (rule sample_run)
  have f: "aligned_frame sample_frame" "frame_index sample_frame = 2" by code_simp+
  have n: "(2::nat) < usize_range" by (simp add: usize_range_def)
  have "allocated s1 2 = Some (ceil_log2 2, 1)" using buddy_frames.alloc_ok [OF s(1) n s(2)] f(2) by simp
  then show ?thesis using retain_then_release [OF s(3) f(1) _ n] f(2) s(3,4) by auto
qed

end
