(* ===== verification/Paging.thy ===== *)
theory Paging
  imports Frame_Allocator
begin

text \<open>
  Virtual memory mapping: \<open>aether-frame/src/mm/mapper.rs\<close> (the architecture independent
  \<open>AddressSpace\<close>), \<open>aether-frame/src/arch/x86_64/mm/paging.rs\<close> (the x86-64 page table
  format) and \<open>aether-frame/src/arch/x86_64/mm/mod.rs\<close> (the root table of a process).

  The code is generic over the trait \<open>PageTableArch\<close> and over the trait \<open>FrameAllocator\<close>.
  The first is a record of functions \<open>arch\<close>, passed to every definition as the compiler
  passes a trait's dictionary; of the second the definitions take the functions they call.
  Physical memory is a function from the address of an eight byte cell to its contents: the
  kernel reaches it through a window at a fixed offset, so that the pointer of entry \<open>i\<close> of
  the table in a frame stands for the cell \<open>start + 8 * i\<close>. \<open>CR3\<close> and the addresses whose
  translation the code flushes are part of the state.
\<close>

unbundle bit_operations_syntax

section \<open>Addresses and flags\<close>

definition is_aligned :: "usize \<Rightarrow> usize \<Rightarrow> bool" where
  "is_aligned addr align \<longleftrightarrow> addr AND (align - 1) = 0"

type_synonym map_flags = "64 word"

definition READ :: map_flags where
  "READ = 1"

definition WRITE :: map_flags where
  "WRITE = 2"

definition EXECUTE :: map_flags where
  "EXECUTE = 4"

definition USER :: map_flags where
  "USER = 8"

definition GLOBAL :: map_flags where
  "GLOBAL = 16"

definition NO_CACHE :: map_flags where
  "NO_CACHE = 32"

definition WRITE_THROUGH :: map_flags where
  "WRITE_THROUGH = 64"

definition contains :: "map_flags \<Rightarrow> map_flags \<Rightarrow> bool" where
  "contains flags other \<longleftrightarrow> flags AND other = other"

definition without :: "map_flags \<Rightarrow> map_flags \<Rightarrow> map_flags" where
  "without flags other = flags AND NOT other"

datatype map_size = Size4KiB | Size2MiB | Size1GiB

datatype mapping_error =
  InvalidAddress | AlreadyMapped | NotMapped | UnsupportedSize | MapOutOfMemory | Frame frame_alloc_error

record unmap_result =
  ur_frame :: phys_frame
  remaining_refs :: usize
  ur_size :: map_size

section \<open>The interface to the processor\<close>

type_synonym entry = "64 word"

record arch =
  LEVELS :: nat
  ENTRY_COUNT :: nat
  page_size :: "nat \<Rightarrow> usize option"
  leaf_level :: "map_size \<Rightarrow> nat option"
  index_of :: "usize \<Rightarrow> nat \<Rightarrow> nat"
  is_present :: "entry \<Rightarrow> bool"
  is_leaf :: "entry \<Rightarrow> nat \<Rightarrow> bool"
  entry_frame :: "entry \<Rightarrow> phys_frame"
  make_table :: "phys_frame \<Rightarrow> map_flags \<Rightarrow> entry"
  make_leaf :: "phys_frame \<Rightarrow> nat \<Rightarrow> map_flags \<Rightarrow> entry"

type_synonym cells = "usize \<Rightarrow> entry"

record 's mm =
  cells :: cells
  frames :: 's
  cr3 :: phys_frame
  flushed :: "usize list"

definition table_entry :: "phys_frame \<Rightarrow> nat \<Rightarrow> usize" where
  "table_entry frame index = start_address frame + 8 * index"

definition read_entry :: "'s mm \<Rightarrow> usize \<Rightarrow> entry" where
  "read_entry st p = cells st p"

definition write_entry :: "'s mm \<Rightarrow> usize \<Rightarrow> entry \<Rightarrow> 's mm" where
  "write_entry st p e = st\<lparr>cells := (cells st)(p := e)\<rparr>"

definition zero_cells :: "cells \<Rightarrow> phys_frame \<Rightarrow> cells" where
  "zero_cells m frame = (\<lambda>p. if start_address frame \<le> p \<and> p < start_address frame + PAGE_SIZE then 0 else m p)"

definition zero_page :: "'s mm \<Rightarrow> phys_frame \<Rightarrow> 's mm" where
  "zero_page st frame = st\<lparr>cells := zero_cells (cells st) frame\<rparr>"

text \<open>\<open>AddressSpace::invalidate\<close>: only the active address space has translations to flush.\<close>

definition invalidate :: "phys_frame \<Rightarrow> usize \<Rightarrow> 's mm \<Rightarrow> 's mm" where
  "invalidate root virt st = (if root = cr3 st then st\<lparr>flushed := virt # flushed st\<rparr> else st)"

text \<open>A call into the frame allocator, its error converted by \<open>From\<close>.\<close>

definition frames_call :: "('s, frame_alloc_error, 'a) run \<Rightarrow> 's mm \<Rightarrow> ('s mm, mapping_error, 'a) run" where
  "frames_call c st = (case c of
       None \<Rightarrow> None
     | Some (Ok a, s) \<Rightarrow> Some (Ok a, st\<lparr>frames := s\<rparr>)
     | Some (Err e, s) \<Rightarrow> Some (Err (Frame e), st\<lparr>frames := s\<rparr>))"

definition frame_count_for_size :: "map_size \<Rightarrow> usize" where
  "frame_count_for_size sz = (case sz of
       Size4KiB \<Rightarrow> 1 | Size2MiB \<Rightarrow> 0x200000 div PAGE_SIZE | Size1GiB \<Rightarrow> 0x40000000 div PAGE_SIZE)"

definition map_size_for_level :: "arch \<Rightarrow> nat \<Rightarrow> (mapping_error, map_size) result" where
  "map_size_for_level A level =
     (if page_size A level = Some 4096 then Ok Size4KiB
      else if page_size A level = Some 0x200000 then Ok Size2MiB
      else if page_size A level = Some 0x40000000 then Ok Size1GiB
      else Err UnsupportedSize)"

section \<open>Mapping\<close>

definition new_root :: "('s \<Rightarrow> usize \<Rightarrow> ('s, frame_alloc_error, phys_frame) run) \<Rightarrow> 's mm \<Rightarrow>
    ('s mm, mapping_error, phys_frame) run" where
  "new_root alloc st = and_then (frames_call (alloc (frames st) 1) st) (\<lambda>root st.
     Some (Ok root, zero_page st root))"

text \<open>The loop of \<open>map\<close> over the levels above the leaf: it creates the tables that are missing.\<close>

fun map_levels :: "arch \<Rightarrow> ('s \<Rightarrow> usize \<Rightarrow> ('s, frame_alloc_error, phys_frame) run) \<Rightarrow> usize \<Rightarrow> map_flags \<Rightarrow>
    nat list \<Rightarrow> phys_frame \<Rightarrow> 's mm \<Rightarrow> ('s mm, mapping_error, phys_frame) run" where
  "map_levels A alloc virt flags [] table st = Some (Ok table, st)"
| "map_levels A alloc virt flags (level # levels) table st =
     (let entry_ptr = table_entry table (index_of A virt level);
          entry = read_entry st entry_ptr
      in if \<not> is_present A entry
         then and_then (frames_call (alloc (frames st) 1) st) (\<lambda>next_table st.
                map_levels A alloc virt flags levels next_table
                  (write_entry (zero_page st next_table) entry_ptr (make_table A next_table flags)))
         else if is_leaf A entry level then Some (Err AlreadyMapped, st)
         else map_levels A alloc virt flags levels (entry_frame A entry) st)"

definition map_page :: "arch \<Rightarrow> ('s \<Rightarrow> usize \<Rightarrow> ('s, frame_alloc_error, phys_frame) run) \<Rightarrow> phys_frame \<Rightarrow>
    usize \<Rightarrow> phys_frame \<Rightarrow> map_size \<Rightarrow> map_flags \<Rightarrow> 's mm \<Rightarrow> ('s mm, mapping_error, unit) run" where
  "map_page A alloc root virt frame sz flags st = (case leaf_level A sz of
       None \<Rightarrow> Some (Err UnsupportedSize, st)
     | Some leaf \<Rightarrow> (case page_size A leaf of
         None \<Rightarrow> Some (Err UnsupportedSize, st)
       | Some bytes \<Rightarrow>
           if \<not> is_aligned virt bytes \<or> \<not> is_aligned (start_address frame) bytes
           then Some (Err InvalidAddress, st)
           else and_then (map_levels A alloc virt flags [0..<leaf] root st) (\<lambda>table st.
             let entry_ptr = table_entry table (index_of A virt leaf)
             in if is_present A (read_entry st entry_ptr) then Some (Err AlreadyMapped, st)
                else Some (Ok (), invalidate root virt (write_entry st entry_ptr (make_leaf A frame leaf flags))))))"

definition map_alloc :: "arch \<Rightarrow> ('s \<Rightarrow> usize \<Rightarrow> ('s, frame_alloc_error, phys_frame) run) \<Rightarrow>
    ('s \<Rightarrow> phys_frame \<Rightarrow> usize \<Rightarrow> ('s, frame_alloc_error, usize) run) \<Rightarrow> phys_frame \<Rightarrow>
    usize \<Rightarrow> map_size \<Rightarrow> map_flags \<Rightarrow> 's mm \<Rightarrow> ('s mm, mapping_error, unit) run" where
  "map_alloc A alloc release root virt sz flags st =
     (let count = frame_count_for_size sz in do {
       (got, st) \<leftarrow> frames_call (alloc (frames st) count) st;
       case got of
         Err _ \<Rightarrow> Some (Err MapOutOfMemory, st)
       | Ok frame \<Rightarrow> do {
           (r, st) \<leftarrow> map_page A alloc root virt frame sz flags st;
           case r of
             Ok _ \<Rightarrow> Some (Ok (), st)
           | Err e \<Rightarrow> do {
               (_, st) \<leftarrow> frames_call (release (frames st) frame count) st;
               Some (Err e, st)
             }
         }
     })"

section \<open>Unmapping\<close>

definition MAX_PAGE_TABLE_LEVELS :: nat where
  "MAX_PAGE_TABLE_LEVELS = 5"

record walk_entry =
  we_table :: phys_frame
  we_index :: nat

definition table_is_empty :: "arch \<Rightarrow> 's mm \<Rightarrow> phys_frame \<Rightarrow> bool" where
  "table_is_empty A st table =
     list_all (\<lambda>index. \<not> is_present A (read_entry st (table_entry table index))) [0..<ENTRY_COUNT A]"

text \<open>The loop climbs from the leaf's level towards the root; level zero ends it.\<close>

fun prune_empty_tables :: "arch \<Rightarrow> ('s \<Rightarrow> phys_frame \<Rightarrow> usize \<Rightarrow> ('s, frame_alloc_error, usize) run) \<Rightarrow>
    walk_entry option list \<Rightarrow> nat \<Rightarrow> 's mm \<Rightarrow> ('s mm, mapping_error, unit) run" where
  "prune_empty_tables A release walk 0 st = Some (Ok (), st)"
| "prune_empty_tables A release walk (Suc level) st = do {
     slot \<leftarrow> at walk (Suc level);
     case slot of
       None \<Rightarrow> Some (Err NotMapped, st)
     | Some child \<Rightarrow>
         if \<not> table_is_empty A st (we_table child) then Some (Ok (), st)
         else do {
           slot \<leftarrow> at walk level;
           case slot of
             None \<Rightarrow> Some (Err NotMapped, st)
           | Some parent \<Rightarrow>
               (let st = write_entry st (table_entry (we_table parent) (we_index parent)) 0
                in and_then (frames_call (release (frames st) (we_table child) 1) st) (\<lambda>_ st.
                     prune_empty_tables A release walk level st))
         }
   }"

fun unmap_levels :: "arch \<Rightarrow> ('s \<Rightarrow> phys_frame \<Rightarrow> usize \<Rightarrow> ('s, frame_alloc_error, usize) run) \<Rightarrow> phys_frame \<Rightarrow>
    usize \<Rightarrow> bool \<Rightarrow> nat list \<Rightarrow> phys_frame \<Rightarrow> walk_entry option list \<Rightarrow> 's mm \<Rightarrow>
    ('s mm, mapping_error, unmap_result) run" where
  "unmap_levels A release root virt release_frame [] table walk st = Some (Err NotMapped, st)"
| "unmap_levels A release root virt release_frame (level # levels) table walk st =
     (let index = index_of A virt level;
          entry_ptr = table_entry table index;
          entry = read_entry st entry_ptr
      in if \<not> is_present A entry then Some (Err NotMapped, st)
         else do {
           walk \<leftarrow> put walk level (Some \<lparr>we_table = table, we_index = index\<rparr>);
           if is_leaf A entry level
           then (case map_size_for_level A level of
               Err e \<Rightarrow> Some (Err e, st)
             | Ok sz \<Rightarrow>
                 (let st = invalidate root virt (write_entry st entry_ptr 0);
                      frame = entry_frame A entry
                  in and_then
                       (if release_frame
                        then frames_call (release (frames st) frame (frame_count_for_size sz)) st
                        else Some (Ok 1, st))
                       (\<lambda>refs st. and_then (prune_empty_tables A release walk level st) (\<lambda>_ st.
                          Some (Ok \<lparr>ur_frame = frame, remaining_refs = refs, ur_size = sz\<rparr>, st)))))
           else unmap_levels A release root virt release_frame levels (entry_frame A entry) walk st
         })"

definition unmap_inner :: "arch \<Rightarrow> ('s \<Rightarrow> phys_frame \<Rightarrow> usize \<Rightarrow> ('s, frame_alloc_error, usize) run) \<Rightarrow> phys_frame \<Rightarrow>
    usize \<Rightarrow> bool \<Rightarrow> 's mm \<Rightarrow> ('s mm, mapping_error, unmap_result) run" where
  "unmap_inner A release root virt release_frame st =
     unmap_levels A release root virt release_frame [0..<min MAX_PAGE_TABLE_LEVELS (LEVELS A)] root
       (replicate MAX_PAGE_TABLE_LEVELS None) st"

definition unmap :: "arch \<Rightarrow> ('s \<Rightarrow> phys_frame \<Rightarrow> usize \<Rightarrow> ('s, frame_alloc_error, usize) run) \<Rightarrow> phys_frame \<Rightarrow>
    usize \<Rightarrow> 's mm \<Rightarrow> ('s mm, mapping_error, unmap_result) run" where
  "unmap A release root virt st = unmap_inner A release root virt True st"

definition unmap_preserve :: "arch \<Rightarrow> ('s \<Rightarrow> phys_frame \<Rightarrow> usize \<Rightarrow> ('s, frame_alloc_error, usize) run) \<Rightarrow>
    phys_frame \<Rightarrow> usize \<Rightarrow> 's mm \<Rightarrow> ('s mm, mapping_error, unmap_result) run" where
  "unmap_preserve A release root virt st = unmap_inner A release root virt False st"

section \<open>Changing the flags of a mapping\<close>

fun protect_levels :: "arch \<Rightarrow> phys_frame \<Rightarrow> usize \<Rightarrow> map_flags \<Rightarrow> nat list \<Rightarrow> phys_frame \<Rightarrow> 's mm \<Rightarrow>
    ('s mm, mapping_error, unit) run" where
  "protect_levels A root virt flags [] table st = Some (Err NotMapped, st)"
| "protect_levels A root virt flags (level # levels) table st =
     (let entry_ptr = table_entry table (index_of A virt level);
          entry = read_entry st entry_ptr
      in if \<not> is_present A entry then Some (Err NotMapped, st)
         else if is_leaf A entry level
         then Some (Ok (), invalidate root virt
                (write_entry st entry_ptr (make_leaf A (entry_frame A entry) level flags)))
         else protect_levels A root virt flags levels (entry_frame A entry) st)"

definition protect :: "arch \<Rightarrow> phys_frame \<Rightarrow> usize \<Rightarrow> map_flags \<Rightarrow> 's mm \<Rightarrow> ('s mm, mapping_error, unit) run" where
  "protect A root virt flags st = protect_levels A root virt flags [0..<LEVELS A] root st"

section \<open>The x86-64 format\<close>

definition LEVEL_SHIFTS :: "nat list" where
  "LEVEL_SHIFTS = [39, 30, 21, 12]"

definition PAGE_SIZES :: "usize list" where
  "PAGE_SIZES = [0, 0x40000000, 0x200000, 0x1000]"

definition ENTRY_PRESENT :: entry where
  "ENTRY_PRESENT = push_bit 0 1"

definition ENTRY_WRITABLE :: entry where
  "ENTRY_WRITABLE = push_bit 1 1"

definition ENTRY_USER :: entry where
  "ENTRY_USER = push_bit 2 1"

definition ENTRY_WRITE_THROUGH :: entry where
  "ENTRY_WRITE_THROUGH = push_bit 3 1"

definition ENTRY_CACHE_DISABLE :: entry where
  "ENTRY_CACHE_DISABLE = push_bit 4 1"

definition ENTRY_HUGE :: entry where
  "ENTRY_HUGE = push_bit 7 1"

definition ENTRY_GLOBAL :: entry where
  "ENTRY_GLOBAL = push_bit 8 1"

definition ENTRY_NO_EXECUTE :: entry where
  "ENTRY_NO_EXECUTE = push_bit 63 1"

definition ENTRY_ADDR_MASK :: entry where
  "ENTRY_ADDR_MASK = 0x000ffffffffff000"

definition x86_page_size :: "nat \<Rightarrow> usize option" where
  "x86_page_size level =
     (if level < length PAGE_SIZES \<and> PAGE_SIZES ! level \<noteq> 0 then Some (PAGE_SIZES ! level) else None)"

definition x86_leaf_level :: "map_size \<Rightarrow> nat option" where
  "x86_leaf_level sz = (case sz of Size1GiB \<Rightarrow> Some 1 | Size2MiB \<Rightarrow> Some 2 | Size4KiB \<Rightarrow> Some 3)"

definition x86_index_of :: "usize \<Rightarrow> nat \<Rightarrow> nat" where
  "x86_index_of addr level = drop_bit (LEVEL_SHIFTS ! level) addr AND 0x1ff"

definition x86_is_present :: "entry \<Rightarrow> bool" where
  "x86_is_present entry \<longleftrightarrow> entry AND ENTRY_PRESENT \<noteq> 0"

definition x86_is_leaf :: "entry \<Rightarrow> nat \<Rightarrow> bool" where
  "x86_is_leaf entry level \<longleftrightarrow> level = 3 \<or> entry AND ENTRY_HUGE \<noteq> 0"

definition x86_entry_frame :: "entry \<Rightarrow> phys_frame" where
  "x86_entry_frame entry = \<lparr>start_address = unat (entry AND ENTRY_ADDR_MASK)\<rparr>"

definition x86_make_table :: "phys_frame \<Rightarrow> map_flags \<Rightarrow> entry" where
  "x86_make_table frame flags =
     (let entry = of_nat (start_address frame) OR ENTRY_PRESENT OR ENTRY_WRITABLE
      in if contains flags USER then entry OR ENTRY_USER else entry)"

definition x86_make_leaf :: "phys_frame \<Rightarrow> nat \<Rightarrow> map_flags \<Rightarrow> entry" where
  "x86_make_leaf frame level flags =
     (let entry = of_nat (start_address frame) OR ENTRY_PRESENT;
          entry = (if contains flags WRITE then entry OR ENTRY_WRITABLE else entry);
          entry = (if contains flags USER then entry OR ENTRY_USER else entry);
          entry = (if contains flags WRITE_THROUGH then entry OR ENTRY_WRITE_THROUGH else entry);
          entry = (if contains flags NO_CACHE then entry OR ENTRY_CACHE_DISABLE else entry);
          entry = (if contains flags GLOBAL then entry OR ENTRY_GLOBAL else entry);
          entry = (if \<not> contains flags EXECUTE then entry OR ENTRY_NO_EXECUTE else entry)
      in if level = 1 \<or> level = 2 then entry OR ENTRY_HUGE else entry)"

definition x86_64 :: arch where
  "x86_64 = \<lparr>LEVELS = 4, ENTRY_COUNT = 512, page_size = x86_page_size, leaf_level = x86_leaf_level,
     index_of = x86_index_of, is_present = x86_is_present, is_leaf = x86_is_leaf,
     entry_frame = x86_entry_frame, make_table = x86_make_table, make_leaf = x86_make_leaf\<rparr>"

section \<open>The root table of a process\<close>

text \<open>\<open>copy_kernel_pml4_half\<close>: the upper half of the address space is the current one's.\<close>

fun copy_entries :: "nat list \<Rightarrow> phys_frame \<Rightarrow> phys_frame \<Rightarrow> 's mm \<Rightarrow> 's mm" where
  "copy_entries [] current root st = st"
| "copy_entries (index # indices) current root st =
     copy_entries indices current root
       (write_entry st (table_entry root index) (read_entry st (table_entry current index)))"

definition copy_kernel_pml4_half :: "phys_frame \<Rightarrow> 's mm \<Rightarrow> 's mm" where
  "copy_kernel_pml4_half root st = copy_entries [256..<512] (cr3 st) root st"

definition new_user_root :: "('s \<Rightarrow> usize \<Rightarrow> ('s, frame_alloc_error, phys_frame) run) \<Rightarrow> 's mm \<Rightarrow>
    ('s mm, mapping_error, phys_frame) run" where
  "new_user_root alloc st = and_then (new_root alloc st) (\<lambda>root st.
     Some (Ok root, copy_kernel_pml4_half root st))"

end
