(* ===== verification/Paging_Trees.thy ===== *)
theory Paging_Trees
  imports Paging
begin

text \<open>
  Page tables as trees. \<open>translate\<close> is what the processor does with them: it follows the
  indices of an address down to a leaf. The contract of \<open>PageTableArch\<close> is a locale; in it
  the effect of writing one entry is worked out once, for every operation of the mapper.
\<close>

section \<open>The tables of an address space and its translation\<close>

fun lookup :: "arch \<Rightarrow> cells \<Rightarrow> nat \<Rightarrow> nat \<Rightarrow> phys_frame \<Rightarrow> usize \<Rightarrow> (nat \<times> entry) option" where
  "lookup A m 0 l t v = None"
| "lookup A m (Suc d) l t v =
     (let e = m (table_entry t (index_of A v l))
      in if \<not> is_present A e then None
         else if is_leaf A e l then Some (l, e)
         else lookup A m d (Suc l) (entry_frame A e) v)"

definition translate :: "arch \<Rightarrow> cells \<Rightarrow> phys_frame \<Rightarrow> usize \<Rightarrow> (nat \<times> entry) option" where
  "translate A m root v = lookup A m (LEVELS A) 0 root v"

definition seek :: "arch \<Rightarrow> cells \<Rightarrow> nat \<Rightarrow> nat \<Rightarrow> entry \<Rightarrow> usize \<Rightarrow> (nat \<times> entry) option" where
  "seek A m d l e v = (if \<not> is_present A e then None else if is_leaf A e l then Some (l, e)
     else lookup A m d (Suc l) (entry_frame A e) v)"

fun tables :: "arch \<Rightarrow> cells \<Rightarrow> nat \<Rightarrow> nat \<Rightarrow> phys_frame \<Rightarrow> phys_frame list" where
  "tables A m 0 l t = []"
| "tables A m (Suc d) l t = t # concat (map (\<lambda>i.
     let e = m (table_entry t i)
     in if is_present A e \<and> \<not> is_leaf A e l then tables A m d (Suc l) (entry_frame A e) else []) [0..<ENTRY_COUNT A])"

definition below :: "arch \<Rightarrow> cells \<Rightarrow> nat \<Rightarrow> nat \<Rightarrow> entry \<Rightarrow> phys_frame list" where
  "below A m d l e = (if is_present A e \<and> \<not> is_leaf A e l then tables A m d (Suc l) (entry_frame A e) else [])"

fun descend :: "arch \<Rightarrow> cells \<Rightarrow> nat \<Rightarrow> phys_frame \<Rightarrow> usize \<Rightarrow> nat \<Rightarrow> phys_frame option" where
  "descend A m l t v 0 = Some t"
| "descend A m l t v (Suc k) =
     (let e = m (table_entry t (index_of A v l))
      in if is_present A e \<and> \<not> is_leaf A e l then descend A m (Suc l) (entry_frame A e) v k else None)"

text \<open>Two addresses whose walks agree down to a level.\<close>

definition same_path :: "arch \<Rightarrow> usize \<Rightarrow> usize \<Rightarrow> nat \<Rightarrow> bool" where
  "same_path A v w k \<longleftrightarrow> (\<forall>j \<le> k. index_of A w j = index_of A v j)"

lemma lookup_seek: "lookup A m (Suc d) l t v = seek A m d l (m (table_entry t (index_of A v l))) v"
  by (simp add: seek_def Let_def)

lemma tables_below: "tables A m (Suc d) l t = t # concat (map (\<lambda>i. below A m d l (m (table_entry t i))) [0..<ENTRY_COUNT A])"
  by (simp add: below_def Let_def)

lemma lookup_descend:
  "descend A m l t v k = Some u \<Longrightarrow> k \<le> d \<Longrightarrow> lookup A m d l t v = lookup A m (d - k) (l + k) u v"
proof (induction k arbitrary: l t d)
  case (Suc k)
  from Suc.prems(2) obtain d' where "d = Suc d'" by (cases d) simp_all
  then show ?case using Suc by (auto simp: Let_def split: if_splits)
qed simp

lemma descend_Suc:
  "descend A m l t v (Suc k) = Option.bind (descend A m l t v k) (\<lambda>u. descend A m (l + k) u v (Suc 0))"
proof (induction k arbitrary: l t)
  case (Suc k)
  let ?e = "m (table_entry t (index_of A v l))"
  show ?case
  proof (cases "is_present A ?e \<and> \<not> is_leaf A ?e l")
    case True
    then have "descend A m l t v (Suc j) = descend A m (Suc l) (entry_frame A ?e) v j" for j by (simp add: Let_def)
    then show ?thesis using Suc.IH [of "Suc l" "entry_frame A ?e"] by (simp only: add_Suc_right add_Suc)
  qed (auto simp: Let_def)
qed simp

lemma descend_same:
  "\<forall>j < k. index_of A w (l + j) = index_of A v (l + j) \<Longrightarrow> descend A m l t w k = descend A m l t v k"
proof (induction k arbitrary: l t)
  case (Suc k)
  have "index_of A w l = index_of A v l" using Suc.prems by (metis add.right_neutral zero_less_Suc)
  moreover have "\<forall>j < k. index_of A w (Suc l + j) = index_of A v (Suc l + j)" using Suc.prems by force
  ultimately show ?case using Suc.IH by (simp add: Let_def)
qed simp

lemma translate_descend:
  assumes "descend A m 0 root v k = Some u" "same_path A v w k" "k < LEVELS A"
  shows "translate A m root w = seek A m (LEVELS A - Suc k) k (m (table_entry u (index_of A v k))) w"
proof -
  have "descend A m 0 root w k = Some u"
    using descend_same [of k A w 0 v m root] assms(1,2) by (auto simp: same_path_def)
  then have "translate A m root w = lookup A m (Suc (LEVELS A - Suc k)) k u w"
    using lookup_descend [of A m 0 root w k u "LEVELS A"] assms(3) by (simp add: translate_def Suc_diff_Suc)
  then show ?thesis using assms(2) unfolding lookup_seek same_path_def by simp
qed

text \<open>
  A healthy address space: its tables form a tree and none lies in memory that the frame
  allocator regards as free.
\<close>

definition space_tables :: "arch \<Rightarrow> cells \<Rightarrow> phys_frame \<Rightarrow> phys_frame list" where
  "space_tables A m root = tables A m (LEVELS A) 0 root"

definition space_ok :: "arch \<Rightarrow> usize set \<Rightarrow> cells \<Rightarrow> phys_frame \<Rightarrow> bool" where
  "space_ok A free m root \<longleftrightarrow> distinct (space_tables A m root) \<and>
     (\<forall>t \<in> set (space_tables A m root). aligned_frame t \<and> frame_index t \<notin> free)"

lemma distinct_concat_upt:
  "distinct (concat (map f [0..<n])) \<longleftrightarrow>
    (\<forall>i < n. distinct (f i)) \<and> (\<forall>i < n. \<forall>j < n. i \<noteq> j \<longrightarrow> set (f i) \<inter> set (f j) = {})"
proof (induction n)
  case (Suc n)
  define Q where "Q i j \<longleftrightarrow> set (f i) \<inter> set (f j) = {}" for i j
  have sym: "Q i j \<longleftrightarrow> Q j i" for i j by (auto simp: Q_def)
  have "set (concat (map f [0..<n])) \<inter> set (f n) = {} \<longleftrightarrow> (\<forall>i < n. Q i n)" unfolding Q_def by fastforce
  then have "distinct (concat (map f [0..<Suc n])) \<longleftrightarrow>
      distinct (concat (map f [0..<n])) \<and> distinct (f n) \<and> (\<forall>i < n. Q i n)" by simp
  also have "\<dots> \<longleftrightarrow> (\<forall>i < Suc n. distinct (f i)) \<and> (\<forall>i < Suc n. \<forall>j < Suc n. i \<noteq> j \<longrightarrow> Q i j)"
    unfolding Suc.IH Q_def [symmetric] less_Suc_eq using sym by blast
  finally show ?case by (simp only: Q_def)
qed simp

lemma distinct_concat_upd:
  assumes "i < n" "distinct (concat (map f [0..<n]))" "\<And>j. j < n \<Longrightarrow> j \<noteq> i \<Longrightarrow> g j = f j" "distinct (g i)"
    and "set (g i) \<inter> (set (concat (map f [0..<n])) - set (f i)) = {}"
  shows "distinct (concat (map g [0..<n]))"
    and "set (concat (map g [0..<n])) = set (concat (map f [0..<n])) - set (f i) \<union> set (g i)"
proof -
  have gj: "set (g i) \<inter> set (f j) = {}" if "j < n" "j \<noteq> i" for j
  proof -
    have "set (f j) \<inter> set (f i) = {}" using assms(1,2) that by (simp add: distinct_concat_upt)
    moreover have "set (f j) \<subseteq> set (concat (map f [0..<n]))" using that by auto
    ultimately show ?thesis using assms(5) by blast
  qed
  show "distinct (concat (map g [0..<n]))"
    unfolding distinct_concat_upt
  proof (intro conjI allI impI)
    fix j k assume "j < n" "k < n" "j \<noteq> k"
    then show "set (g j) \<inter> set (g k) = {}"
      using assms(1-3) gj by (cases "j = i"; cases "k = i") (auto simp: distinct_concat_upt Int_commute)
  qed (use assms(1-4) in \<open>metis distinct_concat_upt\<close>)
  show "set (concat (map g [0..<n])) = set (concat (map f [0..<n])) - set (f i) \<union> set (g i)" (is "?l = ?r")
  proof (intro set_eqI iffI)
    fix x assume "x \<in> ?l"
    then obtain j where j: "j < n" "x \<in> set (g j)" by auto
    then show "x \<in> ?r" using assms(1-3) by (cases "j = i") (fastforce simp: distinct_concat_upt)+
  next
    fix x assume "x \<in> ?r"
    then consider "x \<in> set (g i)" | j where "j < n" "j \<noteq> i" "x \<in> set (f j)"
      by (cases "x \<in> set (g i)") (auto, metis)
    then show "x \<in> ?l" using assms(1,3) by cases force+
  qed
qed

section \<open>The contract of the processor\<close>

locale page_table_arch =
  fixes A :: arch and addressable :: "phys_frame \<Rightarrow> bool"
  assumes levels: "0 < LEVELS A" "LEVELS A \<le> MAX_PAGE_TABLE_LEVELS"
    and index_bound: "l < LEVELS A \<Longrightarrow> index_of A v l < ENTRY_COUNT A"
    and entries_fit: "ENTRY_COUNT A * 8 \<le> PAGE_SIZE"
    and last_is_leaf: "is_leaf A e (LEVELS A - 1)"
    and zero_absent: "\<not> is_present A 0"
    and addressable_aligned: "addressable f \<Longrightarrow> aligned_frame f"
    and entry_addressable: "addressable (entry_frame A e)"
    and table_present: "is_present A (make_table A f fl)"
    and table_not_leaf: "addressable f \<Longrightarrow> l + 1 < LEVELS A \<Longrightarrow> \<not> is_leaf A (make_table A f fl) l"
    and table_frame: "addressable f \<Longrightarrow> entry_frame A (make_table A f fl) = f"
    and leaf_present: "is_present A (make_leaf A f l fl)"
    and leaf_leaf: "l < LEVELS A \<Longrightarrow> page_size A l \<noteq> None \<Longrightarrow> is_leaf A (make_leaf A f l fl) l"
    and leaf_frame: "addressable f \<Longrightarrow> page_size A l = Some b \<Longrightarrow> is_aligned (start_address f) b \<Longrightarrow>
      entry_frame A (make_leaf A f l fl) = f"
    and leaf_level_ok: "leaf_level A sz = Some l \<Longrightarrow> l < LEVELS A \<and> page_size A l \<noteq> None"
begin

lemma cells_apart:
  assumes "aligned_frame t" "aligned_frame u" "t \<noteq> u" "i < ENTRY_COUNT A" "j < ENTRY_COUNT A"
  shows "table_entry t i \<noteq> table_entry u j"
proof
  assume eq: "table_entry t i = table_entry u j"
  have "table_entry t i div PAGE_SIZE = frame_index t" "table_entry u j div PAGE_SIZE = frame_index u"
    using assms entries_fit by (auto simp: table_entry_def aligned_frame_def)
  then have "start_address t = start_address u" using eq assms(1,2) by (simp add: aligned_frame_def)
  then show False using assms(3) by simp
qed

lemma page_apart:
  assumes "aligned_frame t" "aligned_frame u" "t \<noteq> u" "i < ENTRY_COUNT A"
  shows "\<not> (start_address u \<le> table_entry t i \<and> table_entry t i < start_address u + PAGE_SIZE)"
proof
  assume a: "start_address u \<le> table_entry t i \<and> table_entry t i < start_address u + PAGE_SIZE"
  have t: "table_entry t i div PAGE_SIZE = frame_index t"
    using assms entries_fit by (auto simp: table_entry_def aligned_frame_def)
  have "table_entry t i = frame_index u * PAGE_SIZE + (table_entry t i - start_address u)" "table_entry t i - start_address u < PAGE_SIZE"
    using a assms(2) by (auto simp: aligned_frame_def)
  then have "table_entry t i div PAGE_SIZE = frame_index u" by (metis div_less div_mult_self3 gr_implies_not0 add.right_neutral add.commute)
  then have "start_address t = start_address u" using t assms(1,2) by (simp add: aligned_frame_def)
  then show False using assms(3) by simp
qed

lemma cell_inj [simp]: "table_entry t i = table_entry t j \<longleftrightarrow> i = j"
  by (simp add: table_entry_def)

text \<open>Memory outside the tables does not matter.\<close>

lemma frame_rule:
  assumes "l + d = LEVELS A" "\<And>u i. u \<in> set (tables A m d l t) \<Longrightarrow> i < ENTRY_COUNT A \<Longrightarrow> m' (table_entry u i) = m (table_entry u i)"
  shows "tables A m' d l t = tables A m d l t \<and> lookup A m' d l t v = lookup A m d l t v"
  using assms
proof (induction d arbitrary: l t)
  case (Suc d)
  have own: "m' (table_entry t i) = m (table_entry t i)" if "i < ENTRY_COUNT A" for i
    using Suc.prems(2) [of t i] that by simp
  have sub: "tables A m' d (Suc l) (entry_frame A e) = tables A m d (Suc l) (entry_frame A e) \<and>
      lookup A m' d (Suc l) (entry_frame A e) v = lookup A m d (Suc l) (entry_frame A e) v"
    if "i < ENTRY_COUNT A" "e = m (table_entry t i)" "is_present A e" "\<not> is_leaf A e l" for i e
  proof (rule Suc.IH)
    fix u j assume "u \<in> set (tables A m d (Suc l) (entry_frame A e))" "j < ENTRY_COUNT A"
    then show "m' (table_entry u j) = m (table_entry u j)" using Suc.prems(2) [of u j] that by (force simp: Let_def)
  qed (use Suc.prems(1) in simp)
  have idx: "index_of A v l < ENTRY_COUNT A" using index_bound Suc.prems(1) by simp
  have "map (\<lambda>i. below A m' d l (m' (table_entry t i))) [0..<ENTRY_COUNT A] =
      map (\<lambda>i. below A m d l (m (table_entry t i))) [0..<ENTRY_COUNT A]"
    using own sub by (auto simp: below_def)
  then have "tables A m' (Suc d) l t = tables A m (Suc d) l t" unfolding tables_below by (simp only:)
  then show ?case using sub [OF idx refl] own [OF idx] by (simp add: Let_def del: tables.simps)
qed simp

lemma below_frame:
  assumes "l + Suc d = LEVELS A"
    "\<And>u i. u \<in> set (below A m d l e) \<Longrightarrow> i < ENTRY_COUNT A \<Longrightarrow> m' (table_entry u i) = m (table_entry u i)"
  shows "below A m' d l e = below A m d l e \<and> seek A m' d l e v = seek A m d l e v"
  using frame_rule [of "Suc l" d m "entry_frame A e" m' v] assms by (auto simp: below_def seek_def)

lemma child_of:
  assumes "distinct (tables A m (Suc d) l t)" "i < ENTRY_COUNT A"
  shows "t \<notin> set (below A m d l (m (table_entry t i)))" "distinct (below A m d l (m (table_entry t i)))"
    "set (below A m d l (m (table_entry t i))) \<subseteq> set (tables A m (Suc d) l t)"
    "j < ENTRY_COUNT A \<Longrightarrow> j \<noteq> i \<Longrightarrow>
      set (below A m d l (m (table_entry t i))) \<inter> set (below A m d l (m (table_entry t j))) = {}"
  using assms unfolding tables_below
  by (auto simp: distinct_concat_upt)

lemma child_update:
  assumes "distinct (tables A m (Suc d) l t)" "i < ENTRY_COUNT A"
    and "\<And>j. j < ENTRY_COUNT A \<Longrightarrow> j \<noteq> i \<Longrightarrow> below A m' d l (m' (table_entry t j)) = below A m d l (m (table_entry t j))"
    and "distinct (below A m' d l (m' (table_entry t i)))"
    and "set (below A m' d l (m' (table_entry t i))) \<inter>
      (set (tables A m (Suc d) l t) - set (below A m d l (m (table_entry t i)))) = {}"
  shows "distinct (tables A m' (Suc d) l t)"
    "set (tables A m' (Suc d) l t) =
      set (tables A m (Suc d) l t) - set (below A m d l (m (table_entry t i))) \<union> set (below A m' d l (m' (table_entry t i)))"
proof -
  let ?f = "\<lambda>i. below A m d l (m (table_entry t i))" and ?g = "\<lambda>i. below A m' d l (m' (table_entry t i))"
  define F G where "F = concat (map ?f [0..<ENTRY_COUNT A])" and "G = concat (map ?g [0..<ENTRY_COUNT A])"
  have F: "t \<notin> set F" "distinct F" "set (tables A m (Suc d) l t) = insert t (set F)"
    using assms(1) unfolding tables_below F_def by simp_all
  have t: "t \<notin> set (?f i)" by (rule child_of(1) [OF assms(1,2)])
  have g: "set (?g i) \<inter> (set F - set (?f i)) = {}" "t \<notin> set (?g i)" using assms(5) F(3) t by auto
  have G: "distinct G" "set G = set F - set (?f i) \<union> set (?g i)"
    unfolding G_def F_def
    by (rule distinct_concat_upd [OF assms(2) F(2) [unfolded F_def] assms(3,4) g(1) [unfolded F_def]]; assumption)+
  have "tables A m' (Suc d) l t = t # G" unfolding tables_below G_def ..
  then show "distinct (tables A m' (Suc d) l t)"
    "set (tables A m' (Suc d) l t) = set (tables A m (Suc d) l t) - set (?f i) \<union> set (?g i)"
    using F g(2) G t by auto
qed

text \<open>Writing one entry of a table that lies on the path of \<open>v\<close>.\<close>

lemma write_entry_effect:
  assumes "l + d = LEVELS A" "distinct (tables A m d l t)" "\<And>u. u \<in> set (tables A m d l t) \<Longrightarrow> aligned_frame u"
    and "descend A m l t v k = Some u" "k < d" "m' (table_entry u (index_of A v (l + k))) = e"
    and "\<And>x i. x \<in> set (tables A m d l t) \<Longrightarrow> i < ENTRY_COUNT A \<Longrightarrow>
      x \<noteq> u \<or> i \<noteq> index_of A v (l + k) \<Longrightarrow> m' (table_entry x i) = m (table_entry x i)"
    and "old = set (below A m (d - Suc k) (l + k) (m (table_entry u (index_of A v (l + k)))))"
    and "new = below A m' (d - Suc k) (l + k) e" "distinct new" "set new \<inter> (set (tables A m d l t) - old) = {}"
  shows "(\<forall>j \<le> k. descend A m' l t v j = descend A m l t v j) \<and> u \<in> set (tables A m d l t) \<and> old \<subseteq> set (tables A m d l t) - {u} \<and>
    distinct (tables A m' d l t) \<and> set (tables A m' d l t) = set (tables A m d l t) - old \<union> set new \<and>
    (\<forall>w. lookup A m' d l t w =
      (if \<forall>j \<le> k. index_of A w (l + j) = index_of A v (l + j) then seek A m' (d - Suc k) (l + k) e w else lookup A m d l t w))"
  using assms
proof (induction k arbitrary: l d t)
  case 0
  obtain d' where d: "d = Suc d'" using 0 by (cases d) simp_all
  let ?i = "index_of A v l"
  have i: "?i < ENTRY_COUNT A" using index_bound 0 d by simp
  have u: "u = t" using 0 by simp
  note c = child_of [OF 0(2) [unfolded d]]
  have other: "below A m' d' l (m' (table_entry t j)) = below A m d' l (m (table_entry t j)) \<and>
      seek A m' d' l (m' (table_entry t j)) w = seek A m d' l (m (table_entry t j)) w"
    if j: "j < ENTRY_COUNT A" "j \<noteq> ?i" for j w
  proof -
    have "m' (table_entry t j) = m (table_entry t j)" using 0(7) [of t j] j d u by simp
    moreover have "m' (table_entry x n) = m (table_entry x n)"
      if "x \<in> set (below A m d' l (m (table_entry t j)))" "n < ENTRY_COUNT A" for x n
      using 0(7) [of x n] that c(1,3) [OF j(1)] d u by auto
    ultimately show ?thesis using below_frame [of l d' m "m (table_entry t j)" m' w] 0(1) d by simp
  qed
  have tab: "distinct (tables A m' (Suc d') l t)" "set (tables A m' (Suc d') l t) = set (tables A m (Suc d') l t) - old \<union> set new"
    using child_update [OF 0(2) [unfolded d] i, of m'] other 0(6,8-) u d by simp_all
  have "lookup A m' (Suc d') l t w = (if index_of A w l = ?i then seek A m' d' l e w else lookup A m (Suc d') l t w)" for w
    using other [of "index_of A w l" w] index_bound [of l w] 0(1,6) d u by (simp add: lookup_seek del: lookup.simps)
  then show ?case using tab c(1,3) [OF i] 0(8) u d by (auto simp del: lookup.simps tables.simps simp: tables_below)
next
  case (Suc k)
  obtain d' where d: "d = Suc d'" using Suc.prems by (cases d) simp_all
  let ?i = "index_of A v l" and ?e = "m (table_entry t (index_of A v l))"
  let ?T = "tables A m d' (Suc l) (entry_frame A ?e)"
  have i: "?i < ENTRY_COUNT A" using index_bound Suc.prems(1) d by simp
  have e: "is_present A ?e" "\<not> is_leaf A ?e l" "descend A m (Suc l) (entry_frame A ?e) v k = Some u"
    using Suc.prems(4) by (auto simp: Let_def split: if_splits)
  note c = child_of [OF Suc.prems(2) [unfolded d]]
  have T: "below A m d' l ?e = ?T" using e by (simp add: below_def)
  have sub: "set ?T \<subseteq> set (tables A m d l t)" using c(3) [OF i] T d by simp
  have IH: "(\<forall>j \<le> k. descend A m' (Suc l) (entry_frame A ?e) v j = descend A m (Suc l) (entry_frame A ?e) v j) \<and> u \<in> set ?T \<and> old \<subseteq> set ?T - {u} \<and> distinct (tables A m' d' (Suc l) (entry_frame A ?e)) \<and>
      set (tables A m' d' (Suc l) (entry_frame A ?e)) = set ?T - old \<union> set new \<and>
      (\<forall>w. lookup A m' d' (Suc l) (entry_frame A ?e) w =
        (if \<forall>j \<le> k. index_of A w (Suc l + j) = index_of A v (Suc l + j)
         then seek A m' (d' - Suc k) (Suc l + k) e w else lookup A m d' (Suc l) (entry_frame A ?e) w))"
    by (rule Suc.IH) (use Suc.prems sub e(3) c(2) [OF i] T d in \<open>auto simp del: tables.simps\<close>)
  have u: "u \<noteq> t" using IH c(1) [OF i] T by auto
  have own: "m' (table_entry t j) = m (table_entry t j)" if "j < ENTRY_COUNT A" for j
    using Suc.prems(7) [of t j] that u d by simp
  have other: "below A m' d' l (m' (table_entry t j)) = below A m d' l (m (table_entry t j)) \<and>
      seek A m' d' l (m' (table_entry t j)) w = seek A m d' l (m (table_entry t j)) w"
    if j: "j < ENTRY_COUNT A" "j \<noteq> ?i" for j w
  proof -
    have "m' (table_entry x n) = m (table_entry x n)"
      if "x \<in> set (below A m d' l (m (table_entry t j)))" "n < ENTRY_COUNT A" for x n
      using Suc.prems(7) [of x n] that c(3) [OF j(1)] c(4) [OF i j] IH T d by (auto simp del: tables.simps)
    then show ?thesis using below_frame [of l d' m "m (table_entry t j)" m' w] Suc.prems(1) own [OF j(1)] d by simp
  qed
  have T': "below A m' d' l (m' (table_entry t ?i)) = tables A m' d' (Suc l) (entry_frame A ?e)"
    using e own [OF i] by (simp add: below_def)
  have "(set ?T - old \<union> set new) \<inter> (set (tables A m (Suc d') l t) - set ?T) = {}"
    using Suc.prems(11) IH d by (auto simp del: tables.simps)
  then have tab: "distinct (tables A m' (Suc d') l t)"
      "set (tables A m' (Suc d') l t) = set (tables A m (Suc d') l t) - set ?T \<union> (set ?T - old \<union> set new)"
    using child_update [OF Suc.prems(2) [unfolded d] i, of m'] other IH T T' by (simp_all del: tables.simps)
  have seek: "lookup A m' (Suc d') l t w =
      (if index_of A w l = ?i then lookup A m' d' (Suc l) (entry_frame A ?e) w else lookup A m (Suc d') l t w)" for w
    using other [of "index_of A w l" w] index_bound [of l w] Suc.prems(1) own [OF i] d e
    by (simp add: lookup_seek seek_def del: lookup.simps)
  have look: "lookup A m (Suc d') l t w = lookup A m d' (Suc l) (entry_frame A ?e) w" if "index_of A w l = ?i" for w
    using that e by (simp add: Let_def)
  have path: "(\<forall>j \<le> Suc k. index_of A w (l + j) = index_of A v (l + j)) \<longleftrightarrow>
      index_of A w l = ?i \<and> (\<forall>j \<le> k. index_of A w (Suc l + j) = index_of A v (Suc l + j))" for w
    by (simp add: All_less_Suc2 le_simps(2) [symmetric] del: le_simps(2))
  have "lookup A m' (Suc d') l t w = (if \<forall>j \<le> Suc k. index_of A w (l + j) = index_of A v (l + j)
      then seek A m' (d' - Suc k) (Suc l + k) e w else lookup A m (Suc d') l t w)" for w
    unfolding seek path using IH look [of w] by (cases "index_of A w l = ?i") (auto simp del: lookup.simps tables.simps)
  moreover have "descend A m' l t v j = descend A m l t v j" if "j \<le> Suc k" for j
    using IH that own [OF i] e by (cases j) (simp_all add: Let_def)
  ultimately show ?case using tab IH sub c(1) [OF i] T d by (auto simp del: lookup.simps tables.simps)
qed

section \<open>The two kinds of writes\<close>

lemma descend_in:
  "descend A m l t v k = Some u \<Longrightarrow> k < d \<Longrightarrow> l + d = LEVELS A \<Longrightarrow> u \<in> set (tables A m d l t)"
proof (induction k arbitrary: l t d)
  case 0
  then show ?case by (cases d) simp_all
next
  case (Suc k)
  then obtain d' where d: "d = Suc d'" by (cases d) simp_all
  let ?e = "m (table_entry t (index_of A v l))"
  have e: "is_present A ?e \<and> \<not> is_leaf A ?e l" "descend A m (Suc l) (entry_frame A ?e) v k = Some u"
    using Suc.prems(1) by (auto simp: Let_def split: if_splits)
  then have "u \<in> set (below A m d' l ?e)" using Suc.IH [OF e(2), of d'] Suc.prems(2,3) d by (simp add: below_def)
  then show ?case using index_bound [of l v] Suc.prems(3) d unfolding d tables_below by auto
qed

lemma path_effect:
  assumes ok: "space_ok A free m root" and u: "descend A m 0 root v k = Some u" "k < LEVELS A"
    and m': "m' (table_entry u (index_of A v k)) = e"
      "\<And>x i. x \<in> set (space_tables A m root) \<Longrightarrow> i < ENTRY_COUNT A \<Longrightarrow> x \<noteq> u \<or> i \<noteq> index_of A v k \<Longrightarrow>
        m' (table_entry x i) = m (table_entry x i)"
    and new: "distinct (below A m' (LEVELS A - Suc k) k e)"
      "set (below A m' (LEVELS A - Suc k) k e) \<inter> set (space_tables A m root) = {}"
  shows "u \<in> set (space_tables A m root)"
    "set (below A m (LEVELS A - Suc k) k (m (table_entry u (index_of A v k)))) \<subseteq> set (space_tables A m root) - {u}"
    "distinct (space_tables A m' root)"
    "set (space_tables A m' root) = set (space_tables A m root) -
      set (below A m (LEVELS A - Suc k) k (m (table_entry u (index_of A v k)))) \<union> set (below A m' (LEVELS A - Suc k) k e)"
    "translate A m' root w = (if same_path A v w k then seek A m' (LEVELS A - Suc k) k e w else translate A m root w)"
    "j \<le> k \<Longrightarrow> descend A m' 0 root v j = descend A m 0 root v j"
proof -
  have "(\<forall>j \<le> k. descend A m' 0 root v j = descend A m 0 root v j) \<and> u \<in> set (space_tables A m root) \<and>
      set (below A m (LEVELS A - Suc k) k (m (table_entry u (index_of A v k)))) \<subseteq> set (space_tables A m root) - {u} \<and>
      distinct (space_tables A m' root) \<and>
      set (space_tables A m' root) = set (space_tables A m root) -
        set (below A m (LEVELS A - Suc k) k (m (table_entry u (index_of A v k)))) \<union> set (below A m' (LEVELS A - Suc k) k e) \<and>
      (\<forall>w. translate A m' root w = (if same_path A v w k then seek A m' (LEVELS A - Suc k) k e w else translate A m root w))"
    using write_entry_effect [of 0 "LEVELS A" m root v k u m' e, unfolded add_0, OF _ _ _ u m'(1) _ refl refl new(1)]
      ok m'(2) Int_mono [OF subset_refl Diff_subset, of "set (below A m' (LEVELS A - Suc k) k e)" "set (space_tables A m root)"] new(2)
    unfolding space_ok_def space_tables_def translate_def same_path_def
    by auto
  then show "u \<in> set (space_tables A m root)"
    "set (below A m (LEVELS A - Suc k) k (m (table_entry u (index_of A v k)))) \<subseteq> set (space_tables A m root) - {u}"
    "distinct (space_tables A m' root)"
    "set (space_tables A m' root) = set (space_tables A m root) -
      set (below A m (LEVELS A - Suc k) k (m (table_entry u (index_of A v k)))) \<union> set (below A m' (LEVELS A - Suc k) k e)"
    "translate A m' root w = (if same_path A v w k then seek A m' (LEVELS A - Suc k) k e w else translate A m root w)"
    "j \<le> k \<Longrightarrow> descend A m' 0 root v j = descend A m 0 root v j"
    by blast+
qed

text \<open>An entry that refers to no table: a leaf or nothing.\<close>

lemma set_entry:
  assumes ok: "space_ok A free m root" and u: "descend A m 0 root v k = Some u" "k < LEVELS A"
    and e: "is_present A e \<longrightarrow> is_leaf A e k"
  defines "m' \<equiv> m(table_entry u (index_of A v k) := e)"
  shows "u \<in> set (space_tables A m root)"
    "set (below A m (LEVELS A - Suc k) k (m (table_entry u (index_of A v k)))) \<subseteq> set (space_tables A m root) - {u}"
    "space_ok A free m' root"
    "set (space_tables A m' root) = set (space_tables A m root) -
      set (below A m (LEVELS A - Suc k) k (m (table_entry u (index_of A v k))))"
    "translate A m' root w = (if same_path A v w k then if is_present A e then Some (k, e) else None else translate A m root w)"
    "j \<le> k \<Longrightarrow> descend A m' 0 root v j = descend A m 0 root v j"
proof -
  have nil: "below A m' (LEVELS A - Suc k) k e = []" using e by (auto simp: below_def)
  have uin: "u \<in> set (space_tables A m root)" using descend_in [OF u(1,2)] by (simp add: space_tables_def)
  have agree: "m' (table_entry x i) = m (table_entry x i)"
    if "x \<in> set (space_tables A m root)" "i < ENTRY_COUNT A" "x \<noteq> u \<or> i \<noteq> index_of A v k" for x i
    using cells_apart [of x u i "index_of A v k"] ok that uin index_bound [OF u(2)]
    by (cases "x = u") (auto simp: m'_def space_ok_def)
  have cell: "m' (table_entry u (index_of A v k)) = e" by (simp add: m'_def)
  note eff = path_effect [OF ok u cell agree, unfolded nil, simplified]
  show "u \<in> set (space_tables A m root)"
    "set (below A m (LEVELS A - Suc k) k (m (table_entry u (index_of A v k)))) \<subseteq> set (space_tables A m root) - {u}"
    "set (space_tables A m' root) = set (space_tables A m root) -
      set (below A m (LEVELS A - Suc k) k (m (table_entry u (index_of A v k))))"
    "j \<le> k \<Longrightarrow> descend A m' 0 root v j = descend A m 0 root v j"
    using uin eff(2,4,6) by simp_all
  then show "space_ok A free m' root" using ok eff(3) by (auto simp: space_ok_def)
  show "translate A m' root w = (if same_path A v w k then if is_present A e then Some (k, e) else None else translate A m root w)"
    using eff(5) e by (auto simp: seek_def)
qed

lemma empty_table:
  assumes "\<And>i. i < ENTRY_COUNT A \<Longrightarrow> \<not> is_present A (m (table_entry t i))" "l < LEVELS A"
  shows "tables A m (Suc d) l t = [t]" "lookup A m (Suc d) l t w = None"
proof -
  show "tables A m (Suc d) l t = [t]" using assms(1) unfolding tables_below by (simp add: below_def)
  show "lookup A m (Suc d) l t w = None" using assms(1) [OF index_bound [OF assms(2)]] by simp
qed

text \<open>A fresh, zeroed table is linked where there was nothing.\<close>

lemma link_table:
  fixes fl :: map_flags
  assumes ok: "space_ok A free m root" and u: "descend A m 0 root v k = Some u" "Suc k < LEVELS A"
    and old: "\<not> is_present A (m (table_entry u (index_of A v k)))"
    and f: "addressable f" "frame_index f \<in> free" "free' \<subseteq> free - {frame_index f}"
  defines "m' \<equiv> (zero_cells m f)(table_entry u (index_of A v k) := make_table A f fl)"
  shows "space_ok A free' m' root" "translate A m' root w = translate A m root w"
    "descend A m' 0 root v (Suc k) = Some f" "set (space_tables A m' root) = insert f (set (space_tables A m root))"
proof -
  have k: "k < LEVELS A" using u(2) by simp
  have uin: "u \<in> set (space_tables A m root)" using descend_in [OF u(1) k] by (simp add: space_tables_def)
  have fnot: "f \<notin> set (space_tables A m root)" using ok f(2) by (auto simp: space_ok_def)
  have al: "aligned_frame x" if "x \<in> set (space_tables A m root)" for x using ok that by (simp add: space_ok_def)
  have idx: "index_of A v k < ENTRY_COUNT A" by (rule index_bound [OF k])
  have cell: "m' (table_entry u (index_of A v k)) = make_table A f fl" by (simp add: m'_def)
  have zero: "m' (table_entry f i) = 0" if "i < ENTRY_COUNT A" for i
    using cells_apart [of f u i "index_of A v k"] addressable_aligned [OF f(1)] al [OF uin] uin fnot that idx entries_fit
    by (auto simp: m'_def zero_cells_def table_entry_def)
  have agree: "m' (table_entry x i) = m (table_entry x i)"
    if "x \<in> set (space_tables A m root)" "i < ENTRY_COUNT A" "x \<noteq> u \<or> i \<noteq> index_of A v k" for x i
  proof -
    have "table_entry x i \<noteq> table_entry u (index_of A v k)"
      using cells_apart [of x u i "index_of A v k"] al [OF that(1)] al [OF uin] that idx by (cases "x = u") auto
    moreover have "\<not> (start_address f \<le> table_entry x i \<and> table_entry x i < start_address f + PAGE_SIZE)"
      by (rule page_apart) (use al [OF that(1)] addressable_aligned [OF f(1)] that(1,2) fnot in auto)
    ultimately show ?thesis by (auto simp: m'_def zero_cells_def)
  qed
  note ent = table_present table_not_leaf [OF f(1), of k] table_frame [OF f(1)]
  obtain d where d: "LEVELS A - Suc k = Suc d" using u(2) by (metis Suc_diff_Suc)
  have emp: "tables A m' (Suc d) (Suc k) f = [f]" "lookup A m' (Suc d) (Suc k) f w = None" for w
    by (rule empty_table; use zero zero_absent u(2) in simp)+
  have new: "below A m' (LEVELS A - Suc k) k (make_table A f fl) = [f]"
    using ent u(2) emp(1) d by (simp add: below_def del: tables.simps)
  have nil: "below A m (LEVELS A - Suc k) k (m (table_entry u (index_of A v k))) = []" using old by (simp add: below_def)
  have eff: "distinct (space_tables A m' root)" "set (space_tables A m' root) = insert f (set (space_tables A m root))"
    "translate A m' root w = (if same_path A v w k then seek A m' (LEVELS A - Suc k) k (make_table A f fl) w else translate A m root w)"
    "descend A m' 0 root v k = descend A m 0 root v k"
    using path_effect [OF ok u(1) k cell agree] new nil fnot by auto
  have "seek A m' (LEVELS A - Suc k) k (make_table A f fl) w = None"
    unfolding d using ent(2) [of fl] ent(1,3) u(2) emp(2) by (simp add: seek_def del: lookup.simps)
  moreover have "translate A m root w = None" if "same_path A v w k"
    using translate_descend [OF u(1) that k] old by (simp add: seek_def)
  ultimately show "translate A m' root w = translate A m root w" using eff(3) by simp
  have "descend A m' k u v (Suc 0) = Some f" using cell ent(2) [of fl] ent(1,3) u(2) by (simp add: Let_def)
  then show "descend A m' 0 root v (Suc k) = Some f"
    using descend_Suc [of A m' 0 root v k] eff(4) u(1) by (simp del: descend.simps(2))
  show "set (space_tables A m' root) = insert f (set (space_tables A m root))" by (rule eff(2))
  then show "space_ok A free' m' root"
    using ok eff(1) f addressable_aligned [OF f(1)] by (auto simp: space_ok_def)
qed

end

end
