(* ===== verification/Address_Spaces.thy ===== *)
theory Address_Spaces
  imports Paging_Trees
begin

text \<open>
  The operations of \<open>AddressSpace\<close> in \<open>aether-frame/src/mm/mapper.rs\<close>, proved once for any
  frame allocator and any page table format that keep their contracts, then for the buddy
  allocator and x86-64.
\<close>

definition free_frames :: "('s \<Rightarrow> usize set) \<Rightarrow> ('s \<Rightarrow> ledger) \<Rightarrow> 's \<Rightarrow> usize set" where
  "free_frames ram view s = ram s - taken (view s)"

lemma taken_upd: "m f = None \<Longrightarrow> taken (m(f \<mapsto> (k, r))) = taken m \<union> {f ..< f + 2 ^ k}"
  by (auto simp: taken_def split: if_splits)

lemma taken_upd_count: "m f = Some (k, q) \<Longrightarrow> taken (m(f \<mapsto> (k, r))) = taken m"
  by (auto simp: taken_def split: if_splits)

lemma taken_delete:
  assumes "m f = Some (k, q)"
  shows "taken m - {f ..< f + 2 ^ k} \<subseteq> taken (m(f := None))"
proof
  fix g assume g: "g \<in> taken m - {f ..< f + 2 ^ k}"
  then obtain h j r where h: "m h = Some (j, r)" "h \<le> g" "g < h + 2 ^ j" by (auto simp: taken_def)
  then have "h \<noteq> f" using g assms by auto
  then show "g \<in> taken (m(f := None))" using h by (force simp: taken_def)
qed

lemma ceil_log2_1: "ceil_log2 1 = 0"
  by (simp add: ceil_log2_def)

lemma descend_step:
  assumes "descend A m 0 root v l = Some t" "is_present A (m (table_entry t (index_of A v l)))"
    "\<not> is_leaf A (m (table_entry t (index_of A v l))) l"
  shows "descend A m 0 root v (Suc l) = Some (entry_frame A (m (table_entry t (index_of A v l))))"
proof -
  have "descend A m l t v (Suc 0) = Some (entry_frame A (m (table_entry t (index_of A v l))))"
    using assms(2,3) by (simp add: Let_def)
  then show ?thesis using assms(1) descend_Suc [of A m 0 root v l] by (simp del: descend.simps(2))
qed

lemma frames_call_simps [simp]:
  "frames_call None st = None"
  "frames_call (Some (Ok a, s)) st = Some (Ok a, st\<lparr>frames := s\<rparr>)"
  "frames_call (Some (Err e, s)) st = Some (Err (Frame e), st\<lparr>frames := s\<rparr>)"
  by (simp_all add: frames_call_def)

locale mapper = frame_allocator inv view ram alloc retain release ref_count + page_table_arch A addressable
  for inv :: "'s \<Rightarrow> bool" and view ram alloc retain release ref_count A addressable +
  assumes ram_addressable: "inv s \<Longrightarrow> f \<in> ram s \<Longrightarrow> addressable \<lparr>start_address = f * PAGE_SIZE\<rparr>"
begin

abbreviation free :: "'s \<Rightarrow> usize set" where
  "free \<equiv> free_frames ram view"

text \<open>
  A healthy space keeps its tables out of free memory and out of a set of reserved frames:
  frames a caller holds while an operation runs.
\<close>

definition healthy :: "usize set \<Rightarrow> 's mm \<Rightarrow> phys_frame \<Rightarrow> bool" where
  "healthy R st root \<longleftrightarrow> inv (frames st) \<and> R \<inter> free (frames st) = {} \<and>
     space_ok A (free (frames st) \<union> R) (cells st) root"

lemma alloc_one:
  assumes "inv s"
  obtains (ok) f s' where "alloc s 1 = Some (Ok f, s')" "inv s'" "addressable f" "frame_index f \<in> free s"
      "free s' \<subseteq> free s - {frame_index f}" "view s' = (view s)(frame_index f \<mapsto> (0, 1))"
  | (err) e s' where "alloc s 1 = Some (Err e, s')" "inv s'" "free s' = free s" "view s' = view s"
proof -
  have n: "(1::nat) < usize_range" by (simp add: usize_range_def)
  obtain r s' where r: "alloc s 1 = Some (r, s')" using alloc_returns [OF assms n] by blast
  note k = alloc_keeps [OF assms n r]
  show ?thesis
  proof (cases r)
    case (Ok f)
    note a = alloc_ok [OF assms n r [unfolded Ok], unfolded ceil_log2_1]
    have f: "view s (frame_index f) = None" by (rule alloc_fresh [OF assms n r [unfolded Ok]])
    have "\<lparr>start_address = frame_index f * PAGE_SIZE\<rparr> = f" using a by (simp add: aligned_frame_def)
    moreover have "frame_index f \<in> free s" using a by (auto simp: free_frames_def)
    moreover have "free s' \<subseteq> free s - {frame_index f}" using a k taken_upd [of "view s", OF f] by (auto simp: free_frames_def)
    ultimately show ?thesis
      using ok [OF r [unfolded Ok]] k a ram_addressable [OF assms, of "frame_index f"] by (auto simp: free_frames_def)
  next
    case (Err e)
    then show ?thesis using err [OF r [unfolded Err]] k alloc_err [OF assms n r [unfolded Err]] by (simp add: free_frames_def)
  qed
qed

text \<open>What the operations leave alone.\<close>

definition spared :: "usize set \<Rightarrow> 's mm \<Rightarrow> 's mm \<Rightarrow> bool" where
  "spared R st st' \<longleftrightarrow> (\<forall>f \<in> R. view (frames st') f = view (frames st) f) \<and>
     (\<forall>p. p div PAGE_SIZE \<in> R \<longrightarrow> cells st' p = cells st p)"

definition kept :: "usize set \<Rightarrow> 's mm \<Rightarrow> 's mm \<Rightarrow> phys_frame \<Rightarrow> bool" where
  "kept R st st' root \<longleftrightarrow> healthy R st' root \<and> (\<forall>w. translate A (cells st') root w = translate A (cells st) root w) \<and>
     cr3 st' = cr3 st \<and> flushed st' = flushed st \<and> spared R st st'"

lemma spared_refl [simp]: "spared R st st" "spared {} st st'"
  by (simp_all add: spared_def)

lemma spared_trans [trans]: "spared R st st1 \<Longrightarrow> spared R st1 st2 \<Longrightarrow> spared R st st2"
  by (simp add: spared_def)

lemma kept_trans: "kept R st st1 root \<Longrightarrow> kept R st1 st2 root \<Longrightarrow> kept R st st2 root"
  by (auto simp: kept_def intro: spared_trans)

lemma spared_frames: "\<forall>f \<in> R. view s' f = view (frames st) f \<Longrightarrow> spared R st (st\<lparr>frames := s'\<rparr>)"
  by (simp add: spared_def)

lemma spared_write: "p div PAGE_SIZE \<notin> R \<Longrightarrow> spared R st (write_entry st p e)"
  by (auto simp: spared_def write_entry_def)

lemma entry_outside:
  assumes "healthy R st root" "descend A (cells st) 0 root virt l = Some t" "l < LEVELS A"
  shows "table_entry t (index_of A virt l) div PAGE_SIZE \<notin> R"
proof -
  have "t \<in> set (space_tables A (cells st) root)"
    unfolding space_tables_def by (rule descend_in [OF assms(2, 3)]) simp
  then have t: "aligned_frame t" "frame_index t \<notin> R" using assms(1) by (auto simp: healthy_def space_ok_def)
  have "table_entry t (index_of A virt l) div PAGE_SIZE = frame_index t"
    using t(1) index_bound [OF assms(3), of virt] entries_fit by (auto simp: table_entry_def aligned_frame_def)
  then show ?thesis using t(2) by simp
qed

lemmas spared_entry = spared_write [OF entry_outside]

lemma spared_zero:
  assumes "aligned_frame f" "frame_index f \<notin> R"
  shows "spared R st (zero_page st f)"
proof -
  have "p div PAGE_SIZE = frame_index f" if "start_address f \<le> p" "p < start_address f + PAGE_SIZE" for p
  proof -
    have "p = frame_index f * PAGE_SIZE + (p - start_address f)" "p - start_address f < PAGE_SIZE"
      using that assms(1) by (auto simp: aligned_frame_def)
    then show ?thesis by (metis div_less div_mult_self3 gr_implies_not0 add.right_neutral add.commute)
  qed
  then show ?thesis using assms(2) by (auto simp: spared_def zero_page_def zero_cells_def)
qed

lemma spared_invalidate [simp]: "spared R st (invalidate root virt st') \<longleftrightarrow> spared R st st'"
  by (simp add: spared_def invalidate_def)

lemma map_levels_spec:
  assumes "healthy R st root" "descend A (cells st) 0 root virt l = Some table" "l \<le> leaf" "leaf < LEVELS A"
  shows "\<exists>r st'. map_levels A alloc virt flags [l..<leaf] table st = Some (r, st') \<and> kept R st st' root \<and>
    (\<forall>t. r = Ok t \<longrightarrow> descend A (cells st') 0 root virt leaf = Some t)"
  using assms
proof (induction "leaf - l" arbitrary: l table st)
  case 0
  then show ?case by (simp add: kept_def)
next
  case (Suc d)
  let ?p = "table_entry table (index_of A virt l)"
  have l: "l < leaf" "d = leaf - Suc l" "[l..<leaf] = l # [Suc l..<leaf]"
    using Suc.hyps(2) by (simp_all add: upt_conv_Cons)
  note IH = Suc.hyps(1) [OF l(2)]
  show ?case
  proof (cases "is_present A (cells st ?p)")
    case True
    show ?thesis
    proof (cases "is_leaf A (cells st ?p) l")
      case True
      then show ?thesis using \<open>is_present A (cells st ?p)\<close> l Suc.prems(1) by (simp add: kept_def read_entry_def)
    next
      case False
      show ?thesis
        using IH [OF Suc.prems(1) descend_step [OF Suc.prems(2) True False]] l Suc.prems(4) True False
        by (simp add: read_entry_def del: descend.simps(2))
    qed
  next
    case absent: False
    note h = Suc.prems(1) [unfolded healthy_def]
    show ?thesis
    proof (rule alloc_one [of "frames st"])
      show "inv (frames st)" using h by simp
    next
      fix f s' assume a: "alloc (frames st) 1 = Some (Ok f, s')" "inv s'" "addressable f" "frame_index f \<in> free (frames st)"
        "free s' \<subseteq> free (frames st) - {frame_index f}" "view s' = (view (frames st))(frame_index f \<mapsto> (0, 1))"
      let ?st = "write_entry (zero_page (st\<lparr>frames := s'\<rparr>) f) ?p (make_table A f flags)"
      have sp: "space_ok A (free (frames st) \<union> R) (cells st) root" using h by simp
      have F: "frame_index f \<in> free (frames st) \<union> R" "free s' \<union> R \<subseteq> free (frames st) \<union> R - {frame_index f}" "R \<inter> free s' = {}"
        using h a(4,5) by auto
      note link = link_table [OF sp Suc.prems(2) _ absent a(3) F(1,2), of flags]
      have out: "frame_index f \<notin> R" "aligned_frame f" using h a(3,4) addressable_aligned by auto
      have "spared R st (st\<lparr>frames := s'\<rparr>)" using a(6) out(1) by (intro spared_frames) auto
      also have "spared R (st\<lparr>frames := s'\<rparr>) (zero_page (st\<lparr>frames := s'\<rparr>) f)" by (rule spared_zero [OF out(2, 1)])
      also have "spared R (zero_page (st\<lparr>frames := s'\<rparr>) f) ?st"
        using entry_outside [OF Suc.prems(1, 2)] l(1) Suc.prems(4) by (intro spared_write) simp
      finally have unt: "spared R st ?st" .
      have st: "kept R st ?st root" "descend A (cells ?st) 0 root virt (Suc l) = Some f"
        using link l Suc.prems(4) a(2) F(3) unt by (simp_all add: kept_def healthy_def write_entry_def zero_page_def)
      show ?thesis
        using IH [of ?st f] st l Suc.prems(4) absent a(1) by (auto simp: kept_def read_entry_def intro: spared_trans)
    next
      fix e s' assume "alloc (frames st) 1 = Some (Err e, s')" "inv s'" "free s' = free (frames st)" "view s' = view (frames st)"
      then show ?thesis using l absent h by (simp add: kept_def healthy_def read_entry_def spared_frames)
    qed
  qed
qed

text \<open>The write at the end of every operation, with the flush that follows it.\<close>

lemma set_leaf:
  assumes "healthy R st root" "descend A (cells st) 0 root virt l = Some t" "l < LEVELS A" "is_present A e \<longrightarrow> is_leaf A e l"
  defines "st' \<equiv> invalidate root virt (write_entry st (table_entry t (index_of A virt l)) e)"
  shows "healthy R st' root" "frames st' = frames st" "cr3 st' = cr3 st"
    "flushed st' = (if root = cr3 st then virt # flushed st else flushed st)"
    "translate A (cells st') root w =
      (if same_path A virt w l then if is_present A e then Some (l, e) else None else translate A (cells st) root w)"
    "j \<le> l \<Longrightarrow> descend A (cells st') 0 root virt j = descend A (cells st) 0 root virt j"
    "set (space_tables A (cells st') root) = set (space_tables A (cells st) root) -
      set (below A (cells st) (LEVELS A - Suc l) l (cells st (table_entry t (index_of A virt l))))"
    "spared R st st'"
proof -
  show "spared R st st'" using spared_entry [OF assms(1-3)] by (simp add: st'_def)
  have sp: "space_ok A (free (frames st) \<union> R) (cells st) root" "inv (frames st)" "R \<inter> free (frames st) = {}"
    using assms(1) by (simp_all add: healthy_def)
  have c: "cells st' = (cells st)(table_entry t (index_of A virt l) := e)" "frames st' = frames st"
    by (simp_all add: st'_def invalidate_def write_entry_def)
  note eff = set_entry [OF sp(1) assms(2,3,4), folded c]
  show "healthy R st' root" using eff(3) sp(2,3) c(2) by (simp add: healthy_def)
  show "frames st' = frames st" "cr3 st' = cr3 st" "flushed st' = (if root = cr3 st then virt # flushed st else flushed st)"
    by (simp_all add: st'_def invalidate_def write_entry_def)
  show "translate A (cells st') root w =
      (if same_path A virt w l then if is_present A e then Some (l, e) else None else translate A (cells st) root w)"
    "j \<le> l \<Longrightarrow> descend A (cells st') 0 root virt j = descend A (cells st) 0 root virt j"
    "set (space_tables A (cells st') root) = set (space_tables A (cells st) root) -
      set (below A (cells st) (LEVELS A - Suc l) l (cells st (table_entry t (index_of A virt l))))"
    by (rule eff(5) eff(6) eff(4); assumption?)+
qed

text \<open>Mapping a page: a new leaf on success, no change of the translation on failure.\<close>

lemma map_page_spec:
  assumes "healthy R st root"
  obtains (ok) l b st' where "map_page A alloc root virt frame sz flags st = Some (Ok (), st')" "healthy R st' root"
      "leaf_level A sz = Some l" "page_size A l = Some b" "is_aligned virt b" "is_aligned (start_address frame) b"
      "\<And>w. same_path A virt w l \<Longrightarrow> translate A (cells st) root w = None"
      "\<And>w. translate A (cells st') root w =
        (if same_path A virt w l then Some (l, make_leaf A frame l flags) else translate A (cells st) root w)"
      "cr3 st' = cr3 st" "flushed st' = (if root = cr3 st then virt # flushed st else flushed st)" "spared R st st'"
  | (err) e st' where "map_page A alloc root virt frame sz flags st = Some (Err e, st')" "kept R st st' root"
proof (cases "leaf_level A sz")
  case None
  then show ?thesis using assms by (intro err [of UnsupportedSize st]) (simp_all add: map_page_def kept_def)
next
  case (Some l)
  then obtain b where l: "l < LEVELS A" "page_size A l = Some b" using leaf_level_ok by blast
  show ?thesis
  proof (cases "is_aligned virt b \<and> is_aligned (start_address frame) b")
    case False
    then show ?thesis using assms Some l by (intro err [of InvalidAddress st]) (auto simp: map_page_def kept_def)
  next
    case al: True
    obtain r st1 where r: "map_levels A alloc virt flags [0..<l] root st = Some (r, st1)" "kept R st st1 root"
      and t: "\<And>t. r = Ok t \<Longrightarrow> descend A (cells st1) 0 root virt l = Some t"
      using map_levels_spec [OF assms, of virt 0 root l flags] l(1) by auto
    show ?thesis
    proof (cases r)
      case (Err e)
      then show ?thesis using r Some l al by (intro err [of e st1]) (simp_all add: map_page_def)
    next
      case (Ok table)
      let ?p = "table_entry table (index_of A virt l)" and ?e = "make_leaf A frame l flags"
      let ?st = "invalidate root virt (write_entry st1 ?p ?e)"
      note d = t [OF Ok]
      show ?thesis
      proof (cases "is_present A (cells st1 ?p)")
        case True
        then show ?thesis using r Ok Some l al by (intro err [of AlreadyMapped st1]) (simp_all add: map_page_def read_entry_def)
      next
        case False
        have lf: "is_present A ?e \<longrightarrow> is_leaf A ?e l" using leaf_leaf l by simp
        have h1: "healthy R st1 root" using r(2) by (simp add: kept_def)
        note eff = set_leaf [OF h1 d l(1) lf]
        have "translate A (cells st1) root w = None" if "same_path A virt w l" for w
          using translate_descend [OF d that l(1)] False by (simp add: seek_def)
        moreover have "map_page A alloc root virt frame sz flags st = Some (Ok (), ?st)"
          using r(1) Ok Some l al False by (simp add: map_page_def read_entry_def)
        moreover have "translate A (cells ?st) root w = (if same_path A virt w l then Some (l, ?e) else translate A (cells st) root w)" for w
          using eff(5) r(2) leaf_present by (simp add: kept_def)
        ultimately show ?thesis
          using ok [OF _ eff(1) Some l(2) conjunct1 [OF al] conjunct2 [OF al]] r(2) eff(3,4) spared_trans [OF _ eff(8)]
          by (simp add: kept_def)
      qed
    qed
  qed
qed

text \<open>Changing the flags of a mapping.\<close>

lemma protect_levels_spec:
  assumes "healthy R st root" "descend A (cells st) 0 root virt l = Some table" "l \<le> LEVELS A"
  shows "case translate A (cells st) root virt of
      None \<Rightarrow> protect_levels A root virt flags [l..<LEVELS A] table st = Some (Err NotMapped, st)
    | Some (k, e) \<Rightarrow> page_size A k \<noteq> None \<longrightarrow>
        (\<exists>st'. protect_levels A root virt flags [l..<LEVELS A] table st = Some (Ok (), st') \<and> healthy R st' root \<and>
          (\<forall>w. translate A (cells st') root w =
            (if same_path A virt w k then Some (k, make_leaf A (entry_frame A e) k flags) else translate A (cells st) root w)) \<and>
          flushed st' = (if root = cr3 st then virt # flushed st else flushed st) \<and> frames st' = frames st \<and> spared R st st')"
  using assms
proof (induction "LEVELS A - l" arbitrary: l table)
  case 0
  then have "translate A (cells st) root virt = None"
    using lookup_descend [of A "cells st" 0 root virt l table "LEVELS A"] by (simp add: translate_def)
  then show ?case using 0 by simp
next
  case (Suc d)
  let ?p = "table_entry table (index_of A virt l)"
  have l: "l < LEVELS A" "d = LEVELS A - Suc l" "[l..<LEVELS A] = l # [Suc l..<LEVELS A]"
    using Suc.hyps(2) by (simp_all add: upt_conv_Cons)
  have tr: "translate A (cells st) root virt = seek A (cells st) (LEVELS A - Suc l) l (cells st ?p) virt"
    using translate_descend [OF Suc.prems(2) _ l(1), of virt] by (simp add: same_path_def)
  show ?case
  proof (cases "is_present A (cells st ?p) \<and> \<not> is_leaf A (cells st ?p) l")
    case True
    then have eq: "protect_levels A root virt flags [l..<LEVELS A] table st =
        protect_levels A root virt flags [Suc l..<LEVELS A] (entry_frame A (cells st ?p)) st"
      using l(3) by (simp add: read_entry_def)
    show ?thesis
      unfolding eq by (rule Suc.hyps(1) [OF l(2) Suc.prems(1) descend_step [OF Suc.prems(2)]]) (use True l(1) in simp_all)
  next
    case False
    show ?thesis
    proof (cases "is_present A (cells st ?p)")
      case absent: False
      then show ?thesis using tr l by (simp add: seek_def read_entry_def)
    next
      case True
      then have lf: "is_leaf A (cells st ?p) l" using False by simp
      let ?e = "make_leaf A (entry_frame A (cells st ?p)) l flags"
      have "\<exists>st'. protect_levels A root virt flags [l..<LEVELS A] table st = Some (Ok (), st') \<and> healthy R st' root \<and>
          (\<forall>w. translate A (cells st') root w = (if same_path A virt w l then Some (l, ?e) else translate A (cells st) root w)) \<and>
          flushed st' = (if root = cr3 st then virt # flushed st else flushed st) \<and> frames st' = frames st \<and> spared R st st'" if ps: "page_size A l \<noteq> None"
      proof (intro exI conjI allI)
        let ?st = "invalidate root virt (write_entry st ?p ?e)"
        have "is_present A ?e \<longrightarrow> is_leaf A ?e l" using leaf_leaf [OF l(1) ps] by simp
        note eff = set_leaf(1,4,5,2,8) [OF Suc.prems(1,2) l(1) this]
        show "protect_levels A root virt flags [l..<LEVELS A] table st = Some (Ok (), ?st)"
          using True lf l(3) by (simp add: read_entry_def Let_def)
        show "healthy R ?st root" "flushed ?st = (if root = cr3 st then virt # flushed st else flushed st)"
          "frames ?st = frames st" "spared R st ?st" by (rule eff)+
        show "translate A (cells ?st) root w = (if same_path A virt w l then Some (l, ?e) else translate A (cells st) root w)" for w
          using eff(3) [of w] leaf_present by simp
      qed
      then show ?thesis using tr True lf by (simp add: seek_def)
    qed
  qed
qed

text \<open>Giving a frame back: memory that no table lies in may become free.\<close>

definition table_free :: "usize set \<Rightarrow> 's mm \<Rightarrow> phys_frame \<Rightarrow> phys_frame \<Rightarrow> usize \<Rightarrow> bool" where
  "table_free R st root f n \<longleftrightarrow> R \<inter> {frame_index f ..< frame_index f + 2 ^ ceil_log2 n} = {} \<and>
     (\<forall>t \<in> set (space_tables A (cells st) root). frame_index t \<notin> {frame_index f ..< frame_index f + 2 ^ ceil_log2 n})"

lemma release_frame_spec:
  assumes h: "healthy R st root" and n: "n < usize_range"
    and apart: "table_free R st root f n"
  obtains (ok) c st' where "frames_call (release (frames st) f n) st = Some (Ok c, st')" "kept R st st' root" "cells st' = cells st"
      "view (frames st) (frame_index f) = Some (ceil_log2 n, c + 1)"
  | (err) e st' where "frames_call (release (frames st) f n) st = Some (Err (Frame e), st')" "kept R st st' root" "cells st' = cells st"
proof -
  have i: "inv (frames st)" "space_ok A (free (frames st) \<union> R) (cells st) root" "R \<inter> free (frames st) = {}"
    using h by (simp_all add: healthy_def)
  obtain r s' where r: "release (frames st) f n = Some (r, s')" "inv s'" "ram s' = ram (frames st)"
    using release_returns [OF i(1) n] by blast
  show ?thesis
  proof (cases r)
    case (Err e)
    then have "s' = frames st" using release_err [OF i(1) n] r(1) by simp
    then show ?thesis using err [of e st] r(1) Err h by (simp add: kept_def)
  next
    case (Ok c)
    note v = release_ok [OF i(1) n r(1) [unfolded Ok]]
    have sub: "free s' \<subseteq> free (frames st) \<union> {frame_index f ..< frame_index f + 2 ^ ceil_log2 n}"
    proof (cases "c = 0")
      case True
      then show ?thesis using v r(3) taken_delete [of "view (frames st)" "frame_index f" "ceil_log2 n" "c + 1"] by (auto simp: free_frames_def)
    next
      case False
      then show ?thesis using v r(3) taken_upd_count [of "view (frames st)" "frame_index f" "ceil_log2 n" "c + 1" c] by (auto simp: free_frames_def)
    qed
    have "R \<inter> free s' = {}" using sub i(3) apart unfolding table_free_def by blast
    moreover have "space_ok A (free s' \<union> R) (cells st) root"
      using sub i(2) apart unfolding space_ok_def table_free_def by blast
    moreover have "frame_index f \<notin> R" using apart by (auto simp: table_free_def)
    then have "spared R st (st\<lparr>frames := s'\<rparr>)" using v by (intro spared_frames) auto
    ultimately show ?thesis using ok [of c "st\<lparr>frames := s'\<rparr>"] r Ok v by (simp add: kept_def healthy_def)
  qed
qed

text \<open>
  A frame with more than one reference stays allocated when one is given back. \<open>let_go\<close> is what
  an operation that may give one reference to a frame back leaves of the reserved frames.
\<close>

definition let_go :: "usize set \<Rightarrow> bool \<Rightarrow> usize \<Rightarrow> 's mm \<Rightarrow> 's mm \<Rightarrow> bool" where
  "let_go R rel f st st' \<longleftrightarrow> spared (if rel then R - {f} else R) st st' \<and> (rel \<and> f \<in> R \<longrightarrow>
     (\<exists>k c. view (frames st) f = Some (k, c + 2) \<and> view (frames st') f = Some (k, c + 1)) \<and>
     (\<forall>p. p div PAGE_SIZE = f \<longrightarrow> cells st' p = cells st p))"

lemma spared_mono: "spared R st st' \<Longrightarrow> R' \<subseteq> R \<Longrightarrow> spared R' st st'"
  by (auto simp: spared_def)

lemma let_go_untouched: "spared R st st' \<Longrightarrow> rel \<longrightarrow> f \<notin> R \<Longrightarrow> let_go R rel f st st'"
  by (auto simp: let_go_def intro: spared_mono)

lemma let_go_trans:
  assumes "spared R st st1" "let_go R rel f st1 st2" "spared R st2 st3"
  shows "let_go R rel f st st3"
proof (cases "rel \<and> f \<in> R")
  case True
  have "spared (R - {f}) st st3"
    using spared_mono [OF assms(1), of "R - {f}"] assms(2) spared_mono [OF assms(3), of "R - {f}"] True
    by (auto simp: let_go_def intro: spared_trans)
  then show ?thesis using assms True by (simp add: let_go_def spared_def)
next
  case False
  then have "(if rel then R - {f} else R) = R" by auto
  then have "spared R st1 st2" using assms(2) by (simp add: let_go_def)
  then show ?thesis using assms(1, 3) False by (intro let_go_untouched) (auto intro: spared_trans)
qed

lemma release_shared_spec:
  assumes h: "healthy R st root" and n: "0 < n" "n < usize_range" and f: "aligned_frame f"
    and v: "view (frames st) (frame_index f) = Some (ceil_log2 n, c + 2)"
  obtains st' where "frames_call (release (frames st) f n) st = Some (Ok (c + 1), st')" "healthy R st' root"
    "cells st' = cells st" "flushed st' = flushed st" "cr3 st' = cr3 st"
    "view (frames st') = (view (frames st))(frame_index f \<mapsto> (ceil_log2 n, c + 1))" "let_go R True (frame_index f) st st'"
proof -
  have i: "inv (frames st)" using h by (simp add: healthy_def)
  obtain s' where s': "release (frames st) f n = Some (Ok (c + 1), s')"
    using release_live [OF i n(2) f, of "c + 1"] v n(1) by auto
  have k: "inv s'" "ram s' = ram (frames st)" using release_returns [OF i n(2), of f] s' by auto
  have v': "view s' = (view (frames st))(frame_index f \<mapsto> (ceil_log2 n, c + 1))" using release_ok [OF i n(2) s'] v by simp
  then have "free s' = free (frames st)" using k(2) taken_upd_count [of "view (frames st)" "frame_index f", OF v, of "c + 1"] by (simp add: free_frames_def)
  then have "healthy R (st\<lparr>frames := s'\<rparr>) root" using h k(1) by (simp add: healthy_def)
  moreover have "let_go R True (frame_index f) st (st\<lparr>frames := s'\<rparr>)" using v v' by (auto simp: let_go_def spared_def)
  ultimately show ?thesis using that [of "st\<lparr>frames := s'\<rparr>"] s' v' by simp
qed

text \<open>Pruning removes tables that translate nothing.\<close>

lemma prune_spec:
  assumes "healthy R st root" "level < LEVELS A" "length walk = MAX_PAGE_TABLE_LEVELS"
    "\<And>j. j \<le> level \<Longrightarrow> \<exists>t. descend A (cells st) 0 root virt j = Some t \<and> walk ! j = Some \<lparr>we_table = t, we_index = index_of A virt j\<rparr>"
  shows "\<exists>r st'. prune_empty_tables A release walk level st = Some (r, st') \<and> kept R st st' root \<and> (\<forall>e. r = Err e \<longrightarrow> (\<exists>x. e = Frame x))"
  using assms
proof (induction level arbitrary: st)
  case 0
  then show ?case by (simp add: kept_def)
next
  case (Suc level)
  have len: "Suc level < length walk" using Suc.prems(2,3) levels(2) by simp
  obtain t where t: "descend A (cells st) 0 root virt (Suc level) = Some t" "walk ! Suc level = Some \<lparr>we_table = t, we_index = index_of A virt (Suc level)\<rparr>"
    using Suc.prems(4) [of "Suc level"] by blast
  obtain p where p: "descend A (cells st) 0 root virt level = Some p" "walk ! level = Some \<lparr>we_table = p, we_index = index_of A virt level\<rparr>"
    using Suc.prems(4) [of level] by auto
  show ?case
  proof (cases "table_is_empty A st t")
    case False
    then show ?thesis using t len Suc.prems(1) by (simp add: kept_def)
  next
    case True
    let ?c = "table_entry p (index_of A virt level)"
    let ?st = "write_entry st ?c 0"
    have l: "level < LEVELS A" using Suc.prems(2) by simp
    have empty: "\<not> is_present A (cells st (table_entry t i))" if "i < ENTRY_COUNT A" for i
      using True that by (simp add: table_is_empty_def list_all_iff read_entry_def)
    have e: "is_present A (cells st ?c)" "\<not> is_leaf A (cells st ?c) level" "entry_frame A (cells st ?c) = t"
      using t(1) p(1) descend_Suc [of A "cells st" 0 root virt level] by (auto simp: Let_def split: if_splits)
    obtain d where d: "LEVELS A - Suc level = Suc d" using Suc.prems(2) by (metis Suc_diff_Suc)
    have emp: "tables A (cells st) (Suc d) (Suc level) t = [t]" "lookup A (cells st) (Suc d) (Suc level) t w = None" for w
      by (rule empty_table [where m = "cells st" and t = t, OF empty Suc.prems(2)]; assumption)+
    have sp: "space_ok A (free (frames st) \<union> R) (cells st) root" using Suc.prems(1) by (simp add: healthy_def)
    have za: "is_present A 0 \<longrightarrow> is_leaf A 0 level" using zero_absent by simp
    note w = set_entry [OF sp p(1) l za]
    have below: "below A (cells st) (LEVELS A - Suc level) level (cells st ?c) = [t]"
      using e emp(1) d by (simp add: below_def del: tables.simps)
    have none: "translate A (cells st) root v = None" if "same_path A virt v level" for v
      using translate_descend [OF p(1) that l] e emp(2) d by (simp add: seek_def del: lookup.simps)
    have st1: "kept R st ?st root" "set (space_tables A (cells ?st) root) = set (space_tables A (cells st) root) - {t}"
      using w(3,4,5) below none zero_absent Suc.prems(1) spared_entry [OF Suc.prems(1) p(1) l, where e = 0]
      by (simp_all add: kept_def healthy_def write_entry_def)
    have h1: "healthy R ?st root" using st1(1) by (simp add: kept_def)
    have tin: "t \<in> set (space_tables A (cells st) root)" using w(2) below by simp
    have apart: "table_free R ?st root t 1"
      unfolding table_free_def ceil_log2_1
    proof (intro conjI ballI)
      have "frame_index t \<notin> R" using sp tin by (auto simp: space_ok_def)
      then show "R \<inter> {frame_index t ..< frame_index t + 2 ^ 0} = {}" by simp
    next
      fix x assume "x \<in> set (space_tables A (cells ?st) root)"
      then have "x \<noteq> t" "aligned_frame x" "aligned_frame t" using st1(2) sp tin by (auto simp: space_ok_def)
      then have "frame_index x \<noteq> frame_index t" by (auto simp: aligned_frame_def)
      then show "frame_index x \<notin> {frame_index t ..< frame_index t + 2 ^ 0}" by simp
    qed
    have walk': "\<exists>x. descend A (cells ?st) 0 root virt j = Some x \<and> walk ! j = Some \<lparr>we_table = x, we_index = index_of A virt j\<rparr>"
      if "j \<le> level" for j
      using Suc.prems(4) [of j] w(6) [OF that] that by (simp add: write_entry_def)
    have step: "prune_empty_tables A release walk (Suc level) st =
        and_then (frames_call (release (frames ?st) t 1) ?st) (\<lambda>_. prune_empty_tables A release walk level)"
      using t(2) p(2) len True by (simp add: Let_def)
    show ?thesis
    proof (rule release_frame_spec [OF h1 _ apart])
      show "(1::nat) < usize_range" by (simp add: usize_range_def)
    next
      fix c st' assume a: "frames_call (release (frames ?st) t 1) ?st = Some (Ok c, st')" "kept R ?st st' root" "cells st' = cells ?st"
      have h: "healthy R st' root" using a(2) by (simp add: kept_def)
      have "\<exists>r st''. prune_empty_tables A release walk level st' = Some (r, st'') \<and> kept R st' st'' root \<and> (\<forall>e. r = Err e \<longrightarrow> (\<exists>x. e = Frame x))"
        by (rule Suc.IH [OF h l Suc.prems(3)]) (use walk' a(3) in simp)
      then show ?thesis using a(1) kept_trans [OF kept_trans [OF st1(1) a(2)]] unfolding step by auto
    next
      fix e st' assume "frames_call (release (frames ?st) t 1) ?st = Some (Err (Frame e), st')" "kept R ?st st' root"
      then show ?thesis using kept_trans [OF st1(1)] unfolding step by auto
    qed
  qed
qed

text \<open>Removing a leaf, giving its frame back when asked, pruning.\<close>

definition may_release :: "usize set \<Rightarrow> 's mm \<Rightarrow> phys_frame \<Rightarrow> phys_frame \<Rightarrow> usize \<Rightarrow> bool" where
  "may_release R st root f n \<longleftrightarrow> table_free R st root f n \<or> (\<exists>c. view (frames st) (frame_index f) = Some (ceil_log2 n, c + 2))"

definition unmapped :: "usize set \<Rightarrow> 's mm \<Rightarrow> phys_frame \<Rightarrow> usize \<Rightarrow> bool \<Rightarrow> nat \<Rightarrow> entry \<Rightarrow> map_size \<Rightarrow>
    ('s mm, mapping_error, unmap_result) run \<Rightarrow> bool" where
  "unmapped R st root virt release_frame k e sz m \<longleftrightarrow> (\<exists>r st'. m = Some (r, st') \<and> healthy R st' root \<and>
     (\<forall>w. translate A (cells st') root w = (if same_path A virt w k then None else translate A (cells st) root w)) \<and>
     flushed st' = (if root = cr3 st then virt # flushed st else flushed st) \<and> cr3 st' = cr3 st \<and>
     let_go R release_frame (frame_index (entry_frame A e)) st st' \<and>
     (case r of
        Ok u \<Rightarrow> ur_frame u = entry_frame A e \<and> ur_size u = sz \<and> (release_frame \<longrightarrow>
          view (frames st) (frame_index (entry_frame A e)) = Some (ceil_log2 (frame_count_for_size sz), remaining_refs u + 1))
      | Err x \<Rightarrow> \<exists>y. x = Frame y))"

lemma frame_count_small: "frame_count_for_size sz < usize_range"
  by (cases sz) (simp_all add: frame_count_for_size_def usize_range_def PAGE_SIZE_def PAGE_SHIFT_def)

lemma clear_leaf_spec:
  assumes h: "healthy R st root" and t: "descend A (cells st) 0 root virt l = Some table" and l: "l < LEVELS A"
    and leaf: "is_present A (cells st (table_entry table (index_of A virt l)))" "is_leaf A (cells st (table_entry table (index_of A virt l))) l"
    and walk: "length walk = MAX_PAGE_TABLE_LEVELS"
      "\<And>j. j \<le> l \<Longrightarrow> \<exists>t. descend A (cells st) 0 root virt j = Some t \<and> walk ! j = Some \<lparr>we_table = t, we_index = index_of A virt j\<rparr>"
    and apart: "release_frame \<longrightarrow> may_release R st root frame (frame_count_for_size sz)"
    and frame: "frame = entry_frame A (cells st (table_entry table (index_of A virt l)))"
  defines "st1 \<equiv> invalidate root virt (write_entry st (table_entry table (index_of A virt l)) 0)"
  shows "unmapped R st root virt release_frame l (cells st (table_entry table (index_of A virt l))) sz
    (and_then (if release_frame then frames_call (release (frames st1) frame (frame_count_for_size sz)) st1 else Some (Ok 1, st1))
      (\<lambda>refs st. and_then (prune_empty_tables A release walk l st) (\<lambda>_ st.
         Some (Ok \<lparr>ur_frame = frame, remaining_refs = refs, ur_size = sz\<rparr>, st))))"
proof -
  have za: "is_present A 0 \<longrightarrow> is_leaf A 0 l" using zero_absent by simp
  note w = set_leaf [OF h t l za, folded st1_def]
  have prune: "\<exists>r st'. prune_empty_tables A release walk l st2 = Some (r, st') \<and> kept R st2 st' root \<and> (\<forall>e. r = Err e \<longrightarrow> (\<exists>x. e = Frame x))"
    if "healthy R st2 root" "cells st2 = cells st1" for st2
    by (rule prune_spec [where virt = virt, OF that(1) l walk(1)]) (use walk(2) w(6) that(2) in simp)
  have fin: ?thesis if k: "healthy R st2 root" "cells st2 = cells st1" "flushed st2 = flushed st1" "cr3 st2 = cr3 st1"
      "let_go R release_frame (frame_index frame) st1 st2"
    and q: "(if release_frame then frames_call (release (frames st1) frame (frame_count_for_size sz)) st1 else Some (Ok 1, st1)) = Some (Ok c, st2)"
    and c: "release_frame \<longrightarrow> view (frames st) (frame_index frame) = Some (ceil_log2 (frame_count_for_size sz), c + 1)" for st2 c
  proof -
    obtain r st' where p: "prune_empty_tables A release walk l st2 = Some (r, st')" "kept R st2 st' root" "\<forall>e. r = Err e \<longrightarrow> (\<exists>x. e = Frame x)"
      using prune [OF k(1,2)] by blast
    have "let_go R release_frame (frame_index frame) st st'"
      using let_go_trans [OF w(8) k(5)] p(2) by (simp add: kept_def)
    then show ?thesis
      unfolding q unmapped_def using p k w(3,4,5) zero_absent c frame by (cases r) (auto simp: kept_def)
  qed
  have n: "0 < frame_count_for_size sz" by (cases sz) (simp_all add: frame_count_for_size_def PAGE_SIZE_def PAGE_SHIFT_def)
  have al: "aligned_frame frame" unfolding frame by (rule addressable_aligned [OF entry_addressable])
  consider (keep) "\<not> release_frame" | (last) "release_frame" "table_free R st root frame (frame_count_for_size sz)"
    | (shared) c where "release_frame" "view (frames st) (frame_index frame) = Some (ceil_log2 (frame_count_for_size sz), c + 2)"
    using apart by (auto simp: may_release_def)
  then show ?thesis
  proof cases
    case keep
    then show ?thesis using fin [of st1 1] w(1) by (simp add: let_go_def)
  next
    case shared
    have "view (frames st1) (frame_index frame) = Some (ceil_log2 (frame_count_for_size sz), c + 2)" using shared(2) w(2) by simp
    then obtain st2 where "frames_call (release (frames st1) frame (frame_count_for_size sz)) st1 = Some (Ok (c + 1), st2)"
        "healthy R st2 root" "cells st2 = cells st1" "flushed st2 = flushed st1" "cr3 st2 = cr3 st1" "let_go R True (frame_index frame) st1 st2"
      by (rule release_shared_spec [OF w(1) n frame_count_small al])
    then show ?thesis using fin [of st2 "c + 1"] shared by simp
  next
    case last
    have ap: "table_free R st1 root frame (frame_count_for_size sz)" using last(2) w(7) unfolding table_free_def by auto
    have out: "frame_index frame \<notin> R" using last(2) by (auto simp: table_free_def)
    show ?thesis
    proof (rule release_frame_spec [OF w(1) frame_count_small ap])
      fix c st' assume a: "frames_call (release (frames st1) frame (frame_count_for_size sz)) st1 = Some (Ok c, st')"
        "kept R st1 st' root" "cells st' = cells st1" "view (frames st1) (frame_index frame) = Some (ceil_log2 (frame_count_for_size sz), c + 1)"
      then show ?thesis using fin [of st' c] last(1) w(2) let_go_untouched [of R st1 st' True "frame_index frame"] out by (simp add: kept_def)
    next
      fix e st' assume a: "frames_call (release (frames st1) frame (frame_count_for_size sz)) st1 = Some (Err (Frame e), st')" "kept R st1 st' root"
      then have "let_go R release_frame (frame_index frame) st st'"
        using let_go_untouched [OF spared_trans [OF w(8)]] out by (simp add: kept_def)
      then show ?thesis using a last(1) w(3,4,5) zero_absent frame by (simp add: unmapped_def kept_def)
    qed
  qed
qed

lemma unmap_levels_spec:
  assumes "healthy R st root" "descend A (cells st) 0 root virt l = Some table" "l \<le> LEVELS A" "length walk = MAX_PAGE_TABLE_LEVELS"
    "\<And>j. j < l \<Longrightarrow> \<exists>t. descend A (cells st) 0 root virt j = Some t \<and> walk ! j = Some \<lparr>we_table = t, we_index = index_of A virt j\<rparr>"
  shows "case translate A (cells st) root virt of
      None \<Rightarrow> unmap_levels A release root virt release_frame [l..<LEVELS A] table walk st = Some (Err NotMapped, st)
    | Some (k, e) \<Rightarrow> (case map_size_for_level A k of
        Err x \<Rightarrow> unmap_levels A release root virt release_frame [l..<LEVELS A] table walk st = Some (Err x, st)
      | Ok sz \<Rightarrow> (release_frame \<longrightarrow> may_release R st root (entry_frame A e) (frame_count_for_size sz)) \<longrightarrow>
          unmapped R st root virt release_frame k e sz (unmap_levels A release root virt release_frame [l..<LEVELS A] table walk st))"
  using assms
proof (induction "LEVELS A - l" arbitrary: l table walk)
  case 0
  then have "translate A (cells st) root virt = None"
    using lookup_descend [of A "cells st" 0 root virt l table "LEVELS A"] by (simp add: translate_def)
  then show ?case using 0 by simp
next
  case (Suc d)
  let ?p = "table_entry table (index_of A virt l)"
  let ?walk = "walk[l := Some \<lparr>we_table = table, we_index = index_of A virt l\<rparr>]"
  have l: "l < LEVELS A" "d = LEVELS A - Suc l" "[l..<LEVELS A] = l # [Suc l..<LEVELS A]"
    using Suc.hyps(2) by (simp_all add: upt_conv_Cons)
  have len: "l < length walk" using l(1) levels(2) Suc.prems(4) by simp
  have walk: "\<exists>t. descend A (cells st) 0 root virt j = Some t \<and> ?walk ! j = Some \<lparr>we_table = t, we_index = index_of A virt j\<rparr>"
    if "j \<le> l" for j
    using Suc.prems(5) [of j] Suc.prems(2) that len by (cases "j = l") auto
  have tr: "translate A (cells st) root virt = seek A (cells st) (LEVELS A - Suc l) l (cells st ?p) virt"
    using translate_descend [OF Suc.prems(2) _ l(1), of virt] by (simp add: same_path_def)
  consider (sub) "is_present A (cells st ?p)" "\<not> is_leaf A (cells st ?p) l"
    | (absent) "\<not> is_present A (cells st ?p)" | (leaf) "is_present A (cells st ?p)" "is_leaf A (cells st ?p) l" by blast
  then show ?case
  proof cases
    case sub
    then have eq: "unmap_levels A release root virt release_frame [l..<LEVELS A] table walk st =
        unmap_levels A release root virt release_frame [Suc l..<LEVELS A] (entry_frame A (cells st ?p)) ?walk st"
      using l(3) len by (simp add: read_entry_def Let_def)
    show ?thesis
      unfolding eq by (rule Suc.hyps(1) [OF l(2) Suc.prems(1) descend_step [OF Suc.prems(2)]])
        (use sub l(1) Suc.prems(4) walk in \<open>simp_all add: less_Suc_eq_le\<close>)
  next
    case absent
    then show ?thesis using tr l(3) by (simp add: seek_def read_entry_def Let_def)
  next
    case leaf
    have tl: "translate A (cells st) root virt = Some (l, cells st ?p)" using tr leaf by (simp add: seek_def)
    show ?thesis
    proof (cases "map_size_for_level A l")
      case (Err x)
      then show ?thesis using tl leaf l(3) len by (simp add: read_entry_def Let_def)
    next
      case (Ok sz)
      show ?thesis
        using clear_leaf_spec [OF Suc.prems(1,2) l(1) leaf, of ?walk release_frame "entry_frame A (cells st ?p)" sz] walk Suc.prems(4)
          tl leaf l(3) len Ok
        by (auto simp: read_entry_def Let_def)
    qed
  qed
qed

text \<open>Mapping fresh memory: on failure the frames go back.\<close>

lemma healthy_mono: "healthy R st root \<Longrightarrow> R' \<subseteq> R \<Longrightarrow> healthy R' st root"
  by (auto simp: healthy_def space_ok_def)

lemma healthy_apart:
  "healthy {frame_index f ..< frame_index f + 2 ^ ceil_log2 n} st root \<Longrightarrow> table_free {} st root f n"
  by (auto simp: healthy_def space_ok_def table_free_def)

lemma map_alloc_spec:
  assumes h: "healthy {} st root"
  obtains (ok) f l st' where "map_alloc A alloc release root virt sz flags st = Some (Ok (), st')"
      "leaf_level A sz = Some l" "addressable f" "is_aligned (start_address f) (the (page_size A l))"
      "{frame_index f ..< frame_index f + 2 ^ ceil_log2 (frame_count_for_size sz)} \<subseteq> free (frames st)"
      "healthy {frame_index f ..< frame_index f + 2 ^ ceil_log2 (frame_count_for_size sz)} st' root"
      "\<And>w. translate A (cells st') root w =
        (if same_path A virt w l then Some (l, make_leaf A f l flags) else translate A (cells st) root w)"
  | (err) e st' where "map_alloc A alloc release root virt sz flags st = Some (Err e, st')" "kept {} st st' root"
proof -
  let ?n = "frame_count_for_size sz"
  have inv: "inv (frames st)" "space_ok A (free (frames st)) (cells st) root" using h by (simp_all add: healthy_def)
  obtain r s' where r: "alloc (frames st) ?n = Some (r, s')" using alloc_returns [OF inv(1) frame_count_small] by blast
  note k = alloc_keeps [OF inv(1) frame_count_small r]
  show ?thesis
  proof (cases r)
    case (Err e)
    have "free s' = free (frames st)"
      using alloc_err [OF inv(1) frame_count_small r [unfolded Err]] k by (simp add: free_frames_def)
    then show ?thesis
      using err [of MapOutOfMemory "st\<lparr>frames := s'\<rparr>"] r Err k inv
      by (simp add: map_alloc_def Let_def kept_def healthy_def spared_def)
  next
    case (Ok f)
    let ?B = "{frame_index f ..< frame_index f + 2 ^ ceil_log2 ?n}" and ?st = "st\<lparr>frames := s'\<rparr>"
    note a = alloc_ok [OF inv(1) frame_count_small r [unfolded Ok]]
    have fresh: "view (frames st) (frame_index f) = None" by (rule alloc_fresh [OF inv(1) frame_count_small r [unfolded Ok]])
    have B: "?B \<subseteq> free (frames st)" using a by (simp add: free_frames_def)
    have "free s' = free (frames st) - ?B"
      using a k taken_upd [of "view (frames st)", OF fresh] by (auto simp: free_frames_def)
    then have h1: "healthy ?B ?st root" using inv k B by (auto simp: healthy_def space_ok_def)
    have "frame_index f \<in> ?B" by simp
    then have "frame_index f \<in> ram (frames st)" using B unfolding free_frames_def by blast
    moreover have "\<lparr>start_address = frame_index f * PAGE_SIZE\<rparr> = f" using a by (simp add: aligned_frame_def)
    ultimately have ad: "addressable f" using ram_addressable [OF inv(1)] by force
    show ?thesis
    proof (rule map_page_spec [OF h1, of virt f sz flags])
      fix l b st' assume m: "map_page A alloc root virt f sz flags ?st = Some (Ok (), st')" "healthy ?B st' root"
        "leaf_level A sz = Some l" "page_size A l = Some b" "is_aligned (start_address f) b"
        "\<And>w. translate A (cells st') root w = (if same_path A virt w l then Some (l, make_leaf A f l flags) else translate A (cells ?st) root w)"
      show ?thesis
        using r Ok m by (intro ok [OF _ m(3) ad _ B m(2)]) (simp_all add: map_alloc_def Let_def)
    next
      fix e st' assume m: "map_page A alloc root virt f sz flags ?st = Some (Err e, st')" "kept ?B ?st st' root"
      have h2: "healthy {} st' root" using m(2) healthy_mono by (auto simp: kept_def)
      have "table_free {} st' root f ?n" by (rule healthy_apart) (use m(2) in \<open>simp add: kept_def\<close>)
      then obtain r' st'' where "frames_call (release (frames st') f ?n) st' = Some (r', st'')" "kept {} st' st'' root"
        by (rule release_frame_spec [OF h2 frame_count_small, of f sz]) blast+
      then show ?thesis
        using r Ok m by (intro err [of e st'']) (simp_all add: map_alloc_def Let_def kept_def)
    qed
  qed
qed

end

end
