(* ===== verification/Paging_X86.thy ===== *)
theory Paging_X86
  imports Address_Spaces
begin

text \<open>
  The x86-64 page table format of \<open>aether-frame/src/arch/x86_64/mm/paging.rs\<close> keeps the
  contract of \<open>PageTableArch\<close>, for frames below the 52 bit limit of physical addresses.
\<close>

definition x86_addressable :: "phys_frame \<Rightarrow> bool" where
  "x86_addressable f \<longleftrightarrow> aligned_frame f \<and> start_address f < 2 ^ 52"

lemmas entry_bits = ENTRY_PRESENT_def ENTRY_WRITABLE_def ENTRY_USER_def ENTRY_WRITE_THROUGH_def
  ENTRY_CACHE_DISABLE_def ENTRY_HUGE_def ENTRY_GLOBAL_def ENTRY_NO_EXECUTE_def

lemma bit_addr_mask: "bit ENTRY_ADDR_MASK n \<longleftrightarrow> 12 \<le> n \<and> n < 52"
proof -
  have "ENTRY_ADDR_MASK = push_bit 12 (mask 40)" by (simp add: ENTRY_ADDR_MASK_def mask_eq_exp_minus_1)
  then have "bit ENTRY_ADDR_MASK n = bit (push_bit 12 (mask 40) :: entry) n" by (rule arg_cong)
  then show ?thesis unfolding bit_push_bit_iff bit_mask_iff by auto
qed

lemma bit_frame:
  assumes "x86_addressable f"
  shows "bit (of_nat (start_address f) :: entry) n \<Longrightarrow> 12 \<le> n \<and> n < 52"
proof -
  assume b: "bit (of_nat (start_address f) :: entry) n"
  then have b: "bit (start_address f) n" by (simp add: bit_simps)
  have "start_address f = push_bit 12 (frame_index f)"
    using assms by (simp add: x86_addressable_def aligned_frame_def push_bit_eq_mult PAGE_SIZE_def PAGE_SHIFT_def)
  then have "12 \<le> n" using b by (auto simp: bit_simps)
  moreover have "take_bit 52 (start_address f) = start_address f"
    using assms by (simp add: take_bit_nat_eq_self x86_addressable_def)
  then have "n < 52" using b by (metis bit_take_bit_iff)
  ultimately show ?thesis by simp
qed

lemma bit_flag: "bit (push_bit k 1 :: entry) n \<longleftrightarrow> n = k \<and> k < 64"
  by (auto simp: bit_simps)

lemma flag_bits:
  "bit ENTRY_PRESENT n \<longleftrightarrow> n = 0" "bit ENTRY_WRITABLE n \<longleftrightarrow> n = 1" "bit ENTRY_USER n \<longleftrightarrow> n = 2"
  "bit ENTRY_WRITE_THROUGH n \<longleftrightarrow> n = 3" "bit ENTRY_CACHE_DISABLE n \<longleftrightarrow> n = 4" "bit ENTRY_HUGE n \<longleftrightarrow> n = 7"
  "bit ENTRY_GLOBAL n \<longleftrightarrow> n = 8" "bit ENTRY_NO_EXECUTE n \<longleftrightarrow> n = 63"
  by (simp_all only: entry_bits bit_flag) simp_all

lemma bit_if_or: "bit (if b then e OR x else e :: entry) n \<longleftrightarrow> bit e n \<or> b \<and> bit x n"
  by (simp add: bit_or_iff)

text \<open>An entry with the bits of a frame in the address field refers to that frame.\<close>

lemma entry_frame_of:
  assumes "x86_addressable f" "\<And>n. 12 \<le> n \<Longrightarrow> n < 52 \<Longrightarrow> bit e n = bit (of_nat (start_address f) :: entry) n"
  shows "x86_entry_frame e = f"
proof -
  have "e AND ENTRY_ADDR_MASK = of_nat (start_address f)"
    using assms(2) bit_frame [OF assms(1)] by (intro bit_word_eqI) (auto simp: bit_simps bit_addr_mask)
  moreover have "unat (of_nat (start_address f) :: entry) = start_address f"
    using assms(1) by (simp add: unat_of_nat x86_addressable_def)
  ultimately show ?thesis by (simp add: x86_entry_frame_def)
qed

lemma x86_entry_addressable: "x86_addressable (x86_entry_frame e)"
proof -
  let ?w = "e AND ENTRY_ADDR_MASK"
  have "take_bit 12 ?w = 0" by (intro bit_word_eqI) (simp add: bit_simps bit_addr_mask)
  then have "take_bit 12 (unat ?w) = 0" by (metis unsigned_take_bit_eq unat_0)
  then have "unat ?w mod 4096 = 0" by (simp add: take_bit_eq_mod)
  moreover have "take_bit 52 ?w = ?w" by (intro bit_word_eqI) (auto simp: bit_simps bit_addr_mask)
  then have "unat ?w < 2 ^ 52" by (metis unsigned_take_bit_eq take_bit_nat_less_exp)
  ultimately show ?thesis
    by (auto simp: x86_addressable_def x86_entry_frame_def aligned_frame_def frame_index_def drop_bit_eq_div PAGE_SIZE_def PAGE_SHIFT_def)
qed

lemma and_flag: "k < 64 \<Longrightarrow> (e :: entry) AND push_bit k 1 \<noteq> 0 \<longleftrightarrow> bit e k"
  unfolding bit_eq_iff [of "e AND push_bit k 1" 0] bit_and_iff bit_flag by auto

lemma present_bit: "x86_is_present e \<longleftrightarrow> bit e 0"
  using and_flag [of 0 e] by (simp add: x86_is_present_def ENTRY_PRESENT_def)

lemma huge_bit: "e AND ENTRY_HUGE \<noteq> 0 \<longleftrightarrow> bit e 7"
  using and_flag [of 7 e] by (simp only: ENTRY_HUGE_def)

lemma bit_make_table:
  "bit (x86_make_table f fl) n \<longleftrightarrow> bit (of_nat (start_address f) :: entry) n \<or> n = 0 \<or> n = 1 \<or> n = 2 \<and> contains fl USER"
  by (simp only: x86_make_table_def Let_def bit_if_or bit_or_iff flag_bits) blast

lemma bit_make_leaf:
  "bit (x86_make_leaf f l fl) n \<longleftrightarrow> bit (of_nat (start_address f) :: entry) n \<or> n = 0 \<or> n = 1 \<and> contains fl WRITE \<or>
     n = 2 \<and> contains fl USER \<or> n = 3 \<and> contains fl WRITE_THROUGH \<or> n = 4 \<and> contains fl NO_CACHE \<or>
     n = 8 \<and> contains fl GLOBAL \<or> n = 63 \<and> \<not> contains fl EXECUTE \<or> n = 7 \<and> (l = 1 \<or> l = 2)"
  by (simp only: x86_make_leaf_def Let_def bit_if_or bit_or_iff flag_bits) blast

interpretation x86: page_table_arch x86_64 x86_addressable
proof (unfold_locales, goal_cases)
  case 1 show ?case by (simp add: x86_64_def)
next
  case 2 show ?case by (simp add: x86_64_def MAX_PAGE_TABLE_LEVELS_def)
next
  case (3 l v)
  have "drop_bit k v AND 0x1ff = take_bit 9 (drop_bit k v)" for k v :: nat
    using take_bit_eq_mask [of 9 "drop_bit k v"] by (simp add: mask_eq_exp_minus_1)
  then show ?case by (simp add: x86_64_def x86_index_of_def take_bit_eq_mod)
next
  case 4 show ?case by (simp add: x86_64_def PAGE_SIZE_def PAGE_SHIFT_def)
next
  case (5 e) show ?case by (simp add: x86_64_def x86_is_leaf_def)
next
  case 6 show ?case by (simp add: x86_64_def present_bit)
next
  case (7 f) then show ?case by (simp add: x86_addressable_def)
next
  case (8 e) show ?case by (simp add: x86_64_def x86_entry_addressable)
next
  case (9 f fl) show ?case by (simp add: x86_64_def present_bit bit_make_table)
next
  case (10 f l fl)
  then show ?case using bit_frame [OF 10(1), of 7] by (auto simp: x86_64_def x86_is_leaf_def huge_bit bit_make_table)
next
  case (11 f fl) then show ?case by (auto simp: x86_64_def bit_make_table intro!: entry_frame_of)
next
  case (12 f l fl) show ?case by (simp add: x86_64_def present_bit bit_make_leaf)
next
  case (13 l f fl)
  then have "l < 4" "l \<noteq> 0" by (simp_all add: x86_64_def) (auto simp: x86_page_size_def PAGE_SIZES_def intro!: gr0I)
  then have "l = 1 \<or> l = 2 \<or> l = 3" by linarith
  then show ?case by (auto simp: x86_64_def x86_is_leaf_def huge_bit bit_make_leaf)
next
  case (14 f l b fl) then show ?case by (auto simp: x86_64_def bit_make_leaf intro!: entry_frame_of)
next
  case (15 sz l)
  then show ?case by (cases sz) (auto simp: x86_64_def x86_leaf_level_def x86_page_size_def PAGE_SIZES_def)
qed

section \<open>With the buddy allocator\<close>

text \<open>Physical memory below the limit of the entry format.\<close>

definition x86_frames :: "usize \<Rightarrow> buddy \<Rightarrow> bool" where
  "x86_frames cpuid s \<longleftrightarrow> buddy_ready cpuid s \<and> (\<forall>f \<in> usable s. f < 2 ^ 40)"

interpretation x86_buddy: mapper "x86_frames cpuid" allocated usable "buddy_alloc cpuid recovered"
  buddy_retain "buddy_release cpuid" buddy_ref_count x86_64 x86_addressable
  for cpuid recovered
proof (unfold_locales, goal_cases)
  case (1 s n) then show ?case using buddy_frames.alloc_returns by (simp add: x86_frames_def)
next
  case (2 s n r s') then show ?case using buddy_frames.alloc_keeps by (fastforce simp: x86_frames_def)
next
  case (3 s n f s') then show ?case using buddy_frames.alloc_ok unfolding x86_frames_def by blast
next
  case (4 s n e s') then show ?case using buddy_frames.alloc_err unfolding x86_frames_def by blast
next
  case (5 s f) then show ?case using buddy_frames.retain_returns [of cpuid s f] by (auto simp: x86_frames_def)
next
  case (6 s f c s') then show ?case using buddy_frames.retain_ok [of cpuid] unfolding x86_frames_def by blast
next
  case (7 s f e s') then show ?case using buddy_frames.retain_err [of cpuid] unfolding x86_frames_def by blast
next
  case (8 s f k q) then show ?case using buddy_frames.retain_live [of cpuid] unfolding x86_frames_def by blast
next
  case (9 s n f) then show ?case using buddy_frames.release_returns [of cpuid s n f] by (auto simp: x86_frames_def)
next
  case (10 s n f c s') then show ?case using buddy_frames.release_ok [of cpuid] unfolding x86_frames_def by blast
next
  case (11 s n f e s') then show ?case using buddy_frames.release_err [of cpuid] unfolding x86_frames_def by blast
next
  case (12 s n f c) then show ?case using buddy_frames.release_live [of cpuid] unfolding x86_frames_def by blast
next
  case (13 s f) then show ?case using buddy_frames.ref_count_eq [of cpuid] unfolding x86_frames_def by blast
next
  case (14 s f)
  then have "f * PAGE_SIZE < 2 ^ 52" by (auto simp: x86_frames_def PAGE_SIZE_def PAGE_SHIFT_def)
  then show ?case using frame_of_block(1) by (simp add: x86_addressable_def)
qed

section \<open>Pages\<close>

text \<open>The number of the page of a level that an address lies in, of its 48 translated bits.\<close>

definition x86_page :: "nat \<Rightarrow> usize \<Rightarrow> nat" where
  "x86_page l v = drop_bit (LEVEL_SHIFTS ! l) (take_bit 48 v)"

lemma x86_index_bits:
  "x86_index_of v l = x86_index_of w l \<longleftrightarrow> (\<forall>n < 9. bit v (LEVEL_SHIFTS ! l + n) = bit w (LEVEL_SHIFTS ! l + n))"
proof -
  have "drop_bit k v AND 0x1ff = take_bit 9 (drop_bit k v)" for k v :: nat
    using take_bit_eq_mask [of 9 "drop_bit k v"] by (simp add: mask_eq_exp_minus_1)
  then show ?thesis
    by (auto simp: x86_index_of_def bit_eq_iff [of "take_bit 9 (drop_bit (LEVEL_SHIFTS ! l) v)"] bit_take_bit_iff bit_drop_bit_eq)
qed

lemma same_path_page:
  assumes "l < 4"
  shows "same_path x86_64 v w l \<longleftrightarrow> x86_page l w = x86_page l v"
proof -
  let ?s = "\<lambda>j. LEVEL_SHIFTS ! j"
  have s: "?s j = 39 - 9 * j" if "j < 4" for j
    using that by (auto simp: LEVEL_SHIFTS_def less_Suc_eq numeral_eq_Suc)
  have "x86_page l w = x86_page l v \<longleftrightarrow> (\<forall>n. ?s l + n < 48 \<longrightarrow> bit w (?s l + n) = bit v (?s l + n))"
    unfolding x86_page_def bit_eq_iff [of "drop_bit (?s l) (take_bit 48 w)"] by (auto simp: bit_take_bit_iff bit_drop_bit_eq)
  also have "\<dots> \<longleftrightarrow> (\<forall>j \<le> l. \<forall>n < 9. bit w (?s j + n) = bit v (?s j + n))"
  proof (rule iffI; intro allI impI)
    fix j n :: nat assume a: "\<forall>n. ?s l + n < 48 \<longrightarrow> bit w (?s l + n) = bit v (?s l + n)" "j \<le> l" "n < 9"
    then have "?s j + n = ?s l + (?s j + n - ?s l)" "?s j + n < 48" using s [of j] s [of l] assms by auto
    then show "bit w (?s j + n) = bit v (?s j + n)" using a(1) by metis
  next
    fix n assume a: "\<forall>j \<le> l. \<forall>n < 9. bit w (?s j + n) = bit v (?s j + n)" "?s l + n < 48"
    let ?j = "l - n div 9"
    have le: "n div 9 \<le> l" using a(2) s [OF assms] assms by simp
    have "?s ?j = ?s l + 9 * (n div 9)" using s [of ?j] s [OF assms] le assms by simp
    then have "?s l + n = ?s ?j + n mod 9" by simp
    then show "bit w (?s l + n) = bit v (?s l + n)" using a(1) by (metis diff_le_self mod_less_divisor zero_less_numeral)
  qed
  finally show ?thesis by (simp add: same_path_def x86_64_def x86_index_bits)
qed

end
