(* ===== verification/Paging_Properties.thy ===== *)
theory Paging_Properties
  imports Paging_X86 Buddy_Properties
begin

text \<open>
  What the mapper guarantees for x86-64 page tables over the buddy allocator, in terms of the
  translation the processor performs: an operation changes the translation of exactly the
  page it is asked for, a failed one of none, and the tables stay a tree outside free memory.
\<close>

definition x86_space :: "usize \<Rightarrow> buddy mm \<Rightarrow> phys_frame \<Rightarrow> bool" where
  "x86_space cpuid st root \<longleftrightarrow> x86_frames cpuid (frames st) \<and>
     space_ok x86_64 (free_frames usable allocated (frames st)) (cells st) root"

lemma x86_healthy: "x86_buddy.healthy cpuid {} st root \<longleftrightarrow> x86_space cpuid st root"
  by (simp add: x86_buddy.healthy_def x86_space_def)

lemma x86_fields:
  "leaf_level x86_64 = x86_leaf_level" "page_size x86_64 = x86_page_size" "make_leaf x86_64 = x86_make_leaf"
  "entry_frame x86_64 = x86_entry_frame" "LEVELS x86_64 = 4" "ENTRY_COUNT x86_64 = 512"
  "index_of x86_64 = x86_index_of" "is_present x86_64 = x86_is_present" "is_leaf x86_64 = x86_is_leaf"
  "make_table x86_64 = x86_make_table"
  by (simp_all add: x86_64_def)

lemma x86_leaf_bound: "x86_leaf_level sz = Some l \<Longrightarrow> l < 4"
  by (cases sz) (auto simp: x86_leaf_level_def)

lemma x86_level_size:
  assumes "k \<in> {1, 2, 3}"
  obtains sz where "map_size_for_level x86_64 k = Ok sz" "ceil_log2 (frame_count_for_size sz) = 27 - 9 * k"
proof -
  have log: "ceil_log2 1 = 0" "ceil_log2 512 = 9" "ceil_log2 262144 = 18" by code_simp+
  have "k = 1 \<or> k = 2 \<or> k = 3" using assms by auto
  then show ?thesis
    using that [of Size1GiB] that [of Size2MiB] that [of Size4KiB] log
    by (auto simp: map_size_for_level_def x86_fields x86_page_size_def PAGE_SIZES_def frame_count_for_size_def
        PAGE_SIZE_def PAGE_SHIFT_def)
qed

section \<open>A small address space\<close>

text \<open>An empty root table outside the memory of the small machine, and one page to map.\<close>

definition sample_root :: phys_frame where
  "sample_root = \<lparr>start_address = 0x100000\<rparr>"

definition sample_page :: phys_frame where
  "sample_page = \<lparr>start_address = 0x40000000\<rparr>"

definition sample_mm :: "buddy \<Rightarrow> buddy mm" where
  "sample_mm s = \<lparr>cells = (\<lambda>_. 0), frames = s, cr3 = sample_root, flushed = []\<rparr>"

definition sample_page_frames :: "usize set" where
  "sample_page_frames = {0x40000 ..< 0x80000}"

lemma sample_healthy:
  assumes "buddy_ready 0 s" "usable s = {1 ..< 5}"
  shows "x86_buddy.healthy 0 sample_page_frames (sample_mm s) sample_root"
proof -
  have "tables x86_64 (\<lambda>_. 0) 4 0 sample_root = [sample_root]"
    using x86.empty_table(1) [of "\<lambda>_. 0" sample_root 0 3] x86.zero_absent by (simp add: x86_fields del: tables.simps)
  then have "space_tables x86_64 (\<lambda>_. 0) sample_root = [sample_root]" by (simp add: space_tables_def x86_fields)
  moreover have "sample_page_frames \<inter> (usable s - taken (allocated s)) = {}"
    using assms(2) by (auto simp: sample_page_frames_def)
  ultimately show ?thesis
    using assms by (simp add: x86_buddy.healthy_def sample_mm_def x86_frames_def space_ok_def free_frames_def sample_root_def
        sample_page_frames_def aligned_frame_def frame_index_def drop_bit_eq_div PAGE_SIZE_def PAGE_SHIFT_def)
qed

lemma sample_page_ok:
  "x86_addressable sample_page" "frame_index sample_page = 0x40000"
  "x86_entry_frame (x86_make_leaf sample_page 1 flags) = sample_page"
proof -
  show i: "frame_index sample_page = 0x40000"
    by (simp add: sample_page_def frame_index_def drop_bit_eq_div PAGE_SHIFT_def)
  then show a: "x86_addressable sample_page"
    by (simp add: x86_addressable_def aligned_frame_def) (simp add: sample_page_def PAGE_SIZE_def PAGE_SHIFT_def)
  show "x86_entry_frame (x86_make_leaf sample_page 1 flags) = sample_page"
    using x86.leaf_frame [where f = sample_page and l = 1 and b = "0x40000000" and fl = flags] a
    by (simp add: x86_fields x86_page_size_def PAGE_SIZES_def is_aligned_def sample_page_def)
qed

lemma sample_mapped:
  obtains s st where "x86_space 0 (sample_mm s) sample_root" "x86_buddy.healthy 0 sample_page_frames (sample_mm s) sample_root"
    "x86_buddy.healthy 0 sample_page_frames st sample_root"
    "map_page x86_64 (buddy_alloc 0 False) sample_root 0 sample_page Size1GiB WRITE (sample_mm s) = Some (Ok (), st)"
    "x86_space 0 st sample_root" "cr3 st = sample_root"
    "translate x86_64 (cells st) sample_root 4096 = Some (1, x86_make_leaf sample_page 1 WRITE)"
proof -
  obtain s s' where s: "buddy_ready 0 s" "usable s = {1 ..< 5}"
    "buddy_alloc 0 False s 1 = Some (Ok \<lparr>start_address = 12288\<rparr>, s')"
    by (rule sample_run)
  note h = sample_healthy [OF s(1,2)]
  have h0: "x86_buddy.healthy 0 {} st root" if "x86_buddy.healthy 0 sample_page_frames st root" for st root
    using x86_buddy.healthy_mono [OF that] by simp
  have ok: "\<exists>st. map_page x86_64 (buddy_alloc 0 False) sample_root 0 sample_page Size1GiB WRITE (sample_mm s) = Some (Ok (), st)"
    using s(3)
    by (simp add: map_page_def x86_fields x86_leaf_level_def x86_page_size_def PAGE_SIZES_def is_aligned_def sample_page_def
        sample_mm_def read_entry_def write_entry_def zero_page_def zero_cells_def table_entry_def sample_root_def
        x86_index_of_def present_bit Let_def upt_conv_Cons PAGE_SIZE_def PAGE_SHIFT_def)
  have p: "same_path x86_64 0 4096 1"
    by (simp add: same_path_page x86_page_def LEVEL_SHIFTS_def take_bit_eq_mod drop_bit_eq_div)
  show ?thesis
  proof (rule x86_buddy.map_page_spec [OF h, of False 0 sample_page Size1GiB WRITE])
    fix l st assume m: "map_page x86_64 (buddy_alloc 0 False) sample_root 0 sample_page Size1GiB WRITE (sample_mm s) = Some (Ok (), st)"
      "x86_buddy.healthy 0 sample_page_frames st sample_root" "leaf_level x86_64 Size1GiB = Some l" "cr3 st = cr3 (sample_mm s)"
      "\<And>w. translate x86_64 (cells st) sample_root w = (if same_path x86_64 0 w l then Some (l, make_leaf x86_64 sample_page l WRITE)
        else translate x86_64 (cells (sample_mm s)) sample_root w)"
    have "l = 1" using m(3) by (simp add: x86_fields x86_leaf_level_def)
    then show ?thesis
      using that [OF _ h m(2,1)] h0 [OF h] h0 [OF m(2)] m(4,5) p by (simp add: x86_healthy x86_fields sample_mm_def)
  qed (use ok in auto)
qed

section \<open>Properties\<close>

text \<open>
  C10: Mapping a page always returns and keeps the address space healthy. On success the page of
  the requested size that the address lies in now translates to the given frame with the given
  flags, it was not mapped before, and every other address translates as before; on failure
  every address translates as before, whatever intermediate tables were created.
\<close>

theorem map_page_translates:
  assumes "x86_space cpuid st root"
  shows "\<exists>r st'. map_page x86_64 (buddy_alloc cpuid recovered) root virt frame sz flags st = Some (r, st') \<and>
    x86_space cpuid st' root \<and>
    (case r of
       Ok _ \<Rightarrow> (\<exists>l. x86_leaf_level sz = Some l \<and> (\<forall>w.
           if x86_page l w = x86_page l virt
           then translate x86_64 (cells st) root w = None \<and>
             translate x86_64 (cells st') root w = Some (l, x86_make_leaf frame l flags)
           else translate x86_64 (cells st') root w = translate x86_64 (cells st) root w))
     | Err _ \<Rightarrow> (\<forall>w. translate x86_64 (cells st') root w = translate x86_64 (cells st) root w))"
  using assms [folded x86_healthy]
proof (rule x86_buddy.map_page_spec [where recovered = recovered and virt = virt and frame = frame and sz = sz and flags = flags])
  fix l b st' assume m: "map_page x86_64 (buddy_alloc cpuid recovered) root virt frame sz flags st = Some (Ok (), st')"
    "x86_buddy.healthy cpuid {} st' root" "leaf_level x86_64 sz = Some l" "\<And>w. same_path x86_64 virt w l \<Longrightarrow> translate x86_64 (cells st) root w = None"
    "\<And>w. translate x86_64 (cells st') root w = (if same_path x86_64 virt w l then Some (l, make_leaf x86_64 frame l flags)
      else translate x86_64 (cells st) root w)"
  have "l < 4" using m(3) x86_leaf_bound by (simp add: x86_fields)
  then show ?thesis using m by (simp add: x86_healthy x86_fields same_path_page)
next
  fix e st' assume "map_page x86_64 (buddy_alloc cpuid recovered) root virt frame sz flags st = Some (Err e, st')"
    "x86_buddy.kept cpuid {} st st' root"
  then show ?thesis by (simp add: x86_buddy.kept_def x86_healthy)
qed

theorem map_page_translates_witness:
  "\<exists>s st. map_page x86_64 (buddy_alloc 0 False) sample_root 0 sample_page Size1GiB WRITE (sample_mm s) = Some (Ok (), st) \<and>
    translate x86_64 (cells st) sample_root 4096 = Some (1, x86_make_leaf sample_page 1 WRITE)"
proof -
  obtain s st where s: "x86_space 0 (sample_mm s) sample_root"
    "map_page x86_64 (buddy_alloc 0 False) sample_root 0 sample_page Size1GiB WRITE (sample_mm s) = Some (Ok (), st)"
    by (rule sample_mapped)
  have "x86_page 1 4096 = x86_page 1 0" "x86_leaf_level Size1GiB = Some 1"
    by (simp_all add: x86_page_def LEVEL_SHIFTS_def take_bit_eq_mod drop_bit_eq_div x86_leaf_level_def)
  then have "translate x86_64 (cells st) sample_root 4096 = Some (1, x86_make_leaf sample_page 1 WRITE)"
    using map_page_translates [OF s(1), of False 0 sample_page Size1GiB WRITE] s(2) by auto
  then show ?thesis using s(2) by blast
qed

text \<open>
  C11: Unmapping an address that is not mapped fails and changes nothing. Unmapping a mapped
  page whose frames hold none of the space's own tables returns, removes exactly that page from
  the translation, flushes it when the space is active, and reports the frame the page had;
  when the frame is given back the allocator's count of its references was one more than the
  count reported.
\<close>

theorem unmap_translates:
  assumes "x86_space cpuid st root"
  shows "case translate x86_64 (cells st) root virt of
      None \<Rightarrow> unmap_inner x86_64 (buddy_release cpuid) root virt release_frame st = Some (Err NotMapped, st)
    | Some (k, e) \<Rightarrow> k \<in> {1, 2, 3} \<and>
        (\<forall>t \<in> set (space_tables x86_64 (cells st) root).
          \<not> (frame_index (x86_entry_frame e) \<le> frame_index t \<and> frame_index t < frame_index (x86_entry_frame e) + 2 ^ (27 - 9 * k))) \<longrightarrow>
        (\<exists>r st'. unmap_inner x86_64 (buddy_release cpuid) root virt release_frame st = Some (r, st') \<and> x86_space cpuid st' root \<and>
          (\<forall>w. translate x86_64 (cells st') root w =
            (if x86_page k w = x86_page k virt then None else translate x86_64 (cells st) root w)) \<and>
          (root = cr3 st \<longrightarrow> virt \<in> set (flushed st')) \<and>
          (case r of
             Ok u \<Rightarrow> ur_frame u = x86_entry_frame e \<and> (release_frame \<longrightarrow>
               allocated (frames st) (frame_index (x86_entry_frame e)) = Some (27 - 9 * k, remaining_refs u + 1))
           | Err x \<Rightarrow> \<exists>y. x = Frame y))"
proof -
  note h = assms [folded x86_healthy]
  have lv: "unmap_inner x86_64 (buddy_release cpuid) root virt release_frame st =
      unmap_levels x86_64 (buddy_release cpuid) root virt release_frame [0..<4] root (replicate MAX_PAGE_TABLE_LEVELS None) st"
    by (simp add: unmap_inner_def MAX_PAGE_TABLE_LEVELS_def x86_fields)
  note spec = x86_buddy.unmap_levels_spec [OF h, of virt 0 root "replicate MAX_PAGE_TABLE_LEVELS None" release_frame]
  show ?thesis
  proof (cases "translate x86_64 (cells st) root virt")
    case None
    then show ?thesis using spec by (simp add: lv x86_fields)
  next
    case (Some p)
    obtain k e where p: "p = (k, e)" by force
    let ?m = "unmap_inner x86_64 (buddy_release cpuid) root virt release_frame st"
    have "\<exists>r st'. ?m = Some (r, st') \<and> x86_space cpuid st' root \<and>
        (\<forall>w. translate x86_64 (cells st') root w = (if x86_page k w = x86_page k virt then None else translate x86_64 (cells st) root w)) \<and>
        (root = cr3 st \<longrightarrow> virt \<in> set (flushed st')) \<and>
        (case r of
           Ok u \<Rightarrow> ur_frame u = x86_entry_frame e \<and> (release_frame \<longrightarrow>
             allocated (frames st) (frame_index (x86_entry_frame e)) = Some (27 - 9 * k, remaining_refs u + 1))
         | Err x \<Rightarrow> \<exists>y. x = Frame y)"
      if k: "k \<in> {1, 2, 3}" and apart: "\<forall>t \<in> set (space_tables x86_64 (cells st) root).
          \<not> (frame_index (x86_entry_frame e) \<le> frame_index t \<and> frame_index t < frame_index (x86_entry_frame e) + 2 ^ (27 - 9 * k))"
    proof -
      obtain sz where sz: "map_size_for_level x86_64 k = Ok sz" "ceil_log2 (frame_count_for_size sz) = 27 - 9 * k"
        by (rule x86_level_size [OF k])
      have "k < 4" using k by auto
      moreover have "x86_buddy.unmapped cpuid {} st root virt release_frame k e sz ?m"
        using spec apart sz by (simp add: Some p lv x86_buddy.may_release_def x86_buddy.table_free_def x86_fields)
      then obtain r st' where "?m = Some (r, st')" "x86_buddy.healthy cpuid {} st' root"
        "\<forall>w. translate x86_64 (cells st') root w = (if same_path x86_64 virt w k then None else translate x86_64 (cells st) root w)"
        "flushed st' = (if root = cr3 st then virt # flushed st else flushed st)"
        "case r of Ok u \<Rightarrow> ur_frame u = x86_entry_frame e \<and> ur_size u = sz \<and> (release_frame \<longrightarrow>
             allocated (frames st) (frame_index (x86_entry_frame e)) = Some (27 - 9 * k, remaining_refs u + 1))
         | Err x \<Rightarrow> \<exists>y. x = Frame y"
        unfolding x86_buddy.unmapped_def x86_fields sz(2) by blast
      ultimately show ?thesis by (cases r) (simp_all add: x86_healthy same_path_page)
    qed
    then show ?thesis by (simp add: Some p)
  qed
qed

theorem unmap_translates_witness:
  "\<exists>st st'. translate x86_64 (cells st) sample_root 4096 = Some (1, x86_make_leaf sample_page 1 WRITE) \<and>
    unmap_inner x86_64 (buddy_release 0) sample_root 4096 False st = Some st' \<and>
    translate x86_64 (cells (snd st')) sample_root 4096 = None"
proof -
  obtain st where st: "x86_space 0 st sample_root" "x86_buddy.healthy 0 sample_page_frames st sample_root"
    "translate x86_64 (cells st) sample_root 4096 = Some (1, x86_make_leaf sample_page 1 WRITE)"
    by (rule sample_mapped)
  have "x86_entry_frame (x86_make_leaf sample_page 1 WRITE) = sample_page" "frame_index sample_page = 0x40000"
    using sample_page_ok by simp_all
  moreover have "\<forall>t \<in> set (space_tables x86_64 (cells st) sample_root). \<not> (0x40000 \<le> frame_index t \<and> frame_index t < 0x80000)"
    using st(2) by (auto simp: x86_buddy.healthy_def space_ok_def sample_page_frames_def)
  ultimately show ?thesis
    using unmap_translates [OF st(1), of 4096 False] st(3) by fastforce
qed

text \<open>
  C12: Changing the flags of an unmapped address fails and changes nothing; changing them for a
  mapped page keeps the frame, replaces the flags of exactly that page, and flushes it when the
  space is active.
\<close>

theorem protect_translates:
  assumes "x86_space cpuid st root"
  shows "case translate x86_64 (cells st) root virt of
      None \<Rightarrow> protect x86_64 root virt flags st = Some (Err NotMapped, st)
    | Some (k, e) \<Rightarrow> k \<in> {1, 2, 3} \<longrightarrow>
        (\<exists>st'. protect x86_64 root virt flags st = Some (Ok (), st') \<and> x86_space cpuid st' root \<and>
          (\<forall>w. translate x86_64 (cells st') root w =
            (if x86_page k w = x86_page k virt then Some (k, x86_make_leaf (x86_entry_frame e) k flags)
             else translate x86_64 (cells st) root w)) \<and>
          (root = cr3 st \<longrightarrow> virt \<in> set (flushed st')))"
proof -
  note spec = x86_buddy.protect_levels_spec [OF assms [folded x86_healthy], of virt 0 root flags]
  have eq: "protect x86_64 root virt flags st = protect_levels x86_64 root virt flags [0..<4] root st"
    by (simp add: protect_def x86_fields)
  show ?thesis
  proof (cases "translate x86_64 (cells st) root virt")
    case None
    then show ?thesis using spec by (simp add: eq x86_fields)
  next
    case (Some p)
    obtain k e where p: "p = (k, e)" by force
    have "\<exists>st'. protect x86_64 root virt flags st = Some (Ok (), st') \<and> x86_space cpuid st' root \<and>
        (\<forall>w. translate x86_64 (cells st') root w =
          (if x86_page k w = x86_page k virt then Some (k, x86_make_leaf (x86_entry_frame e) k flags)
           else translate x86_64 (cells st) root w)) \<and>
        (root = cr3 st \<longrightarrow> virt \<in> set (flushed st'))" if k: "k \<in> {1, 2, 3}"
    proof -
      have "k < 4" "page_size x86_64 k \<noteq> None" using k by (auto simp: x86_fields x86_page_size_def PAGE_SIZES_def)
      then show ?thesis using spec by (auto simp: eq Some p x86_fields x86_healthy same_path_page)
    qed
    then show ?thesis unfolding Some p option.case prod.case by blast
  qed
qed

theorem protect_translates_witness:
  "\<exists>(st :: buddy mm) st'. translate x86_64 (cells st) sample_root 4096 = Some (1, x86_make_leaf sample_page 1 WRITE) \<and>
    protect x86_64 sample_root 4096 READ st = Some (Ok (), st') \<and>
    translate x86_64 (cells st') sample_root 4096 = Some (1, x86_make_leaf sample_page 1 READ)"
proof -
  obtain st where st: "x86_space 0 st sample_root"
    "translate x86_64 (cells st) sample_root 4096 = Some (1, x86_make_leaf sample_page 1 WRITE)"
    by (rule sample_mapped)
  then obtain st' where "protect x86_64 sample_root 4096 READ st = Some (Ok (), st')"
    "translate x86_64 (cells st') sample_root 4096 = Some (1, x86_make_leaf sample_page 1 READ)"
    using protect_translates [OF st(1), of 4096 READ] sample_page_ok(3) [of WRITE] by auto
  then show ?thesis using st(2) by blast
qed

text \<open>
  A leaf entry carries what was asked for: it is present, it is a leaf at the three levels
  that have pages, it refers to the frame, and its writable, user, global, cache and execute
  bits are the flags.
\<close>

theorem leaf_entry_roundtrip:
  assumes "x86_addressable frame"
  shows "x86_entry_frame (x86_make_leaf frame l flags) = frame \<and> x86_is_present (x86_make_leaf frame l flags) \<and>
    (x86_is_leaf (x86_make_leaf frame l flags) l \<longleftrightarrow> l \<in> {1, 2, 3}) \<and>
    (bit (x86_make_leaf frame l flags) 1 \<longleftrightarrow> contains flags WRITE) \<and>
    (bit (x86_make_leaf frame l flags) 2 \<longleftrightarrow> contains flags USER) \<and>
    (bit (x86_make_leaf frame l flags) 4 \<longleftrightarrow> contains flags NO_CACHE) \<and>
    (bit (x86_make_leaf frame l flags) 8 \<longleftrightarrow> contains flags GLOBAL) \<and>
    (bit (x86_make_leaf frame l flags) 63 \<longleftrightarrow> \<not> contains flags EXECUTE)"
proof -
  have low: "\<not> bit (of_nat (start_address frame) :: entry) n" if "n < 12 \<or> 52 \<le> n" for n
    using bit_frame [OF assms, of n] that by auto
  have "x86_entry_frame (x86_make_leaf frame l flags) = frame"
    using assms by (auto simp: bit_make_leaf intro!: entry_frame_of)
  then show ?thesis using low by (auto simp: present_bit x86_is_leaf_def huge_bit bit_make_leaf)
qed

theorem leaf_entry_roundtrip_witness:
  "x86_entry_frame (x86_make_leaf sample_page 1 WRITE) = sample_page \<and> \<not> bit (x86_make_leaf sample_page 1 WRITE) 2"
  using leaf_entry_roundtrip [OF sample_page_ok(1), of 1 WRITE] by (simp add: contains_def WRITE_def USER_def)

text \<open>
  C13: Mapping a page and unmapping it again, without giving the frame back, restores the
  translation of every address, provided the frame belongs to the caller: it is not free and
  holds no table of the space.
\<close>

theorem map_unmap_inverse:
  assumes "x86_space cpuid st root" "x86_addressable frame" "x86_leaf_level sz = Some l"
    and "{frame_index frame ..< frame_index frame + 2 ^ (27 - 9 * l)} \<inter> free_frames usable allocated (frames st) = {}"
    and "\<forall>t \<in> set (space_tables x86_64 (cells st) root). frame_index t \<notin> {frame_index frame ..< frame_index frame + 2 ^ (27 - 9 * l)}"
    and "map_page x86_64 (buddy_alloc cpuid recovered) root virt frame sz flags st = Some (Ok (), st1)"
  shows "\<exists>r st2. unmap_preserve x86_64 (buddy_release cpuid) root virt st1 = Some (r, st2) \<and> x86_space cpuid st2 root \<and>
    (\<forall>w. translate x86_64 (cells st2) root w = translate x86_64 (cells st) root w)"
proof -
  let ?R = "{frame_index frame ..< frame_index frame + 2 ^ (27 - 9 * l)}"
  have h: "x86_buddy.healthy cpuid ?R st root"
    using assms(1,4,5) by (auto simp: x86_space_def x86_buddy.healthy_def space_ok_def)
  have l: "l \<in> {1, 2, 3}" using assms(3) by (cases sz) (auto simp: x86_leaf_level_def)
  obtain sz' where sz: "map_size_for_level x86_64 l = Ok sz'" by (rule x86_level_size [OF l])
  have path: "same_path x86_64 virt virt l" by (simp add: same_path_def)
  show ?thesis
  proof (rule x86_buddy.map_page_spec [OF h, of recovered virt frame sz flags])
    fix k b st' assume m: "map_page x86_64 (buddy_alloc cpuid recovered) root virt frame sz flags st = Some (Ok (), st')"
      "x86_buddy.healthy cpuid ?R st' root" "leaf_level x86_64 sz = Some k"
      "\<And>w. same_path x86_64 virt w k \<Longrightarrow> translate x86_64 (cells st) root w = None"
      "\<And>w. translate x86_64 (cells st') root w = (if same_path x86_64 virt w k then Some (k, make_leaf x86_64 frame k flags)
        else translate x86_64 (cells st) root w)"
    have eq: "k = l" "st' = st1" using m(1,3) assms(3,6) by (simp_all add: x86_fields)
    have h1: "x86_buddy.healthy cpuid {} st1 root" using x86_buddy.healthy_mono m(2) eq by blast
    have "x86_buddy.unmapped cpuid {} st1 root virt False l (make_leaf x86_64 frame l flags) sz'
        (unmap_levels x86_64 (buddy_release cpuid) root virt False [0..<LEVELS x86_64] root (replicate MAX_PAGE_TABLE_LEVELS None) st1)"
      using x86_buddy.unmap_levels_spec [OF h1, of virt 0 root "replicate MAX_PAGE_TABLE_LEVELS None" False] m(5) [of virt] path sz eq
      by simp
    then obtain r st2 where "unmap_preserve x86_64 (buddy_release cpuid) root virt st1 = Some (r, st2)"
      "x86_buddy.healthy cpuid {} st2 root"
      "\<forall>w. translate x86_64 (cells st2) root w = (if same_path x86_64 virt w l then None else translate x86_64 (cells st1) root w)"
      by (auto simp: x86_buddy.unmapped_def unmap_preserve_def unmap_inner_def MAX_PAGE_TABLE_LEVELS_def x86_fields)
    then show ?thesis using m(4,5) eq by (auto simp: x86_healthy)
  qed (use assms(6) in simp)
qed

theorem map_unmap_inverse_witness:
  "\<exists>s st1 st2. map_page x86_64 (buddy_alloc 0 False) sample_root 0 sample_page Size1GiB WRITE (sample_mm s) = Some (Ok (), st1) \<and>
    unmap_preserve x86_64 (buddy_release 0) sample_root 0 st1 = Some st2 \<and>
    translate x86_64 (cells (snd st2)) sample_root 4096 = translate x86_64 (cells (sample_mm s)) sample_root 4096"
proof -
  obtain s st where s: "x86_space 0 (sample_mm s) sample_root" "x86_buddy.healthy 0 sample_page_frames (sample_mm s) sample_root"
    "map_page x86_64 (buddy_alloc 0 False) sample_root 0 sample_page Size1GiB WRITE (sample_mm s) = Some (Ok (), st)"
    by (rule sample_mapped)
  have B: "{frame_index sample_page ..< frame_index sample_page + 2 ^ (27 - 9 * 1)} = sample_page_frames"
    using sample_page_ok(2) by (simp add: sample_page_frames_def)
  have l: "x86_leaf_level Size1GiB = Some 1" by (simp add: x86_leaf_level_def)
  obtain r st2 where "unmap_preserve x86_64 (buddy_release 0) sample_root 0 st = Some (r, st2)"
    "\<forall>w. translate x86_64 (cells st2) sample_root w = translate x86_64 (cells (sample_mm s)) sample_root w"
    using map_unmap_inverse [OF s(1) sample_page_ok(1) l, unfolded B, OF _ _ s(3)] s(2)
    by (auto simp: x86_buddy.healthy_def space_ok_def)
  then show ?thesis using s(3) by (metis snd_conv)
qed



section \<open>The root table of a process\<close>

lemma copy_entries_fields [simp]:
  "frames (copy_entries is current root st) = frames st" "cr3 (copy_entries is current root st) = cr3 st"
  by (induction "is" arbitrary: st) (simp_all add: write_entry_def)

lemma copy_entries_other:
  "p \<notin> table_entry root ` set is \<Longrightarrow> cells (copy_entries is current root st) p = cells st p"
  by (induction "is" arbitrary: st) (auto simp: write_entry_def)

lemma copy_entries_copied:
  assumes "i \<in> set is" "\<And>i j. i \<in> set is \<Longrightarrow> j \<in> set is \<Longrightarrow> table_entry root i \<noteq> table_entry current j"
  shows "cells (copy_entries is current root st) (table_entry root i) = cells st (table_entry current i)"
  using assms
proof (induction "is" arbitrary: st)
  case (Cons k ks)
  have cur: "table_entry root k \<noteq> table_entry current j" if "j \<in> set (k # ks)" for j using Cons.prems(2) that by auto
  show ?case
  proof (cases "i \<in> set ks")
    case True
    then show ?thesis
      using Cons.IH [OF True] Cons.prems(2) cur [of i, THEN not_sym] by (simp add: write_entry_def read_entry_def)
  next
    case False
    then have "i = k" using Cons.prems(1) by simp
    moreover have "table_entry root i \<notin> table_entry root ` set ks" using False by (auto simp: table_entry_def)
    ultimately show ?thesis by (simp add: copy_entries_other write_entry_def read_entry_def)
  qed
qed simp

lemma upper_half: "256 \<le> x86_index_of w 0 \<longleftrightarrow> bit w 47"
proof -
  have "drop_bit 39 w AND 0x1ff = drop_bit 39 w mod 512"
    using take_bit_eq_mask [of 9 "drop_bit 39 w"] by (simp add: mask_eq_exp_minus_1 take_bit_eq_mod)
  then have "256 \<le> x86_index_of w 0 \<longleftrightarrow> 256 \<le> w div 549755813888 mod 512"
    by (simp add: x86_index_of_def LEVEL_SHIFTS_def drop_bit_eq_div)
  moreover have "bit w 47 \<longleftrightarrow> odd (w div 549755813888 div 256)" by (simp add: bit_iff_odd div_mult2_eq [symmetric])
  moreover have "256 \<le> q mod 512 \<longleftrightarrow> odd (q div 256)" for q :: nat
  proof -
    have "q mod 512 = 256 * (q div 256 mod 2) + q mod 256" using mod_mult2_eq [of q 256 2] by simp
    moreover have "q mod 256 < 256" by simp
    ultimately show ?thesis by (cases "even (q div 256)") (simp_all add: odd_iff_mod_2_eq_one)
  qed
  ultimately show ?thesis by simp
qed

text \<open>
  C15: Creating the root table of a process always returns and leaves the current address space
  as it was. The new space shares the upper half of the current one, where the kernel lives, and
  translates no address of the lower half.
\<close>

theorem new_user_root_shares_kernel:
  assumes "x86_space cpuid st (cr3 st)"
  shows "\<exists>r st'. new_user_root (buddy_alloc cpuid recovered) st = Some (r, st') \<and> x86_space cpuid st' (cr3 st) \<and>
    (\<forall>w. translate x86_64 (cells st') (cr3 st) w = translate x86_64 (cells st) (cr3 st) w) \<and>
    (case r of
       Ok root \<Rightarrow> root \<noteq> cr3 st \<and> (\<forall>w. translate x86_64 (cells st') root w =
         (if bit w 47 then translate x86_64 (cells st) (cr3 st) w else None))
     | Err _ \<Rightarrow> True)"
proof -
  let ?T = "set (space_tables x86_64 (cells st) (cr3 st))"
  have inv: "x86_frames cpuid (frames st)" "space_ok x86_64 (free_frames usable allocated (frames st)) (cells st) (cr3 st)"
    using assms by (simp_all add: x86_space_def)
  show ?thesis
  proof (rule x86_buddy.alloc_one [OF inv(1), of recovered])
    fix e s' assume "buddy_alloc cpuid recovered (frames st) 1 = Some (Err e, s')" "x86_frames cpuid s'"
      "free_frames usable allocated s' = free_frames usable allocated (frames st)"
    then show ?thesis using inv(2) by (simp add: new_user_root_def new_root_def x86_space_def)
  next
    fix f s' assume a: "buddy_alloc cpuid recovered (frames st) 1 = Some (Ok f, s')" "x86_frames cpuid s'" "x86_addressable f"
      "frame_index f \<in> free_frames usable allocated (frames st)"
      "free_frames usable allocated s' \<subseteq> free_frames usable allocated (frames st) - {frame_index f}"
    let ?st = "copy_kernel_pml4_half f (zero_page (st\<lparr>frames := s'\<rparr>) f)"
    have cur: "cr3 st \<in> ?T"
      using x86.descend_in [of "cells st" 0 "cr3 st" 0 0 "cr3 st" 4] by (simp add: space_tables_def x86_fields)
    have al: "aligned_frame t" "t \<noteq> f" if "t \<in> ?T" for t using inv(2) a(4) that by (auto simp: space_ok_def)
    have fal: "aligned_frame f" using a(3) by (simp add: x86_addressable_def)
    have apart: "\<not> (start_address f \<le> table_entry t i \<and> table_entry t i < start_address f + PAGE_SIZE)"
      if "t \<in> ?T" "i < 512" for t i
      using x86.page_apart [of t f i] al [OF that(1)] fal that(2) by (simp add: x86_fields)
    have inside: "start_address f \<le> table_entry f i \<and> table_entry f i < start_address f + PAGE_SIZE" if "i < 512" for i
      using that by (simp add: table_entry_def PAGE_SIZE_def PAGE_SHIFT_def)
    have st0: "cells ?st p = cells (copy_entries [256..<512] (cr3 st) f (zero_page (st\<lparr>frames := s'\<rparr>) f)) p" for p
      unfolding copy_kernel_pml4_half_def by (simp add: zero_page_def del: upt_rec_numeral)
    have zero: "cells (zero_page (st\<lparr>frames := s'\<rparr>) f) p =
        (if start_address f \<le> p \<and> p < start_address f + PAGE_SIZE then 0 else cells st p)" for p
      by (simp add: zero_page_def zero_cells_def)
    have same: "cells ?st (table_entry t i) = cells st (table_entry t i)" if "t \<in> ?T" "i < 512" for t i
    proof -
      have out: "table_entry t i \<notin> table_entry f ` set [256..<512]" using apart [OF that] inside unfolding set_upt by force
      show ?thesis unfolding st0 copy_entries_other [OF out] zero using apart [OF that] by auto
    qed
    have low: "cells ?st (table_entry f i) = 0" if "i < 256" for i
    proof -
      have out: "table_entry f i \<notin> table_entry f ` set [256..<512]" using that unfolding set_upt by (auto simp: table_entry_def)
      show ?thesis unfolding st0 copy_entries_other [OF out] zero using inside [of i] that by auto
    qed
    have high: "cells ?st (table_entry f i) = cells st (table_entry (cr3 st) i)" if "256 \<le> i" "i < 512" for i
    proof -
      have "table_entry f j \<noteq> table_entry (cr3 st) k" if "j < 512" "k < 512" for j k
        using apart [OF cur that(2)] inside [OF that(1)] by auto
      then have "table_entry f j \<noteq> table_entry (cr3 st) k" if "j \<in> set [256..<512]" "k \<in> set [256..<512]" for j k
        using that unfolding set_upt by force
      moreover have "i \<in> set [256..<512]" using that unfolding set_upt by simp
      ultimately have "cells ?st (table_entry f i) = cells (zero_page (st\<lparr>frames := s'\<rparr>) f) (table_entry (cr3 st) i)"
        unfolding st0 by (intro copy_entries_copied)
      then show ?thesis unfolding zero using apart [OF cur that(2)] by auto
    qed
    have cur_same: "space_tables x86_64 (cells ?st) (cr3 st) = space_tables x86_64 (cells st) (cr3 st)"
      "translate x86_64 (cells ?st) (cr3 st) w = translate x86_64 (cells st) (cr3 st) w" for w
      using x86.frame_rule [of 0 4 "cells st" "cr3 st" "cells ?st" w] same
      by (simp_all add: space_tables_def translate_def x86_fields del: tables.simps lookup.simps)
    have space: "x86_space cpuid ?st (cr3 st)"
      using inv(2) a(2,5) cur_same(1) by (auto simp: x86_space_def space_ok_def copy_kernel_pml4_half_def zero_page_def simp del: upt_rec_numeral)
    have top: "translate x86_64 m t w = seek x86_64 m 3 0 (m (table_entry t (x86_index_of w 0))) w" for m t w
      using lookup_seek [of x86_64 m 3 0 t w] by (simp add: translate_def x86_fields)
    moreover have "translate x86_64 (cells ?st) f w = (if bit w 47 then translate x86_64 (cells st) (cr3 st) w else None)" for w
    proof (cases "bit w 47")
      case False
      then have "cells ?st (table_entry f (x86_index_of w 0)) = 0" using low upper_half [of w] by simp
      then show ?thesis using False x86.zero_absent by (simp add: top seek_def)
    next
      case True
      let ?i = "x86_index_of w 0" and ?e = "cells st (table_entry (cr3 st) (x86_index_of w 0))"
      have i: "256 \<le> ?i" "?i < 512" using True upper_half [of w] x86.index_bound [of 0 w] by (simp_all add: x86_fields)
      have "set (below x86_64 (cells st) 3 0 ?e) \<subseteq> ?T"
        using i(2) unfolding space_tables_def x86_fields by (subst tables_below [of _ _ 3, simplified]) (auto simp: x86_fields)
      then have "seek x86_64 (cells ?st) 3 0 ?e w = seek x86_64 (cells st) 3 0 ?e w"
        using x86.below_frame [of 0 3 "cells st" ?e "cells ?st" w] same by (auto simp: x86_fields)
      then show ?thesis using high [OF i] True by (simp add: top)
    qed
    moreover have "new_user_root (buddy_alloc cpuid recovered) st = Some (Ok f, ?st)"
      using a(1) by (simp add: new_user_root_def new_root_def)
    ultimately show ?thesis using space cur_same(2) al(2) [OF cur] by auto
  qed
qed

theorem new_user_root_shares_kernel_witness:
  "\<exists>s root st'. new_user_root (buddy_alloc 0 False) (sample_mm s) = Some (Ok root, st') \<and>
    translate x86_64 (cells st') root 4096 = None"
proof -
  obtain s s' where s: "buddy_ready 0 s" "usable s = {1 ..< 5}"
    "buddy_alloc 0 False s 1 = Some (Ok \<lparr>start_address = 12288\<rparr>, s')"
    by (rule sample_run)
  have "x86_space 0 (sample_mm s) (cr3 (sample_mm s))"
    using sample_healthy [OF s(1,2)] x86_buddy.healthy_mono [of 0 sample_page_frames "sample_mm s" sample_root "{}"]
    by (simp add: x86_healthy sample_mm_def)
  moreover have "\<exists>root st'. new_user_root (buddy_alloc 0 False) (sample_mm s) = Some (Ok root, st')"
    using s(3) by (simp add: new_user_root_def new_root_def sample_mm_def)
  moreover have "\<not> bit (4096 :: nat) 47" by (simp add: bit_iff_odd)
  ultimately show ?thesis using new_user_root_shares_kernel [of 0 "sample_mm s" False] by fastforce
qed

end
