(* ===== verification/Std_Lib.thy ===== *)
theory Std_Lib
  imports Prelude
begin

text \<open>
  What the kernel's libraries take from Rust's \<open>core\<close> and \<open>alloc\<close>: integers as little endian
  bytes (\<open>to_ne_bytes\<close>, \<open>from_ne_bytes\<close> on x86-64), and \<open>BTreeMap\<close> as a list of entries in
  strictly increasing order of the keys.
\<close>

unbundle bit_operations_syntax

section \<open>Integers\<close>

definition saturating_add :: "usize \<Rightarrow> usize \<Rightarrow> usize" where
  "saturating_add a b = min (a + b) (usize_range - 1)"

lemma wadd_less [simp]: "wadd a b < usize_range"
  by (simp add: wadd_def)

lemma unat_of_nat_64: "v < usize_range \<Longrightarrow> unat (of_nat v :: 64 word) = v"
  by (simp add: unsigned_of_nat take_bit_nat_eq_self usize_range_def)

section \<open>Bytes\<close>

type_synonym byte = "8 word"

fun le_bytes :: "nat \<Rightarrow> 'a::len word \<Rightarrow> byte list" where
  "le_bytes 0 w = []"
| "le_bytes (Suc n) w = ucast w # le_bytes n (drop_bit 8 w)"

fun of_le_bytes :: "byte list \<Rightarrow> 'a::len word" where
  "of_le_bytes [] = 0"
| "of_le_bytes (b # bs) = ucast b OR push_bit 8 (of_le_bytes bs)"

lemma length_le_bytes [simp]: "length (le_bytes n w) = n"
  by (induction n arbitrary: w) simp_all

lemma of_le_bytes_le_bytes: "of_le_bytes (le_bytes n w) = take_bit (8 * n) w"
proof (induction n arbitrary: w)
  case (Suc n)
  show ?case
  proof (rule bit_word_eqI)
    fix i assume i: "i < LENGTH('a)"
    have "bit (of_le_bytes (le_bytes n (drop_bit 8 w)) :: 'a word) (i - 8) \<longleftrightarrow> i - 8 < 8 * n \<and> bit w (i - 8 + 8)" if "8 \<le> i"
      using that unfolding Suc.IH by (auto simp: bit_simps add.commute)
    then show "bit (of_le_bytes (le_bytes (Suc n) w) :: 'a word) i \<longleftrightarrow> bit (take_bit (8 * Suc n) w) i"
      using i by (cases "i < 8") (auto simp: bit_simps)
  qed
qed simp

lemma le_bytes_inverse [simp]: "LENGTH('a) \<le> 8 * n \<Longrightarrow> of_le_bytes (le_bytes n w) = (w :: 'a::len word)"
  unfolding of_le_bytes_le_bytes by (rule take_bit_word_eq_self)

text \<open>\<open>bytes.get(offset..offset + n)\<close>.\<close>

definition slice_at :: "'a list \<Rightarrow> nat \<Rightarrow> nat \<Rightarrow> 'a list option" where
  "slice_at xs offset n = (if offset + n \<le> length xs then Some (take n (drop offset xs)) else None)"

lemma slice_at_append: "length ps = offset \<Longrightarrow> length qs = n \<Longrightarrow> slice_at (ps @ qs @ rs) offset n = Some qs"
  by (simp add: slice_at_def)

section \<open>Ordered maps\<close>

type_synonym ('k, 'v) btree = "('k \<times> 'v) list"

definition bt_ok :: "('k::linorder, 'v) btree \<Rightarrow> bool" where
  "bt_ok t \<longleftrightarrow> sorted_wrt (<) (map fst t)"

fun bt_insert :: "'k::linorder \<Rightarrow> 'v \<Rightarrow> ('k, 'v) btree \<Rightarrow> ('k, 'v) btree" where
  "bt_insert k v [] = [(k, v)]"
| "bt_insert k v ((j, w) # t) =
     (if k < j then (k, v) # (j, w) # t else if k = j then (k, v) # t else (j, w) # bt_insert k v t)"

definition bt_remove :: "'k \<Rightarrow> ('k, 'v) btree \<Rightarrow> ('k, 'v) btree" where
  "bt_remove k t = filter (\<lambda>(j, _). j \<noteq> k) t"

abbreviation bt_get :: "('k, 'v) btree \<Rightarrow> 'k \<Rightarrow> 'v option" where
  "bt_get t \<equiv> map_of t"

lemma bt_keys_insert: "set (map fst (bt_insert k v t)) = insert k (set (map fst t))"
proof (induction t)
  case (Cons e t)
  obtain j w where e: "e = (j, w)" by force
  show ?case using Cons e by (simp add: insert_commute)
qed simp

lemma bt_insert_ok [simp]: "bt_ok t \<Longrightarrow> bt_ok (bt_insert k v t)"
  unfolding bt_ok_def
proof (induction t)
  case (Cons e t)
  obtain j w where e: "e = (j, w)" by force
  have keys: "fst ` set (bt_insert k v t) = insert k (fst ` set t)" using bt_keys_insert [of k v t] by simp
  show ?case using Cons e keys by (auto simp: less_trans)
qed simp

lemma bt_remove_ok [simp]: "bt_ok t \<Longrightarrow> bt_ok (bt_remove k t)"
  unfolding bt_ok_def bt_remove_def by (induction t) (auto simp: case_prod_unfold)

lemma bt_get_insert [simp]: "bt_ok t \<Longrightarrow> bt_get (bt_insert k v t) = (bt_get t)(k \<mapsto> v)"
proof (induction t)
  case (Cons e t)
  obtain j w where e: "e = (j, w)" by force
  have "bt_ok t" using Cons.prems by (simp add: bt_ok_def)
  then show ?case using Cons e by (auto simp: bt_ok_def fun_eq_iff)
qed (simp add: fun_eq_iff)

lemma bt_get_remove [simp]: "bt_get (bt_remove k t) = (bt_get t)(k := None)"
  by (induction t) (auto simp: bt_remove_def fun_eq_iff)

lemma bt_distinct: "bt_ok t \<Longrightarrow> distinct (map fst t)"
  unfolding bt_ok_def strict_sorted_iff by simp

lemma bt_get_mem: "bt_ok t \<Longrightarrow> bt_get t k = Some v \<longleftrightarrow> (k, v) \<in> set t"
  using bt_distinct map_of_eq_Some_iff by metis

end
