(* ===== verification/Wait_Queue.thy ===== *)
theory Wait_Queue
  imports Std_Lib
begin

text \<open>
  Poll events (\<open>aether-vfs/src/file.rs\<close>), the wait queue (\<open>aether-vfs/src/wait.rs\<close>) and the
  errors of the file layer (\<open>aether-vfs/src/node.rs\<close>). A listener is a number; waking it is an
  entry in the list that \<open>notify\<close> returns. The files of the kernel that can be waited for keep
  a common contract, stated here as a locale: whatever makes a file ready notifies its queue.
\<close>

section \<open>Errors of the file layer\<close>

datatype fs_error = NotFound | NotDirectory | NotFile | AlreadyExists | Unsupported | Io | PermissionDenied
  | InvalidInput | RootNotMounted | WouldBlock | BrokenPipe

section \<open>Poll events\<close>

type_synonym poll_events = "32 word"

definition POLL_READ :: poll_events where
  "POLL_READ = push_bit 0 1"

definition POLL_WRITE :: poll_events where
  "POLL_WRITE = push_bit 1 1"

definition POLL_ERROR :: poll_events where
  "POLL_ERROR = push_bit 2 1"

definition POLL_HUP :: poll_events where
  "POLL_HUP = push_bit 3 1"

definition POLL_INVALID :: poll_events where
  "POLL_INVALID = push_bit 4 1"

definition POLL_RDHUP :: poll_events where
  "POLL_RDHUP = push_bit 5 1"

definition POLL_LOCK :: poll_events where
  "POLL_LOCK = push_bit 6 1"

definition POLL_ALWAYS :: poll_events where
  "POLL_ALWAYS = push_bit 2 1 OR push_bit 3 1 OR push_bit 4 1 OR push_bit 5 1"

definition ev_contains :: "poll_events \<Rightarrow> poll_events \<Rightarrow> bool" where
  "ev_contains e other \<longleftrightarrow> e AND other = other"

definition ev_intersects :: "poll_events \<Rightarrow> poll_events \<Rightarrow> bool" where
  "ev_intersects e other \<longleftrightarrow> e AND other \<noteq> 0"

definition ev_intersection :: "poll_events \<Rightarrow> poll_events \<Rightarrow> poll_events" where
  "ev_intersection e other = e AND other"

lemma bit_poll_flag: "bit (push_bit k 1 :: poll_events) n \<longleftrightarrow> n = k \<and> k < 32"
  by (auto simp: bit_simps)

lemma poll_bits:
  "bit POLL_READ n \<longleftrightarrow> n = 0" "bit POLL_WRITE n \<longleftrightarrow> n = 1" "bit POLL_ERROR n \<longleftrightarrow> n = 2" "bit POLL_HUP n \<longleftrightarrow> n = 3"
  "bit POLL_INVALID n \<longleftrightarrow> n = 4" "bit POLL_RDHUP n \<longleftrightarrow> n = 5" "bit POLL_LOCK n \<longleftrightarrow> n = 6"
  by (simp_all only: POLL_READ_def POLL_WRITE_def POLL_ERROR_def POLL_HUP_def POLL_INVALID_def POLL_RDHUP_def POLL_LOCK_def
      bit_poll_flag) simp_all

lemma ev_contains_bit: "ev_contains e other \<longleftrightarrow> (\<forall>n. bit other n \<longrightarrow> bit e n)"
proof -
  have "bit other n \<Longrightarrow> n < 32" for n using bit_imp_le_length [of other n] by simp
  then show ?thesis
    unfolding ev_contains_def bit_eq_iff [of "e AND other"] bit_and_iff by auto
qed

lemma contains_poll_flag:
  "ev_contains e POLL_READ \<longleftrightarrow> bit e 0" "ev_contains e POLL_WRITE \<longleftrightarrow> bit e 1"
  by (simp_all add: ev_contains_bit poll_bits)

section \<open>The queue\<close>

type_synonym listener = nat

record wait_registration =
  wr_events :: poll_events
  wr_listener :: listener

record wait_queue =
  next_id :: usize
  registrations :: "(usize, wait_registration) btree"
  notify_scratch :: "(listener \<times> poll_events) list"

definition wq_new :: wait_queue where
  "wq_new = \<lparr>next_id = 1, registrations = [], notify_scratch = []\<rparr>"

definition wq_register :: "poll_events \<Rightarrow> listener \<Rightarrow> wait_queue \<Rightarrow> usize \<times> wait_queue" where
  "wq_register events l q =
     (next_id q, q\<lparr>next_id := wadd (next_id q) 1,
        registrations := bt_insert (next_id q) \<lparr>wr_events = events, wr_listener = l\<rparr> (registrations q)\<rparr>)"

definition wq_unregister :: "usize \<Rightarrow> wait_queue \<Rightarrow> bool \<times> wait_queue" where
  "wq_unregister i q = (bt_get (registrations q) i \<noteq> None, q\<lparr>registrations := bt_remove i (registrations q)\<rparr>)"

text \<open>
  \<open>notify\<close> collects the matching listeners under the lock, wakes them after releasing it, and
  keeps the vector for the next call.
\<close>

definition wq_matching :: "poll_events \<Rightarrow> wait_queue \<Rightarrow> (listener \<times> poll_events) list" where
  "wq_matching events q = concat (map (\<lambda>(_, r).
     let matched = ev_intersection events (wr_events r)
     in if matched \<noteq> 0 then [(wr_listener r, matched)] else []) (registrations q))"

definition wq_notify :: "poll_events \<Rightarrow> wait_queue \<Rightarrow> (listener \<times> poll_events) list \<times> wait_queue" where
  "wq_notify events q =
     (let listeners = wq_matching events q in (listeners, q\<lparr>notify_scratch := listeners\<rparr>))"

definition wq_ok :: "wait_queue \<Rightarrow> bool" where
  "wq_ok q \<longleftrightarrow> bt_ok (registrations q) \<and> (\<forall>i \<in> dom (bt_get (registrations q)). i < next_id q) \<and> next_id q < usize_range"

lemma wq_new_ok [simp]: "wq_ok wq_new"
  by (simp add: wq_ok_def wq_new_def bt_ok_def usize_range_def)

lemma wq_notify_ok [simp]: "wq_ok q \<Longrightarrow> wq_ok (snd (wq_notify e q))"
  by (simp add: wq_notify_def wq_ok_def Let_def)

lemma wq_unregister_ok [simp]: "wq_ok q \<Longrightarrow> wq_ok (snd (wq_unregister i q))"
  by (auto simp: wq_unregister_def wq_ok_def split: if_splits)

lemma wq_register_ok [simp]: "wq_ok q \<Longrightarrow> next_id q + 1 < usize_range \<Longrightarrow> wq_ok (snd (wq_register e l q))"
  by (auto simp: wq_register_def wq_ok_def wadd_exact less_Suc_eq split: if_splits)

text \<open>A notification reaches exactly the registered listeners whose events it meets.\<close>

lemma wq_matching_iff:
  assumes "wq_ok q"
  shows "(l, m) \<in> set (wq_matching events q) \<longleftrightarrow>
    (\<exists>i r. bt_get (registrations q) i = Some r \<and> wr_listener r = l \<and> m = events AND wr_events r \<and> m \<noteq> 0)"
proof -
  have ok: "bt_ok (registrations q)" using assms by (simp add: wq_ok_def)
  show ?thesis
    unfolding wq_matching_def using bt_get_mem [OF ok] by (force simp: Let_def ev_intersection_def split: if_splits)
qed

lemma wq_notify_wakes:
  assumes "wq_ok q" "bt_get (registrations q) i = Some r" "bit (wr_events r) n" "bit events n"
  shows "wr_listener r \<in> fst ` set (fst (wq_notify events q))"
proof -
  have "bit (events AND wr_events r) n" using assms by (simp add: bit_and_iff)
  then have "events AND wr_events r \<noteq> 0" by auto
  then have "(wr_listener r, events AND wr_events r) \<in> set (wq_matching events q)"
    using assms by (auto simp: wq_matching_iff)
  then show ?thesis by (force simp: wq_notify_def Let_def)
qed

lemma wq_notify_registrations [simp]:
  "registrations (snd (wq_notify e q)) = registrations q" "next_id (snd (wq_notify e q)) = next_id q"
  by (simp_all add: wq_notify_def Let_def)

section \<open>Files that can be waited for\<close>

text \<open>
  An operation of such a file changes its state and wakes listeners of its queue; \<open>ready\<close> is
  what \<open>poll\<close> reports when it is asked for every event. The contract: an event that an
  operation makes ready wakes every listener registered for that event.
\<close>

type_synonym wakes = "(listener \<times> poll_events) list"

fun run_ops :: "('o \<Rightarrow> 's \<Rightarrow> wakes \<times> 's) \<Rightarrow> 'o list \<Rightarrow> 's \<Rightarrow> wakes \<times> 's" where
  "run_ops op [] s = ([], s)"
| "run_ops op (x # xs) s = (let (ws, s1) = op x s; (vs, s2) = run_ops op xs s1 in (ws @ vs, s2))"

locale waitable =
  fixes inv :: "'s \<Rightarrow> bool" and op :: "'o \<Rightarrow> 's \<Rightarrow> wakes \<times> 's" and ready :: "'s \<Rightarrow> poll_events"
    and queue :: "'s \<Rightarrow> wait_queue" and watched :: "nat set"
  assumes op_inv: "inv s \<Longrightarrow> inv (snd (op x s))"
    and op_queue: "inv s \<Longrightarrow> registrations (queue (snd (op x s))) = registrations (queue s)"
    and op_wakes: "inv s \<Longrightarrow> op x s = (ws, s') \<Longrightarrow> n \<in> watched \<Longrightarrow> bit (ready s') n \<Longrightarrow> \<not> bit (ready s) n \<Longrightarrow>
      bt_get (registrations (queue s)) i = Some r \<Longrightarrow> bit (wr_events r) n \<Longrightarrow> wr_listener r \<in> fst ` set ws"
begin

text \<open>
  No wake-up is lost: a listener registered for an event that the file does not have is woken
  by the time the file has it, whatever operations come in between.
\<close>

lemma no_lost_wakeup:
  assumes "inv s" "\<not> bit (ready s) n" "n \<in> watched" "run_ops op xs s = (ws, s')" "bit (ready s') n"
    and "bt_get (registrations (queue s)) i = Some r" "bit (wr_events r) n"
  shows "wr_listener r \<in> fst ` set ws"
  using assms
proof (induction xs arbitrary: s ws)
  case (Cons x xs)
  obtain s1 us where 1: "op x s = (us, s1)" by force
  obtain s2 vs where 2: "run_ops op xs s1 = (vs, s2)" by force
  have ws: "ws = us @ vs" "s2 = s'" using Cons.prems(4) 1 2 by simp_all
  have "inv s1" "bt_get (registrations (queue s1)) i = Some r"
    using op_inv [OF Cons.prems(1), of x] op_queue [OF Cons.prems(1), of x] 1 Cons.prems(6) by simp_all
  then show ?case
    using Cons.IH [of s1 vs] op_wakes [OF Cons.prems(1) 1 Cons.prems(3)] Cons.prems ws 2
    by (cases "bit (ready s1) n") auto
qed simp

end

end
