(* ===== verification/Pipe.thy ===== *)
theory Pipe
  imports Wait_Queue
begin

text \<open>
  The anonymous pipe of \<open>aether-fs/src/pipe.rs\<close>: a bounded queue of bytes with a count of
  open readers and writers. \<open>write\<close> takes the lock once per chunk, so the chunks of several
  writers and the reads interleave; the step relation at the end of the theory has one step
  per critical section.
\<close>

section \<open>The pipe\<close>

definition PIPE_CAPACITY :: usize where
  "PIPE_CAPACITY = 64 * 1024"

record pipe_buffer =
  bytes :: "byte list"
  readers :: usize
  writers :: usize

record pipe_state =
  inner :: pipe_buffer
  version :: usize
  waiters :: wait_queue

datatype pipe_endpoint_kind = ReadEnd | WriteEnd

definition pipe_default :: pipe_state where
  "pipe_default = \<lparr>inner = \<lparr>bytes = [], readers = 0, writers = 0\<rparr>, version = 1, waiters = wq_new\<rparr>"

definition bump :: "pipe_state \<Rightarrow> pipe_state" where
  "bump p = p\<lparr>version := wadd (version p) 1\<rparr>"

definition pipe_notify :: "poll_events \<Rightarrow> pipe_state \<Rightarrow> wakes \<times> pipe_state" where
  "pipe_notify e p = (let (ws, q) = wq_notify e (waiters p) in (ws, p\<lparr>waiters := q\<rparr>))"

abbreviation all_pipe_events :: poll_events where
  "all_pipe_events \<equiv> POLL_READ OR POLL_WRITE OR POLL_ERROR OR POLL_HUP"

definition add_reader :: "pipe_state \<Rightarrow> wakes \<times> pipe_state" where
  "add_reader p = pipe_notify all_pipe_events
     (bump (p\<lparr>inner := (inner p)\<lparr>readers := saturating_add (readers (inner p)) 1\<rparr>\<rparr>))"

definition add_writer :: "pipe_state \<Rightarrow> wakes \<times> pipe_state" where
  "add_writer p = pipe_notify all_pipe_events
     (bump (p\<lparr>inner := (inner p)\<lparr>writers := saturating_add (writers (inner p)) 1\<rparr>\<rparr>))"

definition remove_reader :: "pipe_state \<Rightarrow> wakes \<times> pipe_state" where
  "remove_reader p = pipe_notify all_pipe_events
     (bump (p\<lparr>inner := (inner p)\<lparr>readers := readers (inner p) - 1\<rparr>\<rparr>))"

definition remove_writer :: "pipe_state \<Rightarrow> wakes \<times> pipe_state" where
  "remove_writer p = pipe_notify all_pipe_events
     (bump (p\<lparr>inner := (inner p)\<lparr>writers := writers (inner p) - 1\<rparr>\<rparr>))"

fun pipe_open :: "pipe_endpoint_kind \<Rightarrow> pipe_state \<Rightarrow> wakes \<times> pipe_state" where
  "pipe_open ReadEnd p = add_reader p"
| "pipe_open WriteEnd p = add_writer p"

fun pipe_release :: "pipe_endpoint_kind \<Rightarrow> pipe_state \<Rightarrow> wakes \<times> pipe_state" where
  "pipe_release ReadEnd p = remove_reader p"
| "pipe_release WriteEnd p = remove_writer p"

text \<open>\<open>read\<close> into a buffer of \<open>len\<close> bytes; the bytes it stores stand for their count.\<close>

definition pipe_read :: "pipe_endpoint_kind \<Rightarrow> usize \<Rightarrow> pipe_state \<Rightarrow> (fs_error, byte list) result \<times> wakes \<times> pipe_state" where
  "pipe_read kind len p =
     (if kind \<noteq> ReadEnd then (Err InvalidInput, [], p)
      else if bytes (inner p) \<noteq> [] then
        let was_full = (length (bytes (inner p)) = PIPE_CAPACITY);
            count = min len (length (bytes (inner p)));
            p1 = bump (p\<lparr>inner := (inner p)\<lparr>bytes := drop count (bytes (inner p))\<rparr>\<rparr>);
            (ws, p2) = if was_full then pipe_notify POLL_WRITE p1 else ([], p1)
        in (Ok (take count (bytes (inner p))), ws, p2)
      else if writers (inner p) = 0 then (Ok [], [], p)
      else (Err WouldBlock, [], p))"

text \<open>One turn of the loop of \<open>write\<close>: it returns from the call or goes on with a count.\<close>

datatype write_turn = Return "(fs_error, usize) result" | Continue usize wakes pipe_state

definition write_turn :: "byte list \<Rightarrow> usize \<Rightarrow> pipe_state \<Rightarrow> write_turn" where
  "write_turn buffer written p =
     (if readers (inner p) = 0 then Return (if written = 0 then Err BrokenPipe else Ok written)
      else
        let space = PIPE_CAPACITY - length (bytes (inner p))
        in if space = 0 then Return (if written = 0 then Err WouldBlock else Ok written)
        else
          let chunk = min (length buffer - written) space;
              p1 = p\<lparr>inner := (inner p)\<lparr>bytes := bytes (inner p) @ take chunk (drop written buffer)\<rparr>\<rparr>;
              (ws, p2) = pipe_notify POLL_READ (bump p1)
          in Continue (written + chunk) ws p2)"

lemma write_turn_grows:
  "write_turn buffer written p = Continue written' ws p' \<Longrightarrow> written < length buffer \<Longrightarrow>
    written < written' \<and> written' \<le> length buffer"
  by (auto simp: write_turn_def Let_def split: if_splits prod.splits)

function write_loop :: "byte list \<Rightarrow> usize \<Rightarrow> wakes \<Rightarrow> pipe_state \<Rightarrow> (fs_error, usize) result \<times> wakes \<times> pipe_state" where
  "write_loop buffer written ws p =
     (if written < length buffer then
        case write_turn buffer written p of
          Return r \<Rightarrow> (r, ws, p)
        | Continue written' ws' p' \<Rightarrow> write_loop buffer written' (ws @ ws') p'
      else (Ok written, ws, p))"
  by pat_completeness auto
termination
  by (relation "measure (\<lambda>(buffer, written, ws, p). length buffer - written)") (auto dest: write_turn_grows)

declare write_loop.simps [simp del]

definition pipe_write :: "pipe_endpoint_kind \<Rightarrow> byte list \<Rightarrow> pipe_state \<Rightarrow> (fs_error, usize) result \<times> wakes \<times> pipe_state" where
  "pipe_write kind buffer p =
     (if kind \<noteq> WriteEnd then (Err InvalidInput, [], p) else write_loop buffer 0 [] p)"

definition pipe_poll :: "pipe_endpoint_kind \<Rightarrow> poll_events \<Rightarrow> pipe_state \<Rightarrow> poll_events" where
  "pipe_poll kind events p =
     (if kind = ReadEnd \<and> ev_contains events POLL_READ \<and> (bytes (inner p) \<noteq> [] \<or> writers (inner p) = 0)
      then POLL_READ else 0)
     OR (if kind = ReadEnd \<and> writers (inner p) = 0 then POLL_HUP else 0)
     OR (if kind = WriteEnd \<and> ev_contains events POLL_WRITE \<and> readers (inner p) \<noteq> 0
           \<and> length (bytes (inner p)) < PIPE_CAPACITY then POLL_WRITE else 0)
     OR (if kind = WriteEnd \<and> readers (inner p) = 0 then POLL_ERROR else 0)"

definition pipe_wait_token :: "pipe_state \<Rightarrow> usize" where
  "pipe_wait_token p = version p"

definition pipe_register_waiter :: "poll_events \<Rightarrow> listener \<Rightarrow> pipe_state \<Rightarrow> usize \<times> pipe_state" where
  "pipe_register_waiter events l p = (let (i, q) = wq_register events l (waiters p) in (i, p\<lparr>waiters := q\<rparr>))"

definition pipe_unregister_waiter :: "usize \<Rightarrow> pipe_state \<Rightarrow> pipe_state" where
  "pipe_unregister_waiter i p = p\<lparr>waiters := snd (wq_unregister i (waiters p))\<rparr>"

definition pipe_ok :: "pipe_state \<Rightarrow> bool" where
  "pipe_ok p \<longleftrightarrow> length (bytes (inner p)) \<le> PIPE_CAPACITY \<and> readers (inner p) < usize_range
     \<and> writers (inner p) < usize_range \<and> version p < usize_range \<and> wq_ok (waiters p)"

section \<open>What the operations do\<close>

lemma capacity_pos [simp]: "0 < PIPE_CAPACITY" "PIPE_CAPACITY \<noteq> 0"
  by (simp_all add: PIPE_CAPACITY_def)

lemma pipe_notify_simps [simp]:
  "inner (snd (pipe_notify e p)) = inner p" "version (snd (pipe_notify e p)) = version p"
  "registrations (waiters (snd (pipe_notify e p))) = registrations (waiters p)"
  "next_id (waiters (snd (pipe_notify e p))) = next_id (waiters p)"
  "wq_ok (waiters p) \<Longrightarrow> wq_ok (waiters (snd (pipe_notify e p)))"
  using wq_notify_ok [of "waiters p" e] wq_notify_registrations [where e = e and q = "waiters p"]
  by (simp_all add: pipe_notify_def case_prod_unfold Let_def)

lemma bump_simps [simp]:
  "inner (bump p) = inner p" "waiters (bump p) = waiters p" "version (bump p) = wadd (version p) 1"
  by (simp_all add: bump_def)

lemma pipe_notify_wakes:
  assumes "wq_ok (waiters p)" "bt_get (registrations (waiters p)) i = Some r" "bit (wr_events r) n" "bit e n"
  shows "wr_listener r \<in> fst ` set (fst (pipe_notify e p))"
  using wq_notify_wakes [OF assms] by (simp add: pipe_notify_def case_prod_unfold Let_def)

lemma bit_poll:
  "bit (pipe_poll ReadEnd (-1) p) 0 \<longleftrightarrow> bytes (inner p) \<noteq> [] \<or> writers (inner p) = 0"
  "bit (pipe_poll ReadEnd (-1) p) 3 \<longleftrightarrow> writers (inner p) = 0"
  "bit (pipe_poll WriteEnd (-1) p) (Suc 0) \<longleftrightarrow> readers (inner p) \<noteq> 0 \<and> length (bytes (inner p)) < PIPE_CAPACITY"
  "bit (pipe_poll WriteEnd (-1) p) 2 \<longleftrightarrow> readers (inner p) = 0"
  by (auto simp: pipe_poll_def bit_simps poll_bits contains_poll_flag)

text \<open>A call of \<open>write\<close> that nothing interrupts appends as much of the buffer as there is room for.\<close>

lemma write_loop_done: "length buffer \<le> written \<Longrightarrow> write_loop buffer written ws p = (Ok written, ws, p)"
  by (subst write_loop.simps) simp

definition pushed :: "byte list \<Rightarrow> pipe_state \<Rightarrow> wakes \<times> pipe_state" where
  "pushed bs p = pipe_notify POLL_READ (bump (p\<lparr>inner := (inner p)\<lparr>bytes := bytes (inner p) @ bs\<rparr>\<rparr>))"

lemma write_turn_eq:
  "write_turn buffer written p =
     (if readers (inner p) = 0 then Return (if written = 0 then Err BrokenPipe else Ok written)
      else if PIPE_CAPACITY \<le> length (bytes (inner p)) then Return (if written = 0 then Err WouldBlock else Ok written)
      else let chunk = min (length buffer - written) (PIPE_CAPACITY - length (bytes (inner p)));
               w = pushed (take chunk (drop written buffer)) p
           in Continue (written + chunk) (fst w) (snd w))"
  by (simp add: write_turn_def pushed_def Let_def case_prod_unfold)

lemma pushed_simps [simp]:
  "bytes (inner (snd (pushed bs p))) = bytes (inner p) @ bs" "readers (inner (snd (pushed bs p))) = readers (inner p)"
  "writers (inner (snd (pushed bs p))) = writers (inner p)" "version (snd (pushed bs p)) = wadd (version p) 1"
  "registrations (waiters (snd (pushed bs p))) = registrations (waiters p)"
  "wq_ok (waiters p) \<Longrightarrow> wq_ok (waiters (snd (pushed bs p)))"
  by (simp_all add: pushed_def)

lemma pipe_write_eq:
  "pipe_write WriteEnd buffer p =
     (if buffer = [] then (Ok 0, [], p)
      else if readers (inner p) = 0 then (Err BrokenPipe, [], p)
      else if PIPE_CAPACITY \<le> length (bytes (inner p)) then (Err WouldBlock, [], p)
      else let n = min (length buffer) (PIPE_CAPACITY - length (bytes (inner p))) in (Ok n, pushed (take n buffer) p))"
proof -
  define n where "n = min (length buffer) (PIPE_CAPACITY - length (bytes (inner p)))"
  define w where "w = pushed (take n buffer) p"
  have "write_loop buffer n (fst w) (snd w) = (Ok n, w)"
    if "buffer \<noteq> []" "readers (inner p) \<noteq> 0" "length (bytes (inner p)) < PIPE_CAPACITY"
  proof (cases "n < length buffer")
    case True
    then have "length (bytes (inner (snd w))) = PIPE_CAPACITY" "0 < n" using that by (auto simp: n_def w_def)
    then have "write_turn buffer n (snd w) = Return (Ok n)" using that by (simp add: write_turn_eq w_def)
    then show ?thesis using True by (subst write_loop.simps) simp
  qed (simp add: write_loop_done)
  then show ?thesis
    by (auto simp: pipe_write_def write_loop.simps [of buffer 0] write_turn_eq Let_def n_def [symmetric] w_def [symmetric])
qed

section \<open>Waiting for a pipe\<close>

datatype pipe_op = Open pipe_endpoint_kind | Release pipe_endpoint_kind | Read usize | Write "byte list"

fun pipe_apply :: "pipe_op \<Rightarrow> pipe_state \<Rightarrow> wakes \<times> pipe_state" where
  "pipe_apply (Open k) p = pipe_open k p"
| "pipe_apply (Release k) p = pipe_release k p"
| "pipe_apply (Read len) p = snd (pipe_read ReadEnd len p)"
| "pipe_apply (Write buffer) p = snd (pipe_write WriteEnd buffer p)"

lemmas endpoint_defs = add_reader_def add_writer_def remove_reader_def remove_writer_def

lemma pipe_read_eq:
  "snd (pipe_read ReadEnd len p) =
     (if bytes (inner p) = [] then ([], p)
      else let p1 = bump (p\<lparr>inner := (inner p)\<lparr>bytes := drop (min len (length (bytes (inner p)))) (bytes (inner p))\<rparr>\<rparr>)
        in if length (bytes (inner p)) = PIPE_CAPACITY then pipe_notify POLL_WRITE p1 else ([], p1))"
  by (simp add: pipe_read_def Let_def case_prod_unfold)

lemma pipe_op_registrations: "registrations (waiters (snd (pipe_apply x p))) = registrations (waiters p)"
proof (cases x)
  case (Open k) then show ?thesis by (cases k) (simp_all add: endpoint_defs)
next
  case (Release k) then show ?thesis by (cases k) (simp_all add: endpoint_defs)
next
  case (Read len) then show ?thesis by (simp add: pipe_read_eq Let_def)
next
  case (Write buffer) then show ?thesis by (simp add: pipe_write_eq Let_def)
qed

lemma pipe_op_ok:
  assumes "pipe_ok p"
  shows "pipe_ok (snd (pipe_apply x p))"
proof (cases x)
  case (Open k) then show ?thesis using assms by (cases k) (auto simp: endpoint_defs pipe_ok_def saturating_add_def)
next
  case (Release k) then show ?thesis using assms by (cases k) (auto simp: endpoint_defs pipe_ok_def)
next
  case (Read len) then show ?thesis using assms by (auto simp: pipe_read_eq Let_def pipe_ok_def)
next
  case (Write buffer) then show ?thesis using assms by (auto simp: pipe_write_eq Let_def pipe_ok_def)
qed

text \<open>Whichever end an operation makes ready, it has notified the queue of that event.\<close>

lemma pipe_op_wakes:
  assumes ok: "pipe_ok p" and op: "pipe_apply x p = (ws, p')"
    and reg: "bt_get (registrations (waiters p)) i = Some r" "bit (wr_events r) n"
    and ready: "bit (pipe_poll k (-1) p') n" "\<not> bit (pipe_poll k (-1) p) n"
    and k: "k = ReadEnd \<and> n \<in> {0, 3} \<or> k = WriteEnd \<and> n \<in> {1, 2}"
  shows "wr_listener r \<in> fst ` set ws"
proof -
  have wake: "wr_listener r \<in> fst ` set (fst (pipe_notify e q))"
    if "bit e n" "waiters q = waiters p" for e q
    using pipe_notify_wakes [of q i r n e] ok reg that by (simp add: pipe_ok_def)
  have all: "bit all_pipe_events n" using k by (auto simp: bit_simps poll_bits)
  have p': "p' = snd (pipe_apply x p)" and ws: "ws = fst (pipe_apply x p)" using op by simp_all
  show ?thesis
  proof (cases x)
    case (Open j) then show ?thesis unfolding ws by (cases j) (simp_all add: endpoint_defs wake all)
  next
    case (Release j) then show ?thesis unfolding ws by (cases j) (simp_all add: endpoint_defs wake all)
  next
    case (Read len)
    have "n = 1 \<and> length (bytes (inner p)) = PIPE_CAPACITY"
      using k ready Read ok unfolding p'
      by (auto simp: bit_poll pipe_read_eq Let_def pipe_ok_def split: if_splits)
    then show ?thesis using Read unfolding ws by (auto simp: pipe_read_eq Let_def wake poll_bits)
  next
    case (Write buffer)
    have "n = 0 \<and> buffer \<noteq> [] \<and> readers (inner p) \<noteq> 0 \<and> length (bytes (inner p)) < PIPE_CAPACITY"
      using k ready Write unfolding p' by (auto simp: bit_poll pipe_write_eq Let_def split: if_splits)
    then show ?thesis using Write unfolding ws by (simp add: pipe_write_eq Let_def pushed_def wake poll_bits)
  qed
qed

interpretation pipe_reader: waitable pipe_ok pipe_apply "pipe_poll ReadEnd (-1)" waiters "{0, 3}"
  using pipe_op_wakes [where k = ReadEnd] by unfold_locales (auto simp: pipe_op_registrations intro: pipe_op_ok)

interpretation pipe_writer: waitable pipe_ok pipe_apply "pipe_poll WriteEnd (-1)" waiters "{1, 2}"
  using pipe_op_wakes [where k = WriteEnd] by unfold_locales (auto simp: pipe_op_registrations intro: pipe_op_ok)

section \<open>Interleaved calls\<close>

text \<open>
  A system of threads that use one pipe: \<open>calls\<close> are the calls of \<open>write\<close> in progress, with
  the buffer and the count reached, \<open>returned\<close> those that returned. \<open>sent\<close> and \<open>received\<close>
  record what was put into and taken out of the pipe, with the call that put it there.
\<close>

record pipe_system =
  pipe :: pipe_state
  calls :: "nat \<rightharpoonup> byte list \<times> usize"
  returned :: "nat \<rightharpoonup> byte list \<times> (fs_error, usize) result"
  sent :: "(nat \<times> byte) list"
  received :: "byte list"

definition pipe_start :: pipe_system where
  "pipe_start = \<lparr>pipe = pipe_default, calls = Map.empty, returned = Map.empty, sent = [], received = []\<rparr>"

inductive pipe_step :: "pipe_system \<Rightarrow> pipe_system \<Rightarrow> bool" where
  call: "calls s t = None \<Longrightarrow> returned s t = None \<Longrightarrow> pipe_step s (s\<lparr>calls := (calls s)(t \<mapsto> (buffer, 0))\<rparr>)"
| chunk: "calls s t = Some (buffer, written) \<Longrightarrow> written < length buffer \<Longrightarrow>
    write_turn buffer written (pipe s) = Continue written' ws p \<Longrightarrow>
    pipe_step s (s\<lparr>pipe := p, calls := (calls s)(t \<mapsto> (buffer, written')),
      sent := sent s @ map (Pair t) (take (written' - written) (drop written buffer))\<rparr>)"
| early: "calls s t = Some (buffer, written) \<Longrightarrow> written < length buffer \<Longrightarrow>
    write_turn buffer written (pipe s) = Return r \<Longrightarrow>
    pipe_step s (s\<lparr>calls := (calls s)(t := None), returned := (returned s)(t \<mapsto> (buffer, r))\<rparr>)"
| finish: "calls s t = Some (buffer, written) \<Longrightarrow> \<not> written < length buffer \<Longrightarrow>
    pipe_step s (s\<lparr>calls := (calls s)(t := None), returned := (returned s)(t \<mapsto> (buffer, Ok written))\<rparr>)"
| read: "pipe_read ReadEnd len (pipe s) = (Ok bs, ws, p) \<Longrightarrow>
    pipe_step s (s\<lparr>pipe := p, received := received s @ bs\<rparr>)"
| opened: "pipe_step s (s\<lparr>pipe := snd (pipe_open k (pipe s))\<rparr>)"
| closed: "pipe_step s (s\<lparr>pipe := snd (pipe_release k (pipe s))\<rparr>)"

definition sent_by :: "nat \<Rightarrow> pipe_system \<Rightarrow> byte list" where
  "sent_by t s = map snd (filter (\<lambda>e. fst e = t) (sent s))"

definition count_of :: "(fs_error, usize) result \<Rightarrow> usize" where
  "count_of r = (case r of Ok n \<Rightarrow> n | Err _ \<Rightarrow> 0)"

text \<open>
  The pipe holds what was sent and not yet received, in order; every call has sent a prefix
  of its buffer, as long as the count it holds or returned.
\<close>

fun call_ok :: "(byte list \<times> usize) option \<Rightarrow> (byte list \<times> (fs_error, usize) result) option \<Rightarrow> byte list \<Rightarrow> bool" where
  "call_ok (Some (buffer, n)) r bs \<longleftrightarrow> r = None \<and> n \<le> length buffer \<and> bs = take n buffer"
| "call_ok None (Some (buffer, r)) bs \<longleftrightarrow> count_of r \<le> length buffer \<and> bs = take (count_of r) buffer"
| "call_ok None None bs \<longleftrightarrow> bs = []"

definition calls_ok :: "pipe_system \<Rightarrow> bool" where
  "calls_ok s \<longleftrightarrow> (\<forall>t. call_ok (calls s t) (returned s t) (sent_by t s))"

definition system_ok :: "pipe_system \<Rightarrow> bool" where
  "system_ok s \<longleftrightarrow> pipe_ok (pipe s) \<and> map snd (sent s) = received s @ bytes (inner (pipe s)) \<and> calls_ok s"

lemma sent_by_more: "sent s' = sent s @ map (Pair t) bs \<Longrightarrow> sent_by u s' = sent_by u s @ (if u = t then bs else [])"
  by (simp add: sent_by_def filter_map comp_def)

lemma sent_by_same: "sent s' = sent s \<Longrightarrow> sent_by u s' = sent_by u s"
  by (simp add: sent_by_def)

lemma pipe_open_simps [simp]:
  "bytes (inner (snd (pipe_open k p))) = bytes (inner p)" "bytes (inner (snd (pipe_release k p))) = bytes (inner p)"
  by (cases k; simp add: endpoint_defs)+

lemma pipe_read_Ok:
  assumes "pipe_read ReadEnd len p = (Ok bs, ws, p')"
  shows "bs @ bytes (inner p') = bytes (inner p)"
proof -
  have "p' = snd (snd (pipe_read ReadEnd len p))" "Ok bs = fst (pipe_read ReadEnd len p)" using assms by simp_all
  then show ?thesis by (auto simp: pipe_read_eq pipe_read_def Let_def case_prod_unfold split: if_splits)
qed

lemma calls_ok_at: "calls_ok s \<Longrightarrow> call_ok (calls s t) (returned s t) (sent_by t s)"
  by (simp add: calls_ok_def)

lemma calls_ok_update:
  assumes "calls_ok s" "call_ok (calls s' t) (returned s' t) (sent_by t s')"
    and "\<And>u. u \<noteq> t \<Longrightarrow> calls s' u = calls s u \<and> returned s' u = returned s u \<and> sent_by u s' = sent_by u s"
  shows "calls_ok s'"
  unfolding calls_ok_def
proof
  show "call_ok (calls s' u) (returned s' u) (sent_by u s')" for u
    using assms calls_ok_at [OF assms(1), of u] by (cases "u = t") simp_all
qed

lemma write_turn_Continue:
  assumes "write_turn buffer written p = Continue written' ws p'"
  shows "bytes (inner p') = bytes (inner p) @ take (written' - written) (drop written buffer) \<and> (pipe_ok p \<longrightarrow> pipe_ok p')"
  using assms by (auto simp: write_turn_eq Let_def pipe_ok_def split: if_splits)

lemma write_turn_Return: "write_turn buffer written p = Return r \<Longrightarrow> count_of r = written"
  by (auto simp: write_turn_eq Let_def count_of_def split: if_splits)

lemma pipe_step_calls_ok:
  assumes "pipe_step s s'" "calls_ok s"
  shows "calls_ok s'"
  using assms(1)
proof cases
  case (call t buffer)
  show ?thesis
    by (rule calls_ok_update [OF assms(2), of _ t])
      (use call calls_ok_at [OF assms(2), of t] in \<open>simp_all add: sent_by_def\<close>)
next
  case (chunk t buffer written written' ws p)
  have w: "written \<le> written'" "written' \<le> length buffer" using write_turn_grows [OF chunk(4, 3)] by simp_all
  have take: "take written buffer @ take (written' - written) (drop written buffer) = take written' buffer"
    using w by (metis le_add_diff_inverse take_add)
  have sent: "sent_by u s' = sent_by u s @ (if u = t then take (written' - written) (drop written buffer) else [])" for u
    by (rule sent_by_more) (simp add: chunk)
  show ?thesis
    by (rule calls_ok_update [OF assms(2), of _ t], unfold sent)
      (use chunk w take calls_ok_at [OF assms(2), of t] in simp_all)
next
  case (early t buffer written r)
  show ?thesis
    by (rule calls_ok_update [OF assms(2), of _ t])
      (use early write_turn_Return [OF early(4)] calls_ok_at [OF assms(2), of t] in \<open>simp_all add: sent_by_def\<close>)
next
  case (finish t buffer written)
  show ?thesis
    by (rule calls_ok_update [OF assms(2), of _ t])
      (use finish calls_ok_at [OF assms(2), of t] in \<open>simp_all add: sent_by_def count_of_def\<close>)
qed (use assms(2) in \<open>simp_all add: calls_ok_def sent_by_def\<close>)

lemma pipe_step_ok:
  assumes "pipe_step s s'" "system_ok s"
  shows "system_ok s'"
proof -
  have "pipe_ok (pipe s') \<and> map snd (sent s') = received s' @ bytes (inner (pipe s'))"
    using assms(1)
  proof cases
    case (chunk t buffer written written' ws p)
    then show ?thesis using assms(2) write_turn_Continue [OF chunk(4)] by (auto simp: system_ok_def comp_def)
  next
    case (read len bs ws p)
    then show ?thesis using assms(2) pipe_read_Ok [OF read(2)] pipe_op_ok [of "pipe s" "Read len"]
      by (auto simp: system_ok_def)
  next
    case (opened k) then show ?thesis using assms(2) pipe_op_ok [of "pipe s" "Open k"] by (simp add: system_ok_def)
  next
    case (closed k) then show ?thesis using assms(2) pipe_op_ok [of "pipe s" "Release k"] by (simp add: system_ok_def)
  qed (use assms(2) in \<open>simp_all add: system_ok_def\<close>)
  then show ?thesis using assms pipe_step_calls_ok by (simp add: system_ok_def)
qed

lemma pipe_start_ok: "system_ok pipe_start"
  by (simp add: system_ok_def pipe_start_def pipe_ok_def pipe_default_def calls_ok_def sent_by_def usize_range_def)

lemma pipe_steps_ok: "pipe_step\<^sup>*\<^sup>* pipe_start s \<Longrightarrow> system_ok s"
  by (induction rule: rtranclp_induct) (auto intro: pipe_start_ok pipe_step_ok)

end
