(* ===== verification/Eventfd.thy ===== *)
theory Eventfd
  imports Wait_Queue
begin

text \<open>
  The event counter of \<open>aether-kernel/src/fs/eventfd.rs\<close>: a 64-bit counter that \<open>write\<close> adds to
  and \<open>read\<close> takes from, one by one in semaphore mode and all at once otherwise.
\<close>

section \<open>The counter\<close>

definition EFD_SEMAPHORE :: "64 word" where
  "EFD_SEMAPHORE = 0x1"

definition EFD_NONBLOCK :: "64 word" where
  "EFD_NONBLOCK = 0x800"

definition EFD_CLOEXEC :: "64 word" where
  "EFD_CLOEXEC = 0x80000"

definition EFD_VALID_FLAGS :: "64 word" where
  "EFD_VALID_FLAGS = EFD_SEMAPHORE OR EFD_NONBLOCK OR EFD_CLOEXEC"

definition EVENTFD_COUNTER_MAX :: usize where
  "EVENTFD_COUNTER_MAX = usize_range - 2"

record eventfd_file =
  efd_counter :: usize
  efd_semaphore :: bool
  efd_version :: usize
  efd_waiters :: wait_queue

definition create_eventfd :: "32 word \<Rightarrow> 64 word \<Rightarrow> eventfd_file" where
  "create_eventfd initval flags = \<lparr>efd_counter = unat initval, efd_semaphore = (flags AND EFD_SEMAPHORE \<noteq> 0),
     efd_version = 1, efd_waiters = wq_new\<rparr>"

definition efd_bump :: "eventfd_file \<Rightarrow> eventfd_file" where
  "efd_bump f = f\<lparr>efd_version := wadd (efd_version f) 1\<rparr>"

definition efd_notify :: "poll_events \<Rightarrow> eventfd_file \<Rightarrow> wakes \<times> eventfd_file" where
  "efd_notify e f = (let (ws, q) = wq_notify e (efd_waiters f) in (ws, f\<lparr>efd_waiters := q\<rparr>))"

text \<open>\<open>read\<close> into a buffer of \<open>len\<close> bytes stores the eight bytes that it returns here.\<close>

definition eventfd_read :: "usize \<Rightarrow> eventfd_file \<Rightarrow> (fs_error, byte list) result \<times> wakes \<times> eventfd_file" where
  "eventfd_read len f =
     (if len < 8 then (Err InvalidInput, [], f)
      else if efd_counter f = 0 then (Err WouldBlock, [], f)
      else
        let was_full = (efd_counter f = EVENTFD_COUNTER_MAX);
            (v, c) = if efd_semaphore f then (1, wsub (efd_counter f) 1) else (efd_counter f, 0);
            f1 = efd_bump (f\<lparr>efd_counter := c\<rparr>);
            (ws, f2) = if was_full then efd_notify POLL_WRITE f1 else ([], f1)
        in (Ok (le_bytes 8 (of_nat v :: 64 word)), ws, f2))"

definition eventfd_write :: "byte list \<Rightarrow> eventfd_file \<Rightarrow> (fs_error, usize) result \<times> wakes \<times> eventfd_file" where
  "eventfd_write buffer f =
     (if length buffer < 8 then (Err InvalidInput, [], f)
      else
        let v = unat (of_le_bytes (take 8 buffer) :: 64 word)
        in if v = usize_range - 1 then (Err InvalidInput, [], f)
        else if v > EVENTFD_COUNTER_MAX - efd_counter f then (Err WouldBlock, [], f)
        else
          let was_empty = (efd_counter f = 0);
              f1 = f\<lparr>efd_counter := wadd (efd_counter f) v\<rparr>
          in if v \<noteq> 0 then
            let f2 = efd_bump f1;
                (ws, f3) = if was_empty then efd_notify POLL_READ f2 else ([], f2)
            in (Ok 8, ws, f3)
          else (Ok 8, [], f1))"

definition eventfd_poll :: "poll_events \<Rightarrow> eventfd_file \<Rightarrow> poll_events" where
  "eventfd_poll events f =
     (if ev_contains events POLL_READ \<and> efd_counter f \<noteq> 0 then POLL_READ else 0)
     OR (if ev_contains events POLL_WRITE \<and> efd_counter f < EVENTFD_COUNTER_MAX then POLL_WRITE else 0)"

definition eventfd_wait_token :: "eventfd_file \<Rightarrow> usize" where
  "eventfd_wait_token f = efd_version f"

definition eventfd_register_waiter :: "poll_events \<Rightarrow> listener \<Rightarrow> eventfd_file \<Rightarrow> usize \<times> eventfd_file" where
  "eventfd_register_waiter events l f = (let (i, q) = wq_register events l (efd_waiters f) in (i, f\<lparr>efd_waiters := q\<rparr>))"

definition eventfd_unregister_waiter :: "usize \<Rightarrow> eventfd_file \<Rightarrow> eventfd_file" where
  "eventfd_unregister_waiter i f = f\<lparr>efd_waiters := snd (wq_unregister i (efd_waiters f))\<rparr>"

definition eventfd_ok :: "eventfd_file \<Rightarrow> bool" where
  "eventfd_ok f \<longleftrightarrow> efd_counter f \<le> EVENTFD_COUNTER_MAX \<and> efd_version f < usize_range \<and> wq_ok (efd_waiters f)"

section \<open>What the operations do\<close>

lemma counter_max_less [simp]: "EVENTFD_COUNTER_MAX < usize_range" "EVENTFD_COUNTER_MAX \<noteq> 0"
  by (simp_all add: EVENTFD_COUNTER_MAX_def usize_range_def)

lemma efd_notify_simps [simp]:
  "efd_counter (snd (efd_notify e f)) = efd_counter f" "efd_version (snd (efd_notify e f)) = efd_version f"
  "efd_semaphore (snd (efd_notify e f)) = efd_semaphore f"
  "registrations (efd_waiters (snd (efd_notify e f))) = registrations (efd_waiters f)"
  "wq_ok (efd_waiters f) \<Longrightarrow> wq_ok (efd_waiters (snd (efd_notify e f)))"
  using wq_notify_ok [of "efd_waiters f" e] wq_notify_registrations [where e = e and q = "efd_waiters f"]
  by (simp_all add: efd_notify_def case_prod_unfold Let_def)

lemma efd_bump_simps [simp]:
  "efd_counter (efd_bump f) = efd_counter f" "efd_waiters (efd_bump f) = efd_waiters f"
  "efd_semaphore (efd_bump f) = efd_semaphore f" "efd_version (efd_bump f) = wadd (efd_version f) 1"
  by (simp_all add: efd_bump_def)

lemma efd_notify_wakes:
  assumes "wq_ok (efd_waiters f)" "bt_get (registrations (efd_waiters f)) i = Some r" "bit (wr_events r) n" "bit e n"
  shows "wr_listener r \<in> fst ` set (fst (efd_notify e f))"
  using wq_notify_wakes [OF assms] by (simp add: efd_notify_def case_prod_unfold Let_def)

lemma bit_efd_poll:
  "bit (eventfd_poll (-1) f) 0 \<longleftrightarrow> efd_counter f \<noteq> 0"
  "bit (eventfd_poll (-1) f) (Suc 0) \<longleftrightarrow> efd_counter f < EVENTFD_COUNTER_MAX"
  by (auto simp: eventfd_poll_def bit_simps poll_bits contains_poll_flag)

datatype eventfd_op = EfdRead usize | EfdWrite "byte list"

text \<open>What one operation puts into the counter and what it takes out.\<close>

fun eventfd_apply :: "eventfd_op \<Rightarrow> eventfd_file \<Rightarrow> wakes \<times> eventfd_file" where
  "eventfd_apply (EfdRead len) f = snd (eventfd_read len f)"
| "eventfd_apply (EfdWrite buffer) f = snd (eventfd_write buffer f)"

fun put_in :: "eventfd_op \<Rightarrow> eventfd_file \<Rightarrow> nat" where
  "put_in (EfdWrite buffer) f =
     (case fst (eventfd_write buffer f) of Ok _ \<Rightarrow> unat (of_le_bytes (take 8 buffer) :: 64 word) | Err _ \<Rightarrow> 0)"
| "put_in (EfdRead len) f = 0"

fun taken_out :: "eventfd_op \<Rightarrow> eventfd_file \<Rightarrow> nat" where
  "taken_out (EfdRead len) f =
     (case fst (eventfd_read len f) of Ok bs \<Rightarrow> unat (of_le_bytes bs :: 64 word) | Err _ \<Rightarrow> 0)"
| "taken_out (EfdWrite buffer) f = 0"

lemma eventfd_read_eq:
  assumes "eventfd_ok f"
  shows "eventfd_read len f =
     (if len < 8 then (Err InvalidInput, [], f) else if efd_counter f = 0 then (Err WouldBlock, [], f)
      else let v = if efd_semaphore f then 1 else efd_counter f;
               f1 = efd_bump (f\<lparr>efd_counter := efd_counter f - v\<rparr>)
        in (Ok (le_bytes 8 (of_nat v :: 64 word)),
            if efd_counter f = EVENTFD_COUNTER_MAX then efd_notify POLL_WRITE f1 else ([], f1)))"
proof -
  have "efd_counter f < usize_range" using assms counter_max_less(1) by (simp add: eventfd_ok_def del: counter_max_less)
  then have "wsub (efd_counter f) 1 = efd_counter f - 1" if "efd_counter f \<noteq> 0"
    using that by (intro wsub_exact) simp_all
  then show ?thesis by (auto simp: eventfd_read_def Let_def)
qed

lemma eventfd_write_eq:
  fixes buffer :: "byte list"
  assumes "eventfd_ok f"
  defines "v \<equiv> unat (of_le_bytes (take 8 buffer) :: 64 word)"
  shows "eventfd_write buffer f =
     (if length buffer < 8 \<or> v = usize_range - 1 then (Err InvalidInput, [], f)
      else if EVENTFD_COUNTER_MAX < efd_counter f + v then (Err WouldBlock, [], f)
      else let f1 = f\<lparr>efd_counter := efd_counter f + v\<rparr>
        in (Ok 8, if v = 0 then ([], f1) else if efd_counter f = 0 then efd_notify POLL_READ (efd_bump f1)
                  else ([], efd_bump f1)))"
proof -
  have le: "efd_counter f \<le> EVENTFD_COUNTER_MAX" using assms(1) by (simp add: eventfd_ok_def)
  have "wadd (efd_counter f) v = efd_counter f + v" if "efd_counter f + v \<le> EVENTFD_COUNTER_MAX"
    using that counter_max_less(1) by (intro wadd_exact) (rule le_less_trans)
  then show ?thesis using le by (auto simp: eventfd_write_def Let_def v_def [symmetric])
qed

lemma unat_of_counter: "eventfd_ok f \<Longrightarrow> v \<le> efd_counter f \<Longrightarrow> unat (of_nat v :: 64 word) = v"
  by (rule unat_of_nat_64) (use counter_max_less(1) in \<open>simp add: eventfd_ok_def del: counter_max_less\<close>)

text \<open>
  Every operation keeps the counter in range, and what it puts in and takes out is the
  difference it makes.
\<close>

lemma eventfd_apply_ok: "eventfd_ok f \<Longrightarrow> eventfd_ok (snd (eventfd_apply x f))"
  by (cases x) (auto simp: eventfd_read_eq eventfd_write_eq Let_def, auto simp: eventfd_ok_def)

lemma eventfd_apply_registrations:
  "eventfd_ok f \<Longrightarrow> registrations (efd_waiters (snd (eventfd_apply x f))) = registrations (efd_waiters f)"
  by (cases x) (simp_all add: eventfd_read_eq eventfd_write_eq Let_def)

lemma eventfd_apply_counts:
  "eventfd_ok f \<Longrightarrow> efd_counter f + put_in x f = efd_counter (snd (eventfd_apply x f)) + taken_out x f"
proof (cases x)
  case (EfdRead len)
  assume ok: "eventfd_ok f"
  show ?thesis using EfdRead ok unat_of_counter [OF ok, of 1] unat_of_counter [OF ok, of "efd_counter f"]
    by (simp add: eventfd_read_eq Let_def)
next
  case (EfdWrite buffer)
  assume "eventfd_ok f"
  then show ?thesis using EfdWrite by (simp add: eventfd_write_eq Let_def)
qed

lemma eventfd_apply_wakes:
  assumes ok: "eventfd_ok f" and x: "eventfd_apply x f = (ws, f')" and n: "n \<in> {0, 1}"
    and ready: "bit (eventfd_poll (-1) f') n" "\<not> bit (eventfd_poll (-1) f) n"
    and reg: "bt_get (registrations (efd_waiters f)) i = Some r" "bit (wr_events r) n"
  shows "wr_listener r \<in> fst ` set ws"
proof -
  have wake: "wr_listener r \<in> fst ` set (fst (efd_notify e g))" if "bit e n" "efd_waiters g = efd_waiters f" for e g
    using efd_notify_wakes [of g i r n e] ok reg that by (simp add: eventfd_ok_def)
  have f': "f' = snd (eventfd_apply x f)" and ws: "ws = fst (eventfd_apply x f)" using x by simp_all
  have le: "efd_counter f \<le> EVENTFD_COUNTER_MAX" using ok by (simp add: eventfd_ok_def)
  show ?thesis
  proof (cases x)
    case (EfdRead len)
    have "n = 1 \<and> efd_counter f = EVENTFD_COUNTER_MAX \<and> \<not> len < 8"
      using n ready EfdRead le unfolding f' by (auto simp: bit_efd_poll eventfd_read_eq [OF ok] Let_def split: if_splits)
    then show ?thesis using EfdRead unfolding ws by (simp add: eventfd_read_eq [OF ok] Let_def wake poll_bits)
  next
    case (EfdWrite buffer)
    have "n = 0 \<and> efd_counter f = 0 \<and> efd_counter f' \<noteq> 0"
      using n ready EfdWrite le unfolding f' by (auto simp: bit_efd_poll eventfd_write_eq [OF ok] Let_def split: if_splits)
    then show ?thesis using EfdWrite unfolding ws f'
      by (auto simp: eventfd_write_eq [OF ok] Let_def wake poll_bits split: if_splits)
  qed
qed

interpretation eventfd: waitable eventfd_ok eventfd_apply "eventfd_poll (-1)" efd_waiters "{0, 1}"
  using eventfd_apply_wakes by unfold_locales (auto simp: eventfd_apply_registrations intro: eventfd_apply_ok)

fun total :: "(eventfd_op \<Rightarrow> eventfd_file \<Rightarrow> nat) \<Rightarrow> eventfd_op list \<Rightarrow> eventfd_file \<Rightarrow> nat" where
  "total g [] f = 0"
| "total g (x # xs) f = g x f + total g xs (snd (eventfd_apply x f))"

fun eventfd_run :: "eventfd_op list \<Rightarrow> eventfd_file \<Rightarrow> eventfd_file" where
  "eventfd_run [] f = f"
| "eventfd_run (x # xs) f = eventfd_run xs (snd (eventfd_apply x f))"

lemma eventfd_run_ok: "eventfd_ok f \<Longrightarrow> eventfd_ok (eventfd_run xs f)"
  by (induction xs arbitrary: f) (auto intro: eventfd_apply_ok)

lemma eventfd_run_counts:
  "eventfd_ok f \<Longrightarrow> efd_counter f + total put_in xs f = efd_counter (eventfd_run xs f) + total taken_out xs f"
proof (induction xs arbitrary: f)
  case (Cons x xs)
  then show ?case using eventfd_apply_counts [OF Cons.prems, of x] Cons.IH [OF eventfd_apply_ok [OF Cons.prems], of x] by simp
qed simp

lemma create_eventfd_ok: "eventfd_ok (create_eventfd initval flags)"
proof -
  have "unat initval < 2 ^ 32" using unsigned_less [of initval] by simp
  then show ?thesis by (simp add: eventfd_ok_def create_eventfd_def EVENTFD_COUNTER_MAX_def usize_range_def)
qed

end
