(* ===== verification/Ipc_Properties.thy ===== *)
theory Ipc_Properties
  imports Pipe Eventfd
begin

text \<open>
  The properties of pipes and event counters: what goes in comes out, in order and within the
  bounds, and whoever waits is woken.
\<close>

section \<open>Pipes\<close>

text \<open>
  C27: However the calls of several writers and readers interleave, a pipe delivers the bytes
  in the order in which they were put in, holds at most its capacity, and a call of \<open>write\<close> that
  returned \<open>n\<close> has put in exactly the first \<open>n\<close> bytes of its buffer (none when it returned an
  error).
\<close>

theorem pipe_fifo:
  assumes "pipe_step\<^sup>*\<^sup>* pipe_start s"
  shows "map snd (sent s) = received s @ bytes (inner (pipe s)) \<and> length (bytes (inner (pipe s))) \<le> PIPE_CAPACITY \<and>
    (\<forall>t buffer r. returned s t = Some (buffer, r) \<longrightarrow>
       count_of r \<le> length buffer \<and> sent_by t s = take (count_of r) buffer)"
proof -
  have ok: "system_ok s" by (rule pipe_steps_ok [OF assms])
  have "count_of r \<le> length buffer \<and> sent_by t s = take (count_of r) buffer"
    if "returned s t = Some (buffer, r)" for t buffer r
    using calls_ok_at [of s t] ok that by (cases "calls s t") (auto simp: system_ok_def)
  then show ?thesis using ok by (simp add: system_ok_def pipe_ok_def)
qed

lemma sample_pipe_run:
  obtains s where "pipe_step\<^sup>*\<^sup>* pipe_start s" "received s = [7]" "returned s 0 = Some ([7, 8], Ok 2)"
    "bytes (inner (pipe s)) = [8]"
proof -
  let ?s1 = "pipe_start\<lparr>pipe := snd (pipe_open ReadEnd (pipe pipe_start))\<rparr>"
  let ?s2 = "?s1\<lparr>calls := (calls ?s1)(0 \<mapsto> ([7, 8], 0))\<rparr>"
  obtain ws p where w: "write_turn [7, 8] 0 (pipe ?s2) = Continue 2 ws p" "bytes (inner p) = [7, 8]"
    by (auto simp: write_turn_eq pipe_start_def pipe_default_def add_reader_def saturating_add_def usize_range_def
        PIPE_CAPACITY_def Let_def)
  let ?s3 = "?s2\<lparr>pipe := p, calls := (calls ?s2)(0 \<mapsto> ([7, 8], 2)),
      sent := sent ?s2 @ map (Pair 0) (take (2 - 0) (drop 0 [7, 8]))\<rparr>"
  let ?s4 = "?s3\<lparr>calls := (calls ?s3)(0 := None), returned := (returned ?s3)(0 \<mapsto> ([7, 8], Ok 2))\<rparr>"
  obtain us q where r: "pipe_read ReadEnd 1 p = (Ok [7], us, q)" "bytes (inner q) = [8]"
    by (auto simp: pipe_read_def w(2) PIPE_CAPACITY_def)
  have "pipe_step\<^sup>*\<^sup>* pipe_start ?s1" by (rule r_into_rtranclp) (rule pipe_step.opened)
  also have "pipe_step ?s1 ?s2" by (rule pipe_step.call) (simp_all add: pipe_start_def)
  also (rtranclp.rtrancl_into_rtrancl) have "pipe_step ?s2 ?s3" by (rule pipe_step.chunk [OF _ _ w(1)]) simp_all
  also (rtranclp.rtrancl_into_rtrancl) have "pipe_step ?s3 ?s4" by (rule pipe_step.finish) simp_all
  also (rtranclp.rtrancl_into_rtrancl) have "pipe_step ?s4 (?s4\<lparr>pipe := q, received := received ?s4 @ [7]\<rparr>)" by (rule pipe_step.read [of 1 _ _ us]) (use r(1) in simp)
  finally (rtranclp.rtrancl_into_rtrancl) have "pipe_step\<^sup>*\<^sup>* pipe_start (?s4\<lparr>pipe := q, received := received ?s4 @ [7]\<rparr>)" .
  then show ?thesis by (rule that) (simp_all add: r(2) pipe_start_def)
qed

theorem pipe_fifo_witness:
  "\<exists>s. pipe_step\<^sup>*\<^sup>* pipe_start s \<and> returned s 0 = Some ([7, 8], Ok 2) \<and> map snd (sent s) = [7] @ [8] \<and> sent_by 0 s = [7, 8]"
proof -
  obtain s where s: "pipe_step\<^sup>*\<^sup>* pipe_start s" "received s = [7]" "returned s 0 = Some ([7, 8], Ok 2)"
    "bytes (inner (pipe s)) = [8]" by (rule sample_pipe_run)
  have "sent_by 0 s = [7, 8]" using pipe_fifo [OF s(1)] s(3) by (force simp: count_of_def)
  moreover have "map snd (sent s) = [7] @ [8]" using pipe_fifo [OF s(1)] s(2, 4) by simp
  ultimately show ?thesis using s(1, 3) by blast
qed

text \<open>
  C32: A call of \<open>write\<close> that nothing interrupts returns. It accepts as much of the buffer as the
  pipe has room for; it fails with \<open>BrokenPipe\<close> when no reader is left and with \<open>WouldBlock\<close>
  when the pipe is full, and then changes nothing; the read end cannot be written.
\<close>

theorem pipe_write_total:
  "fst (pipe_write WriteEnd buffer p) =
     (if buffer = [] then Ok 0 else if readers (inner p) = 0 then Err BrokenPipe
      else if PIPE_CAPACITY \<le> length (bytes (inner p)) then Err WouldBlock
      else Ok (min (length buffer) (PIPE_CAPACITY - length (bytes (inner p))))) \<and>
   bytes (inner (snd (snd (pipe_write WriteEnd buffer p)))) =
     bytes (inner p) @ take (count_of (fst (pipe_write WriteEnd buffer p))) buffer \<and>
   pipe_write ReadEnd buffer p = (Err InvalidInput, [], p)"
  by (simp add: pipe_write_eq pipe_write_def [of ReadEnd] Let_def count_of_def)

text \<open>
  C31: No wake-up of a pipe is lost: a listener registered for an event of its end that is not
  ready (data or end of file for a reader, room or a missing reader for a writer) is woken by the
  time the event is ready, whatever operations are done in between.
\<close>

theorem pipe_no_lost_wakeup:
  assumes "pipe_ok p" "bt_get (registrations (waiters p)) i = Some r" "bit (wr_events r) n"
    and "k = ReadEnd \<and> n \<in> {0, 3} \<or> k = WriteEnd \<and> n \<in> {1, 2}"
    and "\<not> bit (pipe_poll k (-1) p) n" "run_ops pipe_apply xs p = (ws, p')" "bit (pipe_poll k (-1) p') n"
  shows "wr_listener r \<in> fst ` set ws"
  using assms pipe_reader.no_lost_wakeup [OF assms(1), of n xs ws p' i r]
    pipe_writer.no_lost_wakeup [OF assms(1), of n xs ws p' i r] by auto

definition sample_pipe :: pipe_state where
  "sample_pipe = snd (pipe_register_waiter POLL_READ 42
     (snd (pipe_open WriteEnd (snd (pipe_open ReadEnd pipe_default)))))"

lemma wq_new_simps: "next_id wq_new = 1" "registrations wq_new = []"
  by (simp_all add: wq_new_def)

lemmas sample_unfold = sample_pipe_def pipe_register_waiter_def case_prod_unfold Let_def endpoint_defs pipe_default_def

theorem pipe_no_lost_wakeup_witness:
  "\<exists>ws p'. run_ops pipe_apply [Write [7]] sample_pipe = (ws, p') \<and> 42 \<in> fst ` set ws"
proof -
  obtain ws p' where run: "run_ops pipe_apply [Write [7]] sample_pipe = (ws, p')" by force
  have ok: "pipe_ok sample_pipe"
    by (auto simp: sample_unfold wq_new_simps pipe_ok_def saturating_add_def usize_range_def wadd_def intro!: wq_register_ok)
  have reg: "bt_get (registrations (waiters sample_pipe)) 1 = Some \<lparr>wr_events = POLL_READ, wr_listener = 42\<rparr>"
    by (simp add: sample_unfold wq_new_simps wq_register_def)
  have shape: "readers (inner sample_pipe) = 1" "writers (inner sample_pipe) = 1" "bytes (inner sample_pipe) = []"
    by (simp_all add: sample_unfold saturating_add_def usize_range_def)
  have p': "bytes (inner p') = [7]"
    using arg_cong [OF run, of snd] shape by (auto simp: pipe_write_eq PIPE_CAPACITY_def Let_def case_prod_unfold)
  have "wr_listener \<lparr>wr_events = POLL_READ, wr_listener = 42\<rparr> \<in> fst ` set ws"
    by (rule pipe_no_lost_wakeup [OF ok reg, where k = ReadEnd and n = 0, OF _ _ _ run])
      (use p' shape in \<open>simp_all add: poll_bits bit_poll\<close>)
  then show ?thesis using run by auto
qed

section \<open>Event counters\<close>

text \<open>
  C33: Nothing is lost or made up in an event counter: after any sequence of reads and writes,
  successful or not, the initial value and what the writes put in are what the counter holds and
  what the reads returned, and the counter never passes its maximum.
\<close>

theorem eventfd_conserves:
  "unat initval + total put_in xs (create_eventfd initval flags) =
     efd_counter (eventfd_run xs (create_eventfd initval flags)) + total taken_out xs (create_eventfd initval flags) \<and>
   efd_counter (eventfd_run xs (create_eventfd initval flags)) \<le> EVENTFD_COUNTER_MAX"
  using eventfd_run_counts [OF create_eventfd_ok, of initval flags xs]
    eventfd_run_ok [OF create_eventfd_ok, of xs initval flags] by (simp add: create_eventfd_def eventfd_ok_def)

text \<open>
  C34: No wake-up of an event counter is lost: a listener registered for reading a zero
  counter, or for writing a full one, is woken by the time it can proceed.
\<close>

theorem eventfd_no_lost_wakeup:
  assumes "eventfd_ok f" "bt_get (registrations (efd_waiters f)) i = Some r" "bit (wr_events r) n" "n \<in> {0, 1}"
    and "\<not> bit (eventfd_poll (-1) f) n" "run_ops eventfd_apply xs f = (ws, f')" "bit (eventfd_poll (-1) f') n"
  shows "wr_listener r \<in> fst ` set ws"
  using assms by (intro eventfd.no_lost_wakeup)

theorem eventfd_no_lost_wakeup_witness:
  "\<exists>ws f'. run_ops eventfd_apply [EfdWrite [5, 0, 0, 0, 0, 0, 0, 0]]
     (snd (eventfd_register_waiter POLL_READ 42 (create_eventfd 0 0))) = (ws, f') \<and> 42 \<in> fst ` set ws"
proof -
  let ?f = "snd (eventfd_register_waiter POLL_READ 42 (create_eventfd 0 0))"
  obtain ws f' where run: "run_ops eventfd_apply [EfdWrite [5, 0, 0, 0, 0, 0, 0, 0]] ?f = (ws, f')" by force
  have ok: "eventfd_ok ?f"
    by (simp add: eventfd_register_waiter_def wq_register_def create_eventfd_def eventfd_ok_def wq_new_def wq_ok_def bt_ok_def
        wadd_def usize_range_def)
  have reg: "bt_get (registrations (efd_waiters ?f)) 1 = Some \<lparr>wr_events = POLL_READ, wr_listener = 42\<rparr>"
    by (simp add: eventfd_register_waiter_def wq_register_def create_eventfd_def wq_new_def)
  have c: "efd_counter ?f = 0" by (simp add: eventfd_register_waiter_def wq_register_def create_eventfd_def)
  have v: "unat (of_le_bytes [5, 0, 0, 0, 0, 0, 0, 0] :: 64 word) = 5" by simp
  have "efd_counter f' = 5"
    using arg_cong [OF run, of snd] by (auto simp: eventfd_write_eq [OF ok] c v EVENTFD_COUNTER_MAX_def usize_range_def Let_def case_prod_unfold)
  then have "wr_listener \<lparr>wr_events = POLL_READ, wr_listener = 42\<rparr> \<in> fst ` set ws"
    by (intro eventfd_no_lost_wakeup [OF ok reg, where n = 0, OF _ _ _ run]) (simp_all add: poll_bits bit_efd_poll c)
  then show ?thesis using run by auto
qed

end
