(* ===== verification/Errno.thy ===== *)
theory Errno
  imports Paging Wait_Queue
begin

text \<open>
  The error numbers of \<open>aether-kernel/src/errno.rs\<close>: the enumeration \<open>SysErr\<close>, its Linux codes in
  both directions, and the conversions from the errors of the file layer, the graphics layer
  and the construction of address spaces. The
  variants are kept in six blocks of consecutive variants, and the match arms of \<open>from_code\<close> are a table.
\<close>

section \<open>Error numbers\<close>

datatype base_err =
  EPerm | ENoEnt | ESrch | EIntr | EIo | ENxio | ETooBig | ENoExec | EBadFd | EChild | EAgain | ENoMem | EAccess
  | EFault | ENotBlk | EBusy | EExists | EXDev | ENoDev | ENotDir | EIsDir | EInval | ENFile | EMFile | ENoTty
  | ETxtBsy | EFBig | ENoSpc | ESPipe | ERoFs | EMLink | EPipe | EDom | ERange

datatype proto_err =
  EDeadLk | ENameTooLong | ENoLck | ENoSys | ENotEmpty | ELoop | ENoMsg | EIdRm | EChrng | EL2Nsyc | EL3Hlt | EL3Rst
  | ELnRng | EUnatch | ENoCsi | EL2Hlt | EBade | EBadr | EXFull | ENoAno

datatype link_err =
  EBadRqc | EBadSlt | EDeadLock | EBfont | ENoStr | ENoData | ETime | ENoSr | ENoNet | ENoPkg | ERemote | ENoLink
  | EAdv | ESrMnt | EComm | EProto | EMultiHop | EDotDot | EBadMsg

datatype sock_err =
  EOverflow | ENotUniq | EBadFdState | ERemChg | ELibAcc | ELibBad | ELibScn | ELibMax | ELibExec | EIlSeq | ERestart
  | EStrPipe | EUsers | ENotSock | EDestAddrReq | EMsgSize | EProtoType | ENoProtoOpt | EProtoNoSupport
  | ESockTNoSupport

datatype net_err =
  ENotSup | EPfNoSupport | EAfNoSupport | EAddrInUse | EAddrNotAvail | ENetDown | ENetUnreach | ENetReset
  | EConnAborted | EConnReset | ENoBufs | EIsConn | ENotConn | EShutdown | ETooManyRefs | ETimedOut | EConnRefused
  | EHostDown | EHostUnreach | EAlready

datatype late_err =
  EInProgress | EStale | EUclean | ENotNam | ENavail | EIsNam | ERemoteIo | EDQuot | ENoMedium | EMediumType
  | ECanceled | ENoKey | EKeyExpired | EKeyRevoked | EKeyRejected | EOwnerDead | ENotRecoverable | ERfKill | EHwPoison

datatype sys_err = Base base_err | Proto proto_err | Link link_err | Sock sock_err | Net net_err | Late late_err

primrec base_code :: "base_err \<Rightarrow> int" where
  "base_code EPerm = 1"
| "base_code ENoEnt = 2"
| "base_code ESrch = 3"
| "base_code EIntr = 4"
| "base_code EIo = 5"
| "base_code ENxio = 6"
| "base_code ETooBig = 7"
| "base_code ENoExec = 8"
| "base_code EBadFd = 9"
| "base_code EChild = 10"
| "base_code EAgain = 11"
| "base_code ENoMem = 12"
| "base_code EAccess = 13"
| "base_code EFault = 14"
| "base_code ENotBlk = 15"
| "base_code EBusy = 16"
| "base_code EExists = 17"
| "base_code EXDev = 18"
| "base_code ENoDev = 19"
| "base_code ENotDir = 20"
| "base_code EIsDir = 21"
| "base_code EInval = 22"
| "base_code ENFile = 23"
| "base_code EMFile = 24"
| "base_code ENoTty = 25"
| "base_code ETxtBsy = 26"
| "base_code EFBig = 27"
| "base_code ENoSpc = 28"
| "base_code ESPipe = 29"
| "base_code ERoFs = 30"
| "base_code EMLink = 31"
| "base_code EPipe = 32"
| "base_code EDom = 33"
| "base_code ERange = 34"

primrec proto_code :: "proto_err \<Rightarrow> int" where
  "proto_code EDeadLk = 35"
| "proto_code ENameTooLong = 36"
| "proto_code ENoLck = 37"
| "proto_code ENoSys = 38"
| "proto_code ENotEmpty = 39"
| "proto_code ELoop = 40"
| "proto_code ENoMsg = 42"
| "proto_code EIdRm = 43"
| "proto_code EChrng = 44"
| "proto_code EL2Nsyc = 45"
| "proto_code EL3Hlt = 46"
| "proto_code EL3Rst = 47"
| "proto_code ELnRng = 48"
| "proto_code EUnatch = 49"
| "proto_code ENoCsi = 50"
| "proto_code EL2Hlt = 51"
| "proto_code EBade = 52"
| "proto_code EBadr = 53"
| "proto_code EXFull = 54"
| "proto_code ENoAno = 55"

primrec link_code :: "link_err \<Rightarrow> int" where
  "link_code EBadRqc = 56"
| "link_code EBadSlt = 57"
| "link_code EDeadLock = 58"
| "link_code EBfont = 59"
| "link_code ENoStr = 60"
| "link_code ENoData = 61"
| "link_code ETime = 62"
| "link_code ENoSr = 63"
| "link_code ENoNet = 64"
| "link_code ENoPkg = 65"
| "link_code ERemote = 66"
| "link_code ENoLink = 67"
| "link_code EAdv = 68"
| "link_code ESrMnt = 69"
| "link_code EComm = 70"
| "link_code EProto = 71"
| "link_code EMultiHop = 72"
| "link_code EDotDot = 73"
| "link_code EBadMsg = 74"

primrec sock_code :: "sock_err \<Rightarrow> int" where
  "sock_code EOverflow = 75"
| "sock_code ENotUniq = 76"
| "sock_code EBadFdState = 77"
| "sock_code ERemChg = 78"
| "sock_code ELibAcc = 79"
| "sock_code ELibBad = 80"
| "sock_code ELibScn = 81"
| "sock_code ELibMax = 82"
| "sock_code ELibExec = 83"
| "sock_code EIlSeq = 84"
| "sock_code ERestart = 85"
| "sock_code EStrPipe = 86"
| "sock_code EUsers = 87"
| "sock_code ENotSock = 88"
| "sock_code EDestAddrReq = 89"
| "sock_code EMsgSize = 90"
| "sock_code EProtoType = 91"
| "sock_code ENoProtoOpt = 92"
| "sock_code EProtoNoSupport = 93"
| "sock_code ESockTNoSupport = 94"

primrec net_code :: "net_err \<Rightarrow> int" where
  "net_code ENotSup = 95"
| "net_code EPfNoSupport = 96"
| "net_code EAfNoSupport = 97"
| "net_code EAddrInUse = 98"
| "net_code EAddrNotAvail = 99"
| "net_code ENetDown = 100"
| "net_code ENetUnreach = 101"
| "net_code ENetReset = 102"
| "net_code EConnAborted = 103"
| "net_code EConnReset = 104"
| "net_code ENoBufs = 105"
| "net_code EIsConn = 106"
| "net_code ENotConn = 107"
| "net_code EShutdown = 108"
| "net_code ETooManyRefs = 109"
| "net_code ETimedOut = 110"
| "net_code EConnRefused = 111"
| "net_code EHostDown = 112"
| "net_code EHostUnreach = 113"
| "net_code EAlready = 114"

primrec late_code :: "late_err \<Rightarrow> int" where
  "late_code EInProgress = 115"
| "late_code EStale = 116"
| "late_code EUclean = 117"
| "late_code ENotNam = 118"
| "late_code ENavail = 119"
| "late_code EIsNam = 120"
| "late_code ERemoteIo = 121"
| "late_code EDQuot = 122"
| "late_code ENoMedium = 123"
| "late_code EMediumType = 124"
| "late_code ECanceled = 125"
| "late_code ENoKey = 126"
| "late_code EKeyExpired = 127"
| "late_code EKeyRevoked = 128"
| "late_code EKeyRejected = 129"
| "late_code EOwnerDead = 130"
| "late_code ENotRecoverable = 131"
| "late_code ERfKill = 132"
| "late_code EHwPoison = 133"

primrec err_code :: "sys_err \<Rightarrow> int" where
  "err_code (Base e) = base_code e"
| "err_code (Proto e) = proto_code e"
| "err_code (Link e) = link_code e"
| "err_code (Sock e) = sock_code e"
| "err_code (Net e) = net_code e"
| "err_code (Late e) = late_code e"

definition errno :: "sys_err \<Rightarrow> int" where
  "errno e = - err_code e"

definition from_code :: "int \<Rightarrow> sys_err option" where
  "from_code = map_of [
     (1, Base EPerm), (2, Base ENoEnt), (3, Base ESrch), (4, Base EIntr), (5, Base EIo), (6, Base ENxio)
     , (7, Base ETooBig), (8, Base ENoExec), (9, Base EBadFd), (10, Base EChild), (11, Base EAgain), (12, Base ENoMem)
     , (13, Base EAccess), (14, Base EFault), (15, Base ENotBlk), (16, Base EBusy), (17, Base EExists)
     , (18, Base EXDev), (19, Base ENoDev), (20, Base ENotDir), (21, Base EIsDir), (22, Base EInval)
     , (23, Base ENFile), (24, Base EMFile), (25, Base ENoTty), (26, Base ETxtBsy), (27, Base EFBig)
     , (28, Base ENoSpc), (29, Base ESPipe), (30, Base ERoFs), (31, Base EMLink), (32, Base EPipe), (33, Base EDom)
     , (34, Base ERange), (35, Proto EDeadLk), (36, Proto ENameTooLong), (37, Proto ENoLck), (38, Proto ENoSys)
     , (39, Proto ENotEmpty), (40, Proto ELoop), (42, Proto ENoMsg), (43, Proto EIdRm), (44, Proto EChrng)
     , (45, Proto EL2Nsyc), (46, Proto EL3Hlt), (47, Proto EL3Rst), (48, Proto ELnRng), (49, Proto EUnatch)
     , (50, Proto ENoCsi), (51, Proto EL2Hlt), (52, Proto EBade), (53, Proto EBadr), (54, Proto EXFull)
     , (55, Proto ENoAno), (56, Link EBadRqc), (57, Link EBadSlt), (58, Link EDeadLock), (59, Link EBfont)
     , (60, Link ENoStr), (61, Link ENoData), (62, Link ETime), (63, Link ENoSr), (64, Link ENoNet), (65, Link ENoPkg)
     , (66, Link ERemote), (67, Link ENoLink), (68, Link EAdv), (69, Link ESrMnt), (70, Link EComm), (71, Link EProto)
     , (72, Link EMultiHop), (73, Link EDotDot), (74, Link EBadMsg), (75, Sock EOverflow), (76, Sock ENotUniq)
     , (77, Sock EBadFdState), (78, Sock ERemChg), (79, Sock ELibAcc), (80, Sock ELibBad), (81, Sock ELibScn)
     , (82, Sock ELibMax), (83, Sock ELibExec), (84, Sock EIlSeq), (85, Sock ERestart), (86, Sock EStrPipe)
     , (87, Sock EUsers), (88, Sock ENotSock), (89, Sock EDestAddrReq), (90, Sock EMsgSize), (91, Sock EProtoType)
     , (92, Sock ENoProtoOpt), (93, Sock EProtoNoSupport), (94, Sock ESockTNoSupport), (95, Net ENotSup)
     , (96, Net EPfNoSupport), (97, Net EAfNoSupport), (98, Net EAddrInUse), (99, Net EAddrNotAvail)
     , (100, Net ENetDown), (101, Net ENetUnreach), (102, Net ENetReset), (103, Net EConnAborted)
     , (104, Net EConnReset), (105, Net ENoBufs), (106, Net EIsConn), (107, Net ENotConn), (108, Net EShutdown)
     , (109, Net ETooManyRefs), (110, Net ETimedOut), (111, Net EConnRefused), (112, Net EHostDown)
     , (113, Net EHostUnreach), (114, Net EAlready), (115, Late EInProgress), (116, Late EStale), (117, Late EUclean)
     , (118, Late ENotNam), (119, Late ENavail), (120, Late EIsNam), (121, Late ERemoteIo), (122, Late EDQuot)
     , (123, Late ENoMedium), (124, Late EMediumType), (125, Late ECanceled), (126, Late ENoKey)
     , (127, Late EKeyExpired), (128, Late EKeyRevoked), (129, Late EKeyRejected), (130, Late EOwnerDead)
     , (131, Late ENotRecoverable), (132, Late ERfKill), (133, Late EHwPoison)]"

section \<open>Conversions\<close>

fun of_fs_error :: "fs_error \<Rightarrow> sys_err" where
  "of_fs_error NotFound = Base ENoEnt"
| "of_fs_error NotDirectory = Base ENotDir"
| "of_fs_error NotFile = Base EInval"
| "of_fs_error AlreadyExists = Base EExists"
| "of_fs_error Unsupported = Net ENotSup"
| "of_fs_error Io = Base EIo"
| "of_fs_error PermissionDenied = Base EAccess"
| "of_fs_error InvalidInput = Base EInval"
| "of_fs_error RootNotMounted = Base EInval"
| "of_fs_error WouldBlock = Base EAgain"
| "of_fs_error BrokenPipe = Base EPipe"

datatype drm_ioctl_error = DrmInvalid | DrmNotFound | DrmBusy | DrmPermission | DrmNotSupported | DrmNoMemory

fun of_drm_error :: "drm_ioctl_error \<Rightarrow> sys_err" where
  "of_drm_error DrmInvalid = Base EInval"
| "of_drm_error DrmNotFound = Base ENoEnt"
| "of_drm_error DrmBusy = Base EBusy"
| "of_drm_error DrmPermission = Base EPerm"
| "of_drm_error DrmNotSupported = Net ENotSup"
| "of_drm_error DrmNoMemory = Base ENoMem"

datatype image_error = UnexpectedEof | ImageInvalidElf | ImageUnsupportedElf | ReadFailure

datatype build_error = EmptyProgram | AddressOverflow | StackOverflow | InvalidElf | UnsupportedElf
  | Image image_error | Map mapping_error | BuildFrame frame_alloc_error

fun of_build_error :: "build_error \<Rightarrow> sys_err" where
  "of_build_error (BuildFrame _) = Base ENoMem"
| "of_build_error (Map e) = (case e of
     MapOutOfMemory \<Rightarrow> Base ENoMem | Frame _ \<Rightarrow> Base ENoMem | AlreadyMapped \<Rightarrow> Base EExists | NotMapped \<Rightarrow> Base EFault | _ \<Rightarrow> Base EInval)"
| "of_build_error AddressOverflow = Base EInval"
| "of_build_error StackOverflow = Base EInval"
| "of_build_error InvalidElf = Base EInval"
| "of_build_error UnsupportedElf = Base EInval"
| "of_build_error (Image _) = Base EInval"
| "of_build_error EmptyProgram = Base EInval"

section \<open>The two directions agree\<close>

lemma from_code_code: "from_code (err_code e) = Some e"
proof (cases e)
  case (Base b) then show ?thesis unfolding from_code_def by (cases b) simp_all
next
  case (Proto b) then show ?thesis unfolding from_code_def by (cases b) simp_all
next
  case (Link b) then show ?thesis unfolding from_code_def by (cases b) simp_all
next
  case (Sock b) then show ?thesis unfolding from_code_def by (cases b) simp_all
next
  case (Net b) then show ?thesis unfolding from_code_def by (cases b) simp_all
next
  case (Late b) then show ?thesis unfolding from_code_def by (cases b) simp_all
qed

lemma from_code_Some: "from_code c = Some e \<Longrightarrow> err_code e = c"
  unfolding from_code_def by (drule map_of_SomeD) auto

lemma err_code_range: "1 \<le> err_code e \<and> err_code e \<le> 133"
proof (cases e)
  case (Base b) then show ?thesis by (cases b) simp_all
next
  case (Proto b) then show ?thesis by (cases b) simp_all
next
  case (Link b) then show ?thesis by (cases b) simp_all
next
  case (Sock b) then show ?thesis by (cases b) simp_all
next
  case (Net b) then show ?thesis by (cases b) simp_all
next
  case (Late b) then show ?thesis by (cases b) simp_all
qed

end
