(* ===== verification/Signals.thy ===== *)
theory Signals
  imports Errno
begin

text \<open>
  Signals: the constants and structures of \<open>aether-kernel/src/signal/abi.rs\<close>, the decision what a
  signal does (\<open>signal/core.rs\<close>) and the state of a thread (\<open>signal/state.rs\<close>). Threads of one
  process share one table of actions through an \<open>Arc\<close>, a forked process has a copy, so the
  tables are kept in a store and a state holds the address of its table. Arrays have the fixed
  length that their Rust types give them, which the invariants state.
\<close>

section \<open>Constants and structures\<close>

type_synonym sig_set = "64 word"
type_synonym signo = nat

definition SIGNAL_MAX :: nat where [simp]: "SIGNAL_MAX = 64"
definition SIGHUP :: signo where [simp]: "SIGHUP = 1"
definition SIGINT :: signo where [simp]: "SIGINT = 2"
definition SIGQUIT :: signo where [simp]: "SIGQUIT = 3"
definition SIGILL :: signo where [simp]: "SIGILL = 4"
definition SIGTRAP :: signo where [simp]: "SIGTRAP = 5"
definition SIGABRT :: signo where [simp]: "SIGABRT = 6"
definition SIGBUS :: signo where [simp]: "SIGBUS = 7"
definition SIGFPE :: signo where [simp]: "SIGFPE = 8"
definition SIGKILL :: signo where [simp]: "SIGKILL = 9"
definition SIGUSR1 :: signo where [simp]: "SIGUSR1 = 10"
definition SIGSEGV :: signo where [simp]: "SIGSEGV = 11"
definition SIGUSR2 :: signo where [simp]: "SIGUSR2 = 12"
definition SIGPIPE :: signo where [simp]: "SIGPIPE = 13"
definition SIGALRM :: signo where [simp]: "SIGALRM = 14"
definition SIGTERM :: signo where [simp]: "SIGTERM = 15"
definition SIGCHLD :: signo where [simp]: "SIGCHLD = 17"
definition SIGCONT :: signo where [simp]: "SIGCONT = 18"
definition SIGSTOP :: signo where [simp]: "SIGSTOP = 19"
definition SIGTSTP :: signo where [simp]: "SIGTSTP = 20"
definition SIGTTIN :: signo where [simp]: "SIGTTIN = 21"
definition SIGTTOU :: signo where [simp]: "SIGTTOU = 22"
definition SIGURG :: signo where [simp]: "SIGURG = 23"
definition SIGXCPU :: signo where [simp]: "SIGXCPU = 24"
definition SIGXFSZ :: signo where [simp]: "SIGXFSZ = 25"
definition SIGVTALRM :: signo where [simp]: "SIGVTALRM = 26"
definition SIGPROF :: signo where [simp]: "SIGPROF = 27"
definition SIGWINCH :: signo where [simp]: "SIGWINCH = 28"
definition SIGIO :: signo where [simp]: "SIGIO = 29"
definition SIGPWR :: signo where [simp]: "SIGPWR = 30"
definition SIGSYS :: signo where [simp]: "SIGSYS = 31"

definition SIG_BLOCK :: "64 word" where [simp]: "SIG_BLOCK = 0"
definition SIG_UNBLOCK :: "64 word" where [simp]: "SIG_UNBLOCK = 1"
definition SIG_SETMASK :: "64 word" where [simp]: "SIG_SETMASK = 2"
definition SIG_DFL :: "64 word" where [simp]: "SIG_DFL = 0"
definition SIG_IGN :: "64 word" where [simp]: "SIG_IGN = 1"
definition SA_ONSTACK :: "64 word" where "SA_ONSTACK = 0x08000000"
definition SS_ONSTACK :: "32 word" where "SS_ONSTACK = 1"
definition SS_DISABLE :: "32 word" where "SS_DISABLE = 2"
definition SS_AUTODISARM :: "32 word" where "SS_AUTODISARM = 0x80000000"
definition MINSIGSTKSZ :: "64 word" where "MINSIGSTKSZ = 2048"
definition CLD_EXITED :: "32 word" where "CLD_EXITED = 1"
definition CLD_KILLED :: "32 word" where "CLD_KILLED = 2"
definition CLD_STOPPED :: "32 word" where "CLD_STOPPED = 5"
definition CLD_CONTINUED :: "32 word" where "CLD_CONTINUED = 6"

record signal_info =
  si_signal :: signo
  si_code :: "32 word"
  si_status :: "32 word"
  si_pid :: "32 word"
  si_uid :: "32 word"

definition child_exit :: "32 word \<Rightarrow> 32 word \<Rightarrow> signal_info" where
  "child_exit pid status =
     (let (c, st) = if 128 \<le> sint status then (CLD_KILLED, status - 128) else (CLD_EXITED, status)
      in \<lparr>si_signal = SIGCHLD, si_code = c, si_status = st, si_pid = pid, si_uid = 0\<rparr>)"

definition child_stop :: "32 word \<Rightarrow> signo \<Rightarrow> signal_info" where
  "child_stop pid signal =
     \<lparr>si_signal = SIGCHLD, si_code = CLD_STOPPED, si_status = of_nat signal, si_pid = pid, si_uid = 0\<rparr>"

definition child_continue :: "32 word \<Rightarrow> signal_info" where
  "child_continue pid = \<lparr>si_signal = SIGCHLD, si_code = CLD_CONTINUED, si_status = 0, si_pid = pid, si_uid = 0\<rparr>"

definition kernel_info :: "signo \<Rightarrow> 32 word \<Rightarrow> signal_info" where
  "kernel_info signal c = \<lparr>si_signal = signal, si_code = c, si_status = 0, si_pid = 0, si_uid = 0\<rparr>"

record signal_action =
  handler :: "64 word"
  sa_flags :: "64 word"
  restorer :: "64 word"
  sa_mask :: sig_set

definition default_for :: "signo \<Rightarrow> signal_action" where
  "default_for signal = \<lparr>handler = SIG_DFL, sa_flags = 0, restorer = 0, sa_mask = 0\<rparr>"

definition sigbit :: "signo \<Rightarrow> sig_set" where
  "sigbit signal = (if signal = 0 \<or> signal > SIGNAL_MAX then 0 else push_bit (signal - 1) 1)"

record signal_stack =
  ss_sp :: "64 word"
  ss_flags :: "32 word"
  ss_pad :: "32 word"
  ss_size :: "64 word"

definition stack_disabled :: signal_stack where
  "stack_disabled = \<lparr>ss_sp = 0, ss_flags = SS_DISABLE, ss_pad = 0, ss_size = 0\<rparr>"

subsection \<open>Structures in user memory\<close>

definition read_u64 :: "byte list \<Rightarrow> usize \<Rightarrow> 64 word option" where
  "read_u64 bs offset = map_option of_le_bytes (slice_at bs offset 8)"

definition read_i32 :: "byte list \<Rightarrow> usize \<Rightarrow> 32 word option" where
  "read_i32 bs offset = map_option of_le_bytes (slice_at bs offset 4)"

definition parse_sigaction :: "byte list \<Rightarrow> signal_action option" where
  "parse_sigaction bs = (if length bs < 32 then None else do {
     h \<leftarrow> read_u64 bs 0; f \<leftarrow> read_u64 bs 8; r \<leftarrow> read_u64 bs 16; m \<leftarrow> read_u64 bs 24;
     Some \<lparr>handler = h, sa_flags = f, restorer = r, sa_mask = m\<rparr>})"

definition serialize_sigaction :: "signal_action \<Rightarrow> byte list" where
  "serialize_sigaction a = le_bytes 8 (handler a) @ le_bytes 8 (sa_flags a) @ le_bytes 8 (restorer a) @ le_bytes 8 (sa_mask a)"

definition parse_signal_stack :: "byte list \<Rightarrow> signal_stack option" where
  "parse_signal_stack bs = (if length bs < 24 then None else do {
     p \<leftarrow> read_u64 bs 0; f \<leftarrow> read_i32 bs 8; d \<leftarrow> read_i32 bs 12; z \<leftarrow> read_u64 bs 16;
     Some \<lparr>ss_sp = p, ss_flags = f, ss_pad = d, ss_size = z\<rparr>})"

definition serialize_signal_stack :: "signal_stack \<Rightarrow> byte list" where
  "serialize_signal_stack s = le_bytes 8 (ss_sp s) @ le_bytes 4 (ss_flags s) @ le_bytes 4 (ss_pad s) @ le_bytes 8 (ss_size s)"

subsection \<open>The alternate stack\<close>

definition signal_stack_base :: "signal_stack \<Rightarrow> 64 word" where
  "signal_stack_base s = ss_sp s"

definition altstack_disable :: "signal_stack \<Rightarrow> signal_stack" where
  "altstack_disable s = stack_disabled"

definition altstack_config_enabled :: "signal_stack \<Rightarrow> bool" where
  "altstack_config_enabled s \<longleftrightarrow> ss_flags s AND SS_DISABLE = 0 \<and> ss_size s > 0"

definition checked_add_u64 :: "64 word \<Rightarrow> 64 word \<Rightarrow> 64 word option" where
  "checked_add_u64 a b = (if unat a + unat b < 2 ^ 64 then Some (a + b) else None)"

definition altstack_contains_sp :: "signal_stack \<Rightarrow> 64 word \<Rightarrow> bool" where
  "altstack_contains_sp s sp \<longleftrightarrow> altstack_config_enabled s \<and>
     (case checked_add_u64 (signal_stack_base s) (ss_size s) of
        None \<Rightarrow> False | Some stack_end \<Rightarrow> signal_stack_base s \<le> sp \<and> sp < stack_end)"

definition altstack_status_flags :: "signal_stack \<Rightarrow> 64 word \<Rightarrow> 32 word" where
  "altstack_status_flags s sp =
     (if \<not> altstack_config_enabled s then SS_DISABLE
      else let flags = ss_flags s AND SS_AUTODISARM
        in if altstack_contains_sp s sp then flags OR SS_ONSTACK else flags)"

definition altstack_format_old :: "signal_stack \<Rightarrow> 64 word \<Rightarrow> signal_stack" where
  "altstack_format_old s sp = s\<lparr>ss_flags := altstack_status_flags s sp\<rparr>"

definition altstack_validate_new :: "signal_stack \<Rightarrow> (sys_err, unit) result" where
  "altstack_validate_new s =
     (if ss_flags s AND SS_DISABLE \<noteq> 0 then Ok ()
      else if ss_flags s AND NOT (SS_ONSTACK OR SS_AUTODISARM) \<noteq> 0 then Err (Base EInval)
      else if ss_size s < MINSIGSTKSZ then Err (Base ENoMem)
      else Ok ())"

definition altstack_store :: "signal_stack \<Rightarrow> signal_stack \<Rightarrow> signal_stack" where
  "altstack_store dst source =
     (if ss_flags source AND SS_DISABLE \<noteq> 0 then altstack_disable dst
      else source\<lparr>ss_flags := (ss_flags source AND NOT SS_ONSTACK) AND SS_AUTODISARM\<rparr>)"

section \<open>What a signal does\<close>

datatype signal_default = Default_Ignore | Default_Terminate | Default_Stop | Default_Continue

datatype signal_delivery = No_Delivery | Ignored signal_info | Deliver signal_info signal_action
  | Exit signal_info | Stopped signal_info | Continued signal_info

definition default_action :: "signo \<Rightarrow> signal_default" where
  "default_action signal =
     (if signal \<in> {SIGCHLD, SIGURG, SIGWINCH} then Default_Ignore
      else if signal \<in> {SIGSTOP, SIGTSTP, SIGTTIN, SIGTTOU} then Default_Stop
      else if signal = SIGCONT then Default_Continue
      else Default_Terminate)"

definition sanitize_mask :: "sig_set \<Rightarrow> sig_set" where
  "sanitize_mask m = m AND NOT (sigbit SIGKILL OR sigbit SIGSTOP)"

definition is_blocked :: "sig_set \<Rightarrow> signo \<Rightarrow> bool" where
  "is_blocked m signal \<longleftrightarrow> m AND sigbit signal \<noteq> 0 \<and> signal \<noteq> SIGKILL \<and> signal \<noteq> SIGSTOP"

definition delivery_for :: "sig_set \<Rightarrow> signal_action \<Rightarrow> signal_info \<Rightarrow> bool \<Rightarrow> signal_delivery" where
  "delivery_for blocked action info handlers_supported =
     (if is_blocked blocked (si_signal info) then No_Delivery
      else if handler action = SIG_IGN then Ignored info
      else if handler action \<noteq> SIG_DFL then (if handlers_supported then Deliver info action else Exit info)
      else case default_action (si_signal info) of
        Default_Ignore \<Rightarrow> Ignored info
      | Default_Terminate \<Rightarrow> Exit info
      | Default_Stop \<Rightarrow> Stopped info
      | Default_Continue \<Rightarrow> Continued info)"

section \<open>The state of a thread\<close>

type_synonym action_store = "signal_action list list"

record signal_state =
  actions :: nat
  blocked :: sig_set
  pending :: "signal_info option list"
  suspend_mask :: "sig_set option"
  sig_altstack :: signal_stack
  sig_waiters :: wait_queue
  sig_version :: usize

definition no_pending :: "signal_info option list" where
  "no_pending = replicate (SIGNAL_MAX + 1) None"

definition state_from_parts :: "nat \<Rightarrow> sig_set \<Rightarrow> signal_stack \<Rightarrow> signal_state" where
  "state_from_parts acts b stack = \<lparr>actions = acts, blocked = b, pending = no_pending, suspend_mask = None,
     sig_altstack = stack, sig_waiters = wq_new, sig_version = 1\<rparr>"

text \<open>A new state allocates its table of actions at the end of the store.\<close>

definition signal_new :: "action_store \<Rightarrow> signal_state \<times> action_store" where
  "signal_new store = (state_from_parts (length store) 0 stack_disabled,
     store @ [default_for 0 # map default_for [1..<SIGNAL_MAX + 1]])"

definition clone_for_thread :: "signal_state \<Rightarrow> action_store \<Rightarrow> signal_state \<times> action_store" where
  "clone_for_thread st store = (state_from_parts (actions st) (blocked st) (sig_altstack st), store)"

definition fork_copy :: "signal_state \<Rightarrow> action_store \<Rightarrow> signal_state \<times> action_store" where
  "fork_copy st store = (state_from_parts (length store) (blocked st) (sig_altstack st), store @ [store ! actions st])"

definition sig_bump :: "signal_state \<Rightarrow> signal_state" where
  "sig_bump st = st\<lparr>sig_version := wadd (sig_version st) 1\<rparr>"

definition set_blocked_mask :: "sig_set \<Rightarrow> signal_state \<Rightarrow> signal_state" where
  "set_blocked_mask m st = st\<lparr>blocked := sanitize_mask m\<rparr>"

definition restore_mask :: "sig_set \<Rightarrow> signal_state \<Rightarrow> signal_state" where
  "restore_mask m st = st\<lparr>blocked := sanitize_mask m\<rparr>"

definition exec_action :: "signo \<Rightarrow> signal_action \<Rightarrow> signal_action" where
  "exec_action signal a = (if handler a \<noteq> SIG_DFL \<and> handler a \<noteq> SIG_IGN then default_for signal else a)"

definition prepare_for_exec :: "signal_state \<Rightarrow> action_store \<Rightarrow> signal_state \<times> action_store" where
  "prepare_for_exec st store =
     (let table = store ! actions st;
          table' = fold (\<lambda>signal t. t[signal := exec_action signal (t ! signal)]) [1..<SIGNAL_MAX + 1] table
      in (st\<lparr>suspend_mask := None, sig_altstack := altstack_disable (sig_altstack st)\<rparr>, store[actions st := table']))"

definition set_mask :: "64 word \<Rightarrow> sig_set \<Rightarrow> signal_state \<Rightarrow> signal_state" where
  "set_mask how s st =
     (if how = SIG_BLOCK then st\<lparr>blocked := blocked st OR sanitize_mask s\<rparr>
      else if how = SIG_UNBLOCK then st\<lparr>blocked := blocked st AND NOT (sanitize_mask s)\<rparr>
      else if how = SIG_SETMASK then st\<lparr>blocked := sanitize_mask s\<rparr>
      else st)"

definition get_action :: "signo \<Rightarrow> signal_state \<Rightarrow> action_store \<Rightarrow> signal_action option" where
  "get_action signal st store = at (store ! actions st) signal"

definition set_action :: "signo \<Rightarrow> signal_action \<Rightarrow> signal_state \<Rightarrow> action_store \<Rightarrow> bool \<times> action_store" where
  "set_action signal a st store =
     (if signal = 0 \<or> signal > SIGNAL_MAX \<or> signal = SIGKILL \<or> signal = SIGSTOP then (False, store)
      else (True, store[actions st := (store ! actions st)[signal := a]]))"

definition is_stop :: "signo \<Rightarrow> bool" where
  "is_stop signal \<longleftrightarrow> signal \<in> {SIGSTOP, SIGTSTP, SIGTTIN, SIGTTOU}"

definition enqueue :: "signal_info \<Rightarrow> signal_state \<Rightarrow> wakes \<times> signal_state" where
  "enqueue info st =
     (let i = si_signal info
      in if i = 0 \<or> i > SIGNAL_MAX then ([], st)
      else
        let pd = (if i = SIGCONT then
                    (pending st)[SIGSTOP := None, SIGTSTP := None, SIGTTIN := None, SIGTTOU := None]
                  else if is_stop i then (pending st)[SIGCONT := None]
                  else pending st);
            st1 = sig_bump (st\<lparr>pending := pd[i := Some info]\<rparr>);
            (ws, q) = wq_notify POLL_READ (sig_waiters st1)
        in (ws, st1\<lparr>sig_waiters := q\<rparr>))"

definition has_unblocked_pending :: "signal_state \<Rightarrow> bool" where
  "has_unblocked_pending st \<longleftrightarrow>
     list_ex (\<lambda>p. case p of None \<Rightarrow> False | Some info \<Rightarrow> \<not> is_blocked (blocked st) (si_signal info)) (pending st)"

text \<open>The loop that the scans of the pending signals share: the first signal from \<open>signal\<close> on that passes a test.\<close>

function scan :: "(signo \<Rightarrow> bool) \<Rightarrow> signo \<Rightarrow> signo option" where
  "scan P signal = (if signal \<le> SIGNAL_MAX then if P signal then Some signal else scan P (signal + 1) else None)"
  by pat_completeness auto
termination
  by (relation "measure (\<lambda>(P, signal). SIGNAL_MAX + 1 - signal)") auto

declare scan.simps [simp del]

definition delivery_at :: "signal_state \<Rightarrow> action_store \<Rightarrow> bool \<Rightarrow> signo \<Rightarrow> signal_delivery" where
  "delivery_at st store handlers_supported signal =
     (case pending st ! signal of
        None \<Rightarrow> No_Delivery
      | Some info \<Rightarrow> delivery_for (blocked st) (store ! actions st ! signal) info handlers_supported)"

definition has_deliverable :: "bool \<Rightarrow> signal_state \<Rightarrow> action_store \<Rightarrow> bool" where
  "has_deliverable hs st store \<longleftrightarrow> scan (\<lambda>signal. delivery_at st store hs signal \<noteq> No_Delivery) 1 \<noteq> None"

definition take_next_delivery :: "bool \<Rightarrow> signal_state \<Rightarrow> action_store \<Rightarrow> signal_delivery \<times> signal_state" where
  "take_next_delivery hs st store =
     (case scan (\<lambda>signal. delivery_at st store hs signal \<noteq> No_Delivery) 1 of
        None \<Rightarrow> (No_Delivery, st)
      | Some signal \<Rightarrow> (delivery_at st store hs signal, st\<lparr>pending := (pending st)[signal := None]\<rparr>))"

definition enter_sigsuspend :: "sig_set \<Rightarrow> signal_state \<Rightarrow> signal_state" where
  "enter_sigsuspend m st = st\<lparr>suspend_mask := Some (blocked st), blocked := sanitize_mask m\<rparr>"

definition leave_sigsuspend :: "signal_state \<Rightarrow> signal_state" where
  "leave_sigsuspend st =
     (case suspend_mask st of None \<Rightarrow> st | Some previous \<Rightarrow> st\<lparr>suspend_mask := None, blocked := previous\<rparr>)"

definition in_mask :: "sig_set \<Rightarrow> signal_info option \<Rightarrow> bool" where
  "in_mask masked p \<longleftrightarrow> (case p of None \<Rightarrow> False
     | Some info \<Rightarrow> sigbit (si_signal info) \<noteq> 0 \<and> masked AND sigbit (si_signal info) \<noteq> 0)"

definition has_pending_in_mask :: "sig_set \<Rightarrow> signal_state \<Rightarrow> bool" where
  "has_pending_in_mask m st \<longleftrightarrow> list_ex (in_mask (sanitize_mask m)) (pending st)"

definition take_pending_in_mask :: "sig_set \<Rightarrow> signal_state \<Rightarrow> signal_info option \<times> signal_state" where
  "take_pending_in_mask m st =
     (case scan (\<lambda>signal. in_mask (sanitize_mask m) (pending st ! signal)) 1 of
        None \<Rightarrow> (None, st)
      | Some signal \<Rightarrow> (pending st ! signal, sig_bump (st\<lparr>pending := (pending st)[signal := None]\<rparr>)))"

definition get_altstack :: "64 word \<Rightarrow> signal_state \<Rightarrow> signal_stack" where
  "get_altstack user_sp st = altstack_format_old (sig_altstack st) user_sp"

definition set_altstack :: "signal_stack option \<Rightarrow> 64 word \<Rightarrow> signal_state \<Rightarrow> (sys_err, signal_stack) result \<times> signal_state" where
  "set_altstack new_stack user_sp st =
     (let old_stack = altstack_format_old (sig_altstack st) user_sp
      in case new_stack of
        None \<Rightarrow> (Ok old_stack, st)
      | Some stack \<Rightarrow>
          (case altstack_validate_new stack of
             Err e \<Rightarrow> (Err e, st)
           | Ok _ \<Rightarrow>
               if ss_flags old_stack AND SS_ONSTACK \<noteq> 0 then (Err (Base EPerm), st)
               else (Ok old_stack, st\<lparr>sig_altstack := altstack_store (sig_altstack st) stack\<rparr>)))"

definition restore_after_sigreturn :: "sig_set \<Rightarrow> signal_stack \<Rightarrow> signal_state \<Rightarrow> signal_state" where
  "restore_after_sigreturn m stack st =
     st\<lparr>blocked := sanitize_mask m, sig_altstack := altstack_store (sig_altstack st) stack\<rparr>"

definition should_use_altstack :: "64 word \<Rightarrow> 64 word \<Rightarrow> signal_state \<Rightarrow> bool" where
  "should_use_altstack action_flags user_sp st \<longleftrightarrow> action_flags AND SA_ONSTACK \<noteq> 0
     \<and> altstack_config_enabled (sig_altstack st) \<and> \<not> altstack_contains_sp (sig_altstack st) user_sp"

definition altstack_top :: "signal_state \<Rightarrow> 64 word option" where
  "altstack_top st = checked_add_u64 (signal_stack_base (sig_altstack st)) (ss_size (sig_altstack st))"

definition arm_altstack :: "signal_state \<Rightarrow> signal_state" where
  "arm_altstack st = (if ss_flags (sig_altstack st) AND SS_AUTODISARM \<noteq> 0
     then st\<lparr>sig_altstack := altstack_disable (sig_altstack st)\<rparr> else st)"

definition sig_register_waiter :: "listener \<Rightarrow> signal_state \<Rightarrow> usize \<times> signal_state" where
  "sig_register_waiter l st = (let (i, q) = wq_register POLL_READ l (sig_waiters st) in (i, st\<lparr>sig_waiters := q\<rparr>))"

definition sig_unregister_waiter :: "usize \<Rightarrow> signal_state \<Rightarrow> bool \<times> signal_state" where
  "sig_unregister_waiter i st = (let (b, q) = wq_unregister i (sig_waiters st) in (b, st\<lparr>sig_waiters := q\<rparr>))"

definition sig_notify_waiters :: "signal_state \<Rightarrow> wakes \<times> signal_state" where
  "sig_notify_waiters st = (let (ws, q) = wq_notify POLL_READ (sig_waiters st) in (ws, st\<lparr>sig_waiters := q\<rparr>))"

definition has_waitable_child_signal :: "signal_state \<Rightarrow> bool" where
  "has_waitable_child_signal st \<longleftrightarrow>
     (case pending st ! SIGCHLD of None \<Rightarrow> False | Some info \<Rightarrow> si_signal info = SIGCHLD)"

end
