(* ===== verification/Signal_Delivery.thy ===== *)
theory Signal_Delivery
  imports Signals
begin

text \<open>
  What holds of signals: the invariant of the threads and their tables of actions, kept by every
  operation of \<open>signal/state.rs\<close>; the order of delivery; the round trips of the structures that
  user memory holds; and the queue of a signal descriptor (\<open>signal/fd.rs\<close>).
\<close>

section \<open>Masks\<close>

lemma bit_sigbit: "bit (sigbit s) n \<longleftrightarrow> 1 \<le> s \<and> s \<le> 64 \<and> n = s - 1"
  by (auto simp: sigbit_def bit_simps)

lemma and_sigbit: "m AND sigbit s \<noteq> 0 \<longleftrightarrow> 1 \<le> s \<and> s \<le> 64 \<and> bit m (s - 1)"
  unfolding bit_eq_iff [of "m AND sigbit s"] by (auto simp: bit_and_iff bit_sigbit)

lemma bit_sanitize: "bit (sanitize_mask m) n \<longleftrightarrow> bit m n \<and> n \<noteq> 8 \<and> n \<noteq> 18"
proof -
  have "bit m n \<Longrightarrow> n < 64" using bit_imp_le_length [of m n] by simp
  then show ?thesis by (auto simp: sanitize_mask_def bit_simps bit_sigbit)
qed

lemma is_blocked_iff: "is_blocked m s \<longleftrightarrow> 1 \<le> s \<and> s \<le> 64 \<and> bit m (s - 1) \<and> s \<noteq> 9 \<and> s \<noteq> 19"
  unfolding is_blocked_def and_sigbit by auto

lemma delivery_for_none: "delivery_for b a info hs = No_Delivery \<longleftrightarrow> is_blocked b (si_signal info)"
  by (auto simp: delivery_for_def split: signal_default.splits)

section \<open>The invariant\<close>

definition mask_ok :: "sig_set \<Rightarrow> bool" where
  "mask_ok m \<longleftrightarrow> \<not> bit m 8 \<and> \<not> bit m 18"

definition table_ok :: "signal_action list \<Rightarrow> bool" where
  "table_ok t \<longleftrightarrow> length t = 65 \<and> t ! 9 = default_for 9 \<and> t ! 19 = default_for 19"

definition pending_ok :: "signal_info option list \<Rightarrow> bool" where
  "pending_ok p \<longleftrightarrow> length p = 65 \<and> p ! 0 = None \<and> (\<forall>i info. i < 65 \<longrightarrow> p ! i = Some info \<longrightarrow> si_signal info = i)
     \<and> (p ! 18 \<noteq> None \<longrightarrow> p ! 19 = None \<and> p ! 20 = None \<and> p ! 21 = None \<and> p ! 22 = None)"

definition sig_ok :: "action_store \<Rightarrow> signal_state \<Rightarrow> bool" where
  "sig_ok store st \<longleftrightarrow> actions st < length store \<and> mask_ok (blocked st)
     \<and> (\<forall>m. suspend_mask st = Some m \<longrightarrow> mask_ok m) \<and> pending_ok (pending st)"

definition store_ok :: "action_store \<Rightarrow> bool" where
  "store_ok store \<longleftrightarrow> (\<forall>t \<in> set store. table_ok t)"

lemma mask_ok_simps [simp]:
  "mask_ok 0" "mask_ok (sanitize_mask m)" "mask_ok a \<Longrightarrow> mask_ok b \<Longrightarrow> mask_ok (a OR b)" "mask_ok a \<Longrightarrow> mask_ok (a AND b)"
  by (auto simp: mask_ok_def bit_sanitize bit_simps)

lemma no_pending_ok [simp]: "pending_ok no_pending"
  by (simp add: pending_ok_def no_pending_def)

lemma pending_ok_clear: "pending_ok p \<Longrightarrow> pending_ok (p[i := None])"
  by (cases "i < 65") (auto simp: pending_ok_def nth_list_update)

lemma pending_ok_set:
  assumes "pending_ok p" "si_signal info = i" "0 < i" "i < 65"
    and "i = 18 \<Longrightarrow> p ! 19 = None \<and> p ! 20 = None \<and> p ! 21 = None \<and> p ! 22 = None"
    and "is_stop i \<Longrightarrow> p ! 18 = None"
  shows "pending_ok (p[i := Some info])"
  using assms unfolding pending_ok_def is_stop_def by (auto simp: nth_list_update)

lemma enqueue_pending_ok:
  assumes "pending_ok p" "0 < si_signal info" "si_signal info < 65"
  shows "pending_ok ((if si_signal info = 18 then p[19 := None, 20 := None, 21 := None, 22 := None]
      else if is_stop (si_signal info) then p[18 := None] else p)[si_signal info := Some info])"
proof -
  have len: "length p = 65" using assms(1) by (simp add: pending_ok_def)
  let ?q = "if si_signal info = 18 then p[19 := None, 20 := None, 21 := None, 22 := None]
      else if is_stop (si_signal info) then p[18 := None] else p"
  have "pending_ok ?q" using assms(1) by (simp add: pending_ok_clear)
  then show ?thesis by (rule pending_ok_set) (use assms len in \<open>auto simp: nth_list_update is_stop_def\<close>)
qed

lemma sig_bump_simps [simp]:
  "actions (sig_bump st) = actions st" "blocked (sig_bump st) = blocked st" "pending (sig_bump st) = pending st"
  "suspend_mask (sig_bump st) = suspend_mask st" "sig_altstack (sig_bump st) = sig_altstack st"
  "sig_waiters (sig_bump st) = sig_waiters st"
  by (simp_all add: sig_bump_def)

lemma enqueue_simps:
  "pending (snd (enqueue info st)) = (if si_signal info = 0 \<or> 64 < si_signal info then pending st
     else (if si_signal info = 18 then (pending st)[19 := None, 20 := None, 21 := None, 22 := None]
           else if is_stop (si_signal info) then (pending st)[18 := None] else pending st)[si_signal info := Some info])"
  "blocked (snd (enqueue info st)) = blocked st" "actions (snd (enqueue info st)) = actions st"
  "suspend_mask (snd (enqueue info st)) = suspend_mask st"
  by (simp_all add: enqueue_def Let_def case_prod_unfold)

lemma table_ok_update: "table_ok t \<Longrightarrow> i \<noteq> 9 \<Longrightarrow> i \<noteq> 19 \<Longrightarrow> table_ok (t[i := a])"
  by (simp add: table_ok_def)

lemma table_ok_default: "table_ok t \<Longrightarrow> table_ok (t[i := exec_action i (t ! i)])"
  by (cases "i < 65") (auto simp: table_ok_def exec_action_def nth_list_update default_for_def)

lemma table_ok_exec: "table_ok t \<Longrightarrow> table_ok (fold (\<lambda>i t. t[i := exec_action i (t ! i)]) xs t)"
  by (induction xs arbitrary: t) (auto intro: table_ok_default)

lemma table_ok_new: "table_ok (default_for 0 # map default_for [1..<SIGNAL_MAX + 1])"
  by (simp add: table_ok_def default_for_def nth_Cons' nth_map_upt del: upt_rec_numeral)

lemma store_ok_update: "store_ok store \<Longrightarrow> table_ok t \<Longrightarrow> store_ok (store[i := t])"
  unfolding store_ok_def using set_update_subset_insert [of store i t] by blast

lemma store_ok_nth: "store_ok store \<Longrightarrow> i < length store \<Longrightarrow> table_ok (store ! i)"
  by (simp add: store_ok_def)

section \<open>Threads and processes\<close>

record sig_system =
  threads :: "signal_state list"
  tables :: action_store

definition with_thread :: "nat \<Rightarrow> signal_state \<Rightarrow> sig_system \<Rightarrow> sig_system" where
  "with_thread i st s = s\<lparr>threads := (threads s)[i := st]\<rparr>"

text \<open>
  One step: a process is made, a thread is cloned or forked, or a thread of the system does one
  of the operations that change its state or the table it shares.
\<close>

inductive sig_step :: "sig_system \<Rightarrow> sig_system \<Rightarrow> bool" where
  new: "signal_new (tables s) = (st, store) \<Longrightarrow> sig_step s \<lparr>threads = threads s @ [st], tables = store\<rparr>"
| clone: "i < length (threads s) \<Longrightarrow> clone_for_thread (threads s ! i) (tables s) = (st, store) \<Longrightarrow>
    sig_step s \<lparr>threads = threads s @ [st], tables = store\<rparr>"
| fork: "i < length (threads s) \<Longrightarrow> fork_copy (threads s ! i) (tables s) = (st, store) \<Longrightarrow>
    sig_step s \<lparr>threads = threads s @ [st], tables = store\<rparr>"
| exec: "i < length (threads s) \<Longrightarrow> prepare_for_exec (threads s ! i) (tables s) = (st, store) \<Longrightarrow>
    sig_step s ((with_thread i st s)\<lparr>tables := store\<rparr>)"
| action: "i < length (threads s) \<Longrightarrow> set_action n a (threads s ! i) (tables s) = (b, store) \<Longrightarrow>
    sig_step s (s\<lparr>tables := store\<rparr>)"
| send: "i < length (threads s) \<Longrightarrow> sig_step s (with_thread i (snd (enqueue info (threads s ! i))) s)"
| deliver: "i < length (threads s) \<Longrightarrow>
    sig_step s (with_thread i (snd (take_next_delivery hs (threads s ! i) (tables s))) s)"
| wait: "i < length (threads s) \<Longrightarrow> sig_step s (with_thread i (snd (take_pending_in_mask m (threads s ! i))) s)"
| mask: "i < length (threads s) \<Longrightarrow> sig_step s (with_thread i (set_mask how m (threads s ! i)) s)"
| blocked: "i < length (threads s) \<Longrightarrow> sig_step s (with_thread i (set_blocked_mask m (threads s ! i)) s)"
| restore: "i < length (threads s) \<Longrightarrow> sig_step s (with_thread i (restore_mask m (threads s ! i)) s)"
| suspend: "i < length (threads s) \<Longrightarrow> sig_step s (with_thread i (enter_sigsuspend m (threads s ! i)) s)"
| resume: "i < length (threads s) \<Longrightarrow> sig_step s (with_thread i (leave_sigsuspend (threads s ! i)) s)"
| sigreturn: "i < length (threads s) \<Longrightarrow>
    sig_step s (with_thread i (restore_after_sigreturn m stack (threads s ! i)) s)"
| altstack: "i < length (threads s) \<Longrightarrow>
    sig_step s (with_thread i (snd (set_altstack stack_opt sp (threads s ! i))) s)"
| arm: "i < length (threads s) \<Longrightarrow> sig_step s (with_thread i (arm_altstack (threads s ! i)) s)"

definition sig_start :: sig_system where
  "sig_start = \<lparr>threads = [], tables = []\<rparr>"

definition system_sig_ok :: "sig_system \<Rightarrow> bool" where
  "system_sig_ok s \<longleftrightarrow> store_ok (tables s) \<and> (\<forall>st \<in> set (threads s). sig_ok (tables s) st)"

lemma sig_ok_longer: "sig_ok store st \<Longrightarrow> length store \<le> length store' \<Longrightarrow> sig_ok store' st"
  by (simp add: sig_ok_def)

lemma system_sig_ok_thread:
  "system_sig_ok s \<Longrightarrow> sig_ok (tables s) st \<Longrightarrow> system_sig_ok (with_thread i st s)"
  unfolding system_sig_ok_def with_thread_def using set_update_subset_insert [of "threads s" i st] by auto

lemma system_sig_ok_new:
  assumes "system_sig_ok s" "store_ok store" "length (tables s) \<le> length store" "sig_ok store st"
  shows "system_sig_ok \<lparr>threads = threads s @ [st], tables = store\<rparr>"
  using assms by (auto simp: system_sig_ok_def intro: sig_ok_longer)

lemma system_sig_ok_tables:
  assumes "system_sig_ok s" "store_ok store" "length store = length (tables s)"
  shows "system_sig_ok (s\<lparr>tables := store\<rparr>)"
  using assms by (auto simp: system_sig_ok_def intro: sig_ok_longer)

lemma state_from_parts_ok [simp]: "sig_ok store (state_from_parts i b stack) \<longleftrightarrow> i < length store \<and> mask_ok b"
  by (auto simp: sig_ok_def state_from_parts_def)

lemma local_ops_ok:
  assumes "sig_ok store st"
  shows "sig_ok store (snd (enqueue info st))" "sig_ok store (snd (take_next_delivery hs st store'))"
    "sig_ok store (snd (take_pending_in_mask m st))" "sig_ok store (set_mask how m st)"
    "sig_ok store (set_blocked_mask m st)" "sig_ok store (restore_mask m st)" "sig_ok store (enter_sigsuspend m st)"
    "sig_ok store (leave_sigsuspend st)" "sig_ok store (restore_after_sigreturn m stack st)"
    "sig_ok store (snd (set_altstack stack_opt sp st))" "sig_ok store (arm_altstack st)"
proof -
  have p: "pending_ok (pending st)" using assms by (simp add: sig_ok_def)
  have "pending_ok (pending (snd (enqueue info st)))"
    using p enqueue_pending_ok [OF p, of info] by (auto simp: enqueue_simps)
  then show "sig_ok store (snd (enqueue info st))" using assms by (simp add: sig_ok_def enqueue_simps)
qed (use assms in \<open>auto simp: sig_ok_def take_next_delivery_def take_pending_in_mask_def set_mask_def set_blocked_mask_def
      restore_mask_def enter_sigsuspend_def leave_sigsuspend_def restore_after_sigreturn_def set_altstack_def Let_def
      arm_altstack_def pending_ok_clear split: option.splits result.splits\<close>)

lemma prepare_for_exec_ok:
  assumes "sig_ok store st" "store_ok store" "prepare_for_exec st store = (st', store')"
  shows "sig_ok store st' \<and> store_ok store' \<and> length store' = length store"
proof -
  have "table_ok (store ! actions st)" using assms by (simp add: sig_ok_def store_ok_nth)
  then have "store_ok store'" "length store' = length store"
    using assms(2, 3) table_ok_exec store_ok_update by (auto simp: prepare_for_exec_def Let_def)
  then show ?thesis using assms by (auto simp: prepare_for_exec_def Let_def sig_ok_def)
qed

lemma set_action_ok:
  assumes "sig_ok store st" "store_ok store" "set_action n a st store = (b, store')"
  shows "store_ok store' \<and> length store' = length store"
proof -
  have "table_ok (store ! actions st)" using assms by (simp add: sig_ok_def store_ok_nth)
  then show ?thesis using assms(2, 3)
    by (auto simp: set_action_def intro: store_ok_update table_ok_update split: if_splits)
qed

lemma sig_step_ok:
  assumes "sig_step s s'" "system_sig_ok s"
  shows "system_sig_ok s'"
proof -
  have store: "store_ok (tables s)" using assms(2) by (simp add: system_sig_ok_def)
  have at: "sig_ok (tables s) (threads s ! i)" if "i < length (threads s)" for i
    using assms(2) that by (simp add: system_sig_ok_def)
  have parts: "actions (threads s ! i) < length (tables s)" "mask_ok (blocked (threads s ! i))"
    if "i < length (threads s)" for i
    using at [OF that] by (simp_all add: sig_ok_def)
  have table: "table_ok (tables s ! actions (threads s ! i))" if "i < length (threads s)" for i
    using at [OF that] store by (simp add: sig_ok_def store_ok_nth)
  show ?thesis
    using assms(1)
  proof cases
    case (new st store)
    then show ?thesis using assms(2) table_ok_new
      by (auto simp: signal_new_def store_ok_def system_sig_ok_def simp del: upt_rec_numeral
          intro: sig_ok_longer)
  next
    case (clone i st store)
    then show ?thesis using assms(2) parts [OF clone(2)] store
      by (auto simp: clone_for_thread_def intro!: system_sig_ok_new)
  next
    case (fork i st store)
    then show ?thesis using assms(2) parts [OF fork(2)] table [OF fork(2)] store
      by (auto simp: fork_copy_def store_ok_def intro!: system_sig_ok_new)
  next
    case (exec i st store')
    have *: "sig_ok (tables s) st \<and> store_ok store' \<and> length store' = length (tables s)"
      using prepare_for_exec_ok [OF at [OF exec(2)] store exec(3)] .
    then have "system_sig_ok (with_thread i st s)" using assms(2) by (simp add: system_sig_ok_thread)
    then show ?thesis unfolding exec(1) by (rule system_sig_ok_tables) (use * in \<open>simp_all add: with_thread_def\<close>)
  next
    case (action i n a b store')
    show ?thesis unfolding action(1)
      by (rule system_sig_ok_tables [OF assms(2)]) (use set_action_ok [OF at [OF action(2)] store action(3)] in simp_all)
  qed (use assms(2) at local_ops_ok in \<open>auto intro!: system_sig_ok_thread\<close>)
qed

lemma sig_reachable_ok: "sig_step\<^sup>*\<^sup>* sig_start s \<Longrightarrow> system_sig_ok s"
proof (induction rule: rtranclp_induct)
  case base
  show ?case by (simp add: system_sig_ok_def store_ok_def sig_start_def)
qed (rule sig_step_ok)

section \<open>The order of delivery\<close>

lemma scan_Some: "scan P s = Some k \<Longrightarrow> s \<le> k \<and> k \<le> 64 \<and> P k \<and> (\<forall>j. s \<le> j \<and> j < k \<longrightarrow> \<not> P j)"
proof (induction P s rule: scan.induct)
  case (1 P s)
  show ?case
  proof (cases "s \<le> 64 \<and> \<not> P s")
    case True
    then have "scan P (s + 1) = Some k" using "1.prems" by (simp add: scan.simps [of P s])
    then show ?thesis using "1.IH" True le_less [of s] by (auto simp: Suc_le_eq)
  qed (use "1.prems" in \<open>auto simp: scan.simps [of P s] split: if_splits\<close>)
qed

lemma scan_None: "scan P s = None \<longleftrightarrow> (\<forall>k. s \<le> k \<and> k \<le> 64 \<longrightarrow> \<not> P k)"
proof (induction P s rule: scan.induct)
  case (1 P s)
  show ?case
  proof (cases "s \<le> 64 \<and> \<not> P s")
    case True
    then have "scan P s = scan P (s + 1)" by (simp add: scan.simps [of P s])
    moreover have "(\<forall>k. s \<le> k \<and> k \<le> 64 \<longrightarrow> \<not> P k) \<longleftrightarrow> (\<forall>k. s + 1 \<le> k \<and> k \<le> 64 \<longrightarrow> \<not> P k)"
      using True le_less [of s] by (auto simp: Suc_le_eq)
    ultimately show ?thesis using "1.IH" True by simp
  qed (auto simp: scan.simps [of P s])
qed

definition deliverable :: "signal_state \<Rightarrow> signo \<Rightarrow> bool" where
  "deliverable st k \<longleftrightarrow> (\<exists>info. pending st ! k = Some info \<and> \<not> is_blocked (blocked st) (si_signal info))"

lemma delivery_at_iff: "delivery_at st store hs k \<noteq> No_Delivery \<longleftrightarrow> deliverable st k"
  by (auto simp: delivery_at_def deliverable_def delivery_for_none split: option.splits)

text \<open>The lowest deliverable signal comes first; nothing else changes.\<close>

lemma take_next_delivery_cases:
  obtains (none) "take_next_delivery hs st store = (No_Delivery, st)" "\<And>k. 1 \<le> k \<Longrightarrow> k \<le> 64 \<Longrightarrow> \<not> deliverable st k"
  | (some) k where "1 \<le> k" "k \<le> 64" "deliverable st k" "\<And>j. 1 \<le> j \<Longrightarrow> j < k \<Longrightarrow> \<not> deliverable st j"
      "take_next_delivery hs st store = (delivery_at st store hs k, st\<lparr>pending := (pending st)[k := None]\<rparr>)"
proof (cases "scan (deliverable st) 1")
  case None
  then show ?thesis using scan_None [of "deliverable st" 1] none by (auto simp: take_next_delivery_def delivery_at_iff)
next
  case (Some k)
  then show ?thesis using scan_Some [OF Some] some [of k] by (auto simp: take_next_delivery_def delivery_at_iff)
qed

fun take_deliveries :: "bool \<Rightarrow> nat \<Rightarrow> signal_state \<Rightarrow> action_store \<Rightarrow> signal_delivery list" where
  "take_deliveries hs 0 st store = []"
| "take_deliveries hs (Suc n) st store =
     (let (d, st') = take_next_delivery hs st store in d # take_deliveries hs n st' store)"

definition before_kill :: "signal_state \<Rightarrow> nat set" where
  "before_kill st = {k. 1 \<le> k \<and> k < 9 \<and> pending st ! k \<noteq> None}"

lemma before_kill_finite: "finite (before_kill st)" "card (before_kill st) < 9"
proof -
  have sub: "before_kill st \<subseteq> {1..<9}" by (auto simp: before_kill_def)
  show "finite (before_kill st)" using sub by (rule finite_subset) simp
  show "card (before_kill st) < 9" using card_mono [OF _ sub] by simp
qed

lemma kill_delivered:
  assumes "sig_ok store st" "store_ok store" "pending st ! 9 = Some info" "card (before_kill st) < n"
  shows "Exit info \<in> set (take_deliveries hs n st store)"
  using assms
proof (induction n arbitrary: st)
  case (Suc n)
  have p: "length (pending st) = 65" "si_signal info = 9"
    using Suc.prems(1, 3) by (auto simp: sig_ok_def pending_ok_def)
  have nine: "deliverable st 9" using Suc.prems(3) p by (simp add: deliverable_def is_blocked_iff)
  show ?case
  proof (cases rule: take_next_delivery_cases [of hs st store])
    case none then show ?thesis using none(2) [of 9] nine by simp
  next
    case (some k)
    let ?st = "st\<lparr>pending := (pending st)[k := None]\<rparr>"
    show ?thesis
    proof (cases "k = 9")
      case True
      have "store ! actions st ! 9 = default_for 9"
        using store_ok_nth [OF Suc.prems(2)] Suc.prems(1) by (simp add: sig_ok_def table_ok_def)
      then have "delivery_at st store hs 9 = Exit info" using Suc.prems(3) p
        by (simp add: delivery_at_def delivery_for_def default_for_def is_blocked_iff default_action_def)
      then show ?thesis using True some(5) by simp
    next
      case False
      then have k: "k < 9" using some(4) [of 9] nine by (meson linorder_neqE_nat one_le_numeral)
      have ok: "sig_ok store ?st" using local_ops_ok(2) [OF Suc.prems(1), of hs store] some(5) by simp
      have "before_kill ?st = before_kill st - {k}"
        using p k by (auto simp: before_kill_def nth_list_update split: if_splits)
      moreover have "k \<in> before_kill st" using some(1, 3) k by (auto simp: before_kill_def deliverable_def)
      ultimately have "card (before_kill ?st) < card (before_kill st)"
        using card_Diff1_less [OF before_kill_finite(1)] by metis
      then have "Exit info \<in> set (take_deliveries hs n ?st store)"
        using Suc.prems(3, 4) k by (intro Suc.IH [OF ok Suc.prems(2)]) simp_all
      then show ?thesis using some(5) by simp
    qed
  qed
qed simp

section \<open>Round trips\<close>

lemma read_u64_at: "length ps = offset \<Longrightarrow> read_u64 (ps @ le_bytes 8 w @ rs) offset = Some w"
  by (simp add: read_u64_def slice_at_append)

lemma read_i32_at: "length ps = offset \<Longrightarrow> read_i32 (ps @ le_bytes 4 w @ rs) offset = Some w"
  by (simp add: read_i32_def slice_at_append)

lemma parse_serialize_sigaction: "parse_sigaction (serialize_sigaction a @ rest) = Some a"
  using read_u64_at [of "[]" 0] read_u64_at [of "le_bytes 8 (handler a)" 8]
    read_u64_at [of "le_bytes 8 (handler a) @ le_bytes 8 (sa_flags a)" 16]
    read_u64_at [of "le_bytes 8 (handler a) @ le_bytes 8 (sa_flags a) @ le_bytes 8 (restorer a)" 24]
  by (simp add: parse_sigaction_def serialize_sigaction_def)

lemma parse_serialize_stack: "parse_signal_stack (serialize_signal_stack s @ rest) = Some s"
  using read_u64_at [of "[]" 0] read_i32_at [of "le_bytes 8 (ss_sp s)" 8]
    read_i32_at [of "le_bytes 8 (ss_sp s) @ le_bytes 4 (ss_flags s)" 12]
    read_u64_at [of "le_bytes 8 (ss_sp s) @ le_bytes 4 (ss_flags s) @ le_bytes 4 (ss_pad s)" 16]
  by (simp add: parse_signal_stack_def serialize_signal_stack_def)

end
