(* ===== verification/Signalfd.thy ===== *)
theory Signalfd
  imports Signal_Delivery
begin

text \<open>
  The signal descriptor of \<open>signal/fd.rs\<close>: a queue of at most 64 signals that match a mask, read
  as records of 128 bytes. A full queue drops its oldest signal.
\<close>

section \<open>The descriptor\<close>

definition SIGNALFD_SIGINFO_SIZE :: usize where [simp]: "SIGNALFD_SIGINFO_SIZE = 128"
definition SIGNALFD_QUEUE_LIMIT :: usize where [simp]: "SIGNALFD_QUEUE_LIMIT = 64"

record signalfd_file =
  sfd_mask :: sig_set
  sfd_queue :: "signal_info list"
  sfd_version :: usize
  sfd_waiters :: wait_queue

definition create_signalfd :: "sig_set \<Rightarrow> signalfd_file" where
  "create_signalfd m = \<lparr>sfd_mask = m, sfd_queue = [], sfd_version = 1, sfd_waiters = wq_new\<rparr>"

definition signalfd_set_mask :: "sig_set \<Rightarrow> signalfd_file \<Rightarrow> signalfd_file" where
  "signalfd_set_mask m f = f\<lparr>sfd_mask := m\<rparr>"

definition with_signal_state :: "signalfd_file \<Rightarrow> signalfd_file" where
  "with_signal_state f = create_signalfd (sfd_mask f)"

definition notify_signal :: "signal_info \<Rightarrow> signalfd_file \<Rightarrow> wakes \<times> signalfd_file" where
  "notify_signal info f =
     (if sigbit (si_signal info) = 0 \<or> sfd_mask f AND sigbit (si_signal info) = 0 then ([], f)
      else
        let q = (if length (sfd_queue f) \<ge> SIGNALFD_QUEUE_LIMIT then tl (sfd_queue f) else sfd_queue f);
            f1 = f\<lparr>sfd_queue := q @ [info], sfd_version := wadd (sfd_version f) 1\<rparr>;
            (ws, wq) = wq_notify POLL_READ (sfd_waiters f1)
        in (ws, f1\<lparr>sfd_waiters := wq\<rparr>))"

definition serialize_siginfo :: "signal_info \<Rightarrow> byte list" where
  "serialize_siginfo info =
     le_bytes 4 (of_nat (si_signal info) :: 32 word) @ le_bytes 4 (0 :: 32 word) @ le_bytes 4 (si_code info)
     @ le_bytes 4 (si_pid info) @ le_bytes 4 (si_uid info) @ replicate 20 0 @ le_bytes 4 (si_status info) @ replicate 84 0"

text \<open>The loop of \<open>read\<close>: \<open>room\<close> is what is left of the buffer.\<close>

fun siginfo_loop :: "usize \<Rightarrow> signal_info list \<Rightarrow> byte list \<times> signal_info list" where
  "siginfo_loop room [] = ([], [])"
| "siginfo_loop room (info # q) =
     (if room \<ge> SIGNALFD_SIGINFO_SIZE then
        let (bs, q') = siginfo_loop (room - SIGNALFD_SIGINFO_SIZE) q in (serialize_siginfo info @ bs, q')
      else ([], info # q))"

definition signalfd_read :: "usize \<Rightarrow> signalfd_file \<Rightarrow> (fs_error, byte list) result \<times> signalfd_file" where
  "signalfd_read len f =
     (if len = 0 then (Ok [], f)
      else if len < SIGNALFD_SIGINFO_SIZE then (Err InvalidInput, f)
      else
        let (bs, q) = siginfo_loop len (sfd_queue f); f1 = f\<lparr>sfd_queue := q\<rparr>
        in if length bs = 0 then (Err WouldBlock, f1)
        else (Ok bs, f1\<lparr>sfd_version := wadd (sfd_version f) 1\<rparr>))"

definition signalfd_poll :: "poll_events \<Rightarrow> signalfd_file \<Rightarrow> poll_events" where
  "signalfd_poll events f = (if ev_contains events POLL_READ \<and> sfd_queue f \<noteq> [] then POLL_READ else 0)"

definition signalfd_wait_token :: "signalfd_file \<Rightarrow> usize" where
  "signalfd_wait_token f = sfd_version f"

definition signalfd_register_waiter :: "poll_events \<Rightarrow> listener \<Rightarrow> signalfd_file \<Rightarrow> usize option \<times> signalfd_file" where
  "signalfd_register_waiter events l f =
     (if \<not> ev_contains events POLL_READ then (None, f)
      else let (i, q) = wq_register POLL_READ l (sfd_waiters f) in (Some i, f\<lparr>sfd_waiters := q\<rparr>))"

definition signalfd_unregister_waiter :: "usize \<Rightarrow> signalfd_file \<Rightarrow> signalfd_file" where
  "signalfd_unregister_waiter i f = f\<lparr>sfd_waiters := snd (wq_unregister i (sfd_waiters f))\<rparr>"

definition signalfd_ok :: "signalfd_file \<Rightarrow> bool" where
  "signalfd_ok f \<longleftrightarrow> length (sfd_queue f) \<le> SIGNALFD_QUEUE_LIMIT \<and> wq_ok (sfd_waiters f)"

section \<open>What the operations do\<close>

lemma length_serialize_siginfo [simp]: "length (serialize_siginfo info) = 128"
  by (simp add: serialize_siginfo_def)

lemma serialize_siginfo_nonempty [simp]: "serialize_siginfo info \<noteq> []"
  using length_serialize_siginfo [of info] by (metis list.size(3) zero_neq_numeral)

lemma siginfo_loop_eq:
  "siginfo_loop room q = (concat (map serialize_siginfo (take (room div 128) q)), drop (room div 128) q)"
proof (induction room q rule: siginfo_loop.induct)
  case (2 room info q)
  have "room div 128 = Suc ((room - 128) div 128)" if "128 \<le> room" using that by (simp add: le_div_geq)
  then show ?case using 2 by (cases "128 \<le> room") simp_all
qed simp

lemma signalfd_read_eq:
  "signalfd_read len f =
     (if len = 0 then (Ok [], f)
      else if len < 128 then (Err InvalidInput, f)
      else if sfd_queue f = [] then (Err WouldBlock, f)
      else (Ok (concat (map serialize_siginfo (take (len div 128) (sfd_queue f)))),
            f\<lparr>sfd_queue := drop (len div 128) (sfd_queue f), sfd_version := wadd (sfd_version f) 1\<rparr>))"
proof (cases "128 \<le> len")
  case True
  then obtain k where k: "len div 128 = Suc k" by (cases "len div 128") auto
  show ?thesis
    using True k by (cases "sfd_queue f") (simp_all add: signalfd_read_def siginfo_loop_eq Let_def)
qed (simp add: signalfd_read_def)

datatype signalfd_op = Signal signal_info | SfdRead usize | SfdMask sig_set

fun signalfd_apply :: "signalfd_op \<Rightarrow> signalfd_file \<Rightarrow> wakes \<times> signalfd_file" where
  "signalfd_apply (Signal info) f = notify_signal info f"
| "signalfd_apply (SfdRead len) f = ([], snd (signalfd_read len f))"
| "signalfd_apply (SfdMask m) f = ([], signalfd_set_mask m f)"

lemma notify_signal_eq:
  "notify_signal info f =
     (if sfd_mask f AND sigbit (si_signal info) = 0 then ([], f)
      else let r = wq_notify POLL_READ (sfd_waiters f)
        in (fst r, f\<lparr>sfd_queue := (if 64 \<le> length (sfd_queue f) then tl (sfd_queue f) else sfd_queue f) @ [info],
              sfd_version := wadd (sfd_version f) 1, sfd_waiters := snd r\<rparr>))"
  by (auto simp: notify_signal_def Let_def case_prod_unfold)

lemma signalfd_apply_ok: "signalfd_ok f \<Longrightarrow> signalfd_ok (snd (signalfd_apply x f))"
  by (cases x) (auto simp: signalfd_ok_def notify_signal_eq signalfd_read_eq signalfd_set_mask_def Let_def)

lemma signalfd_apply_registrations:
  "registrations (sfd_waiters (snd (signalfd_apply x f))) = registrations (sfd_waiters f)"
  by (cases x) (simp_all add: notify_signal_eq signalfd_read_eq signalfd_set_mask_def Let_def)

lemma bit_sfd_poll: "bit (signalfd_poll (-1) f) n \<longleftrightarrow> n = 0 \<and> sfd_queue f \<noteq> []"
  by (simp add: signalfd_poll_def contains_poll_flag poll_bits)

lemma signalfd_apply_wakes:
  assumes ok: "signalfd_ok f" and x: "signalfd_apply x f = (ws, f')"
    and ready: "bit (signalfd_poll (-1) f') n" "\<not> bit (signalfd_poll (-1) f) n"
    and reg: "bt_get (registrations (sfd_waiters f)) i = Some r" "bit (wr_events r) n"
  shows "wr_listener r \<in> fst ` set ws"
proof -
  have wake: "wr_listener r \<in> fst ` set (fst (wq_notify POLL_READ (sfd_waiters f)))"
    using wq_notify_wakes [of "sfd_waiters f" i r 0 POLL_READ] ok reg ready
    by (simp add: signalfd_ok_def bit_sfd_poll poll_bits)
  have f': "f' = snd (signalfd_apply x f)" and ws: "ws = fst (signalfd_apply x f)" using x by simp_all
  show ?thesis
    using ready wake unfolding f' ws
    by (cases x) (auto simp: bit_sfd_poll notify_signal_eq signalfd_read_eq signalfd_set_mask_def Let_def split: if_splits)
qed

interpretation signalfd: waitable signalfd_ok signalfd_apply "signalfd_poll (-1)" sfd_waiters "{0}"
  using signalfd_apply_wakes by unfold_locales (auto simp: signalfd_apply_registrations intro: signalfd_apply_ok)

end
