(* ===== verification/Signal_Properties.thy ===== *)
theory Signal_Properties
  imports Signalfd
begin

text \<open>The properties of error numbers and signals.\<close>

section \<open>Error numbers\<close>

text \<open>
  The two directions of the error codes agree: every error has a code from 1 to 133 from
  which it is recovered, and a number is recognised exactly when it is the code of the error.
\<close>

theorem errno_roundtrip:
  "from_code (err_code e) = Some e \<and> (from_code c = Some e \<longleftrightarrow> err_code e = c) \<and> - 133 \<le> errno e \<and> errno e \<le> - 1"
  using from_code_code [of e] from_code_Some [of c e] err_code_range [of e] by (auto simp: errno_def)

section \<open>Signals\<close>

definition kill_info :: signal_info where
  "kill_info = kernel_info SIGKILL 0"

lemma sample_sig_run:
  obtains s where "sig_step\<^sup>*\<^sup>* sig_start s" "length (threads s) = 1" "pending (threads s ! 0) ! 9 = Some kill_info"
    "length (tables s) = 1" "actions (threads s ! 0) = 0"
proof -
  obtain st store where new: "signal_new [] = (st, store)" by force
  let ?s1 = "\<lparr>threads = [st], tables = store\<rparr>"
  have "sig_step sig_start ?s1"
    using sig_step.new [of sig_start st store] new by (simp add: sig_start_def)
  moreover have "sig_step ?s1 (with_thread 0 (snd (enqueue kill_info st)) ?s1)"
    using sig_step.send [of 0 ?s1 kill_info] by simp
  ultimately have run: "sig_step\<^sup>*\<^sup>* sig_start (with_thread 0 (snd (enqueue kill_info st)) ?s1)" by simp
  have st: "pending st = no_pending" "actions st = 0" "length store = 1"
    using new by (auto simp: signal_new_def state_from_parts_def)
  show ?thesis
    by (rule that [OF run]) (simp_all add: with_thread_def enqueue_simps kill_info_def kernel_info_def is_stop_def st
        no_pending_def nth_list_update)
qed

text \<open>
  C28: In every state that processes and threads can reach, no mask of a thread contains
  \<open>SIGKILL\<close> or \<open>SIGSTOP\<close>, the table of a thread has the default action for both, a pending
  slot holds its own signal, and a pending \<open>SIGCONT\<close> excludes every pending stop signal.
\<close>

theorem signals_sound:
  assumes "sig_step\<^sup>*\<^sup>* sig_start s" "st \<in> set (threads s)"
  shows "blocked st AND (sigbit SIGKILL OR sigbit SIGSTOP) = 0 \<and>
    get_action SIGKILL st (tables s) = Some (default_for SIGKILL) \<and> get_action SIGSTOP st (tables s) = Some (default_for SIGSTOP) \<and>
    (\<forall>i < 65. \<forall>info. pending st ! i = Some info \<longrightarrow> si_signal info = i) \<and>
    (pending st ! SIGCONT \<noteq> None \<longrightarrow> (\<forall>i < 65. is_stop i \<longrightarrow> pending st ! i = None))"
proof -
  have ok: "store_ok (tables s)" "sig_ok (tables s) st"
    using sig_reachable_ok [OF assms(1)] assms(2) by (simp_all add: system_sig_ok_def)
  then have "table_ok (tables s ! actions st)" by (simp add: sig_ok_def store_ok_nth)
  moreover have "blocked st AND (sigbit SIGKILL OR sigbit SIGSTOP) = 0"
    using ok(2) unfolding bit_eq_iff [of "blocked st AND _"]
    by (auto simp: sig_ok_def mask_ok_def bit_and_iff bit_or_iff bit_sigbit)
  ultimately show ?thesis using ok(2) by (auto simp: get_action_def table_ok_def sig_ok_def pending_ok_def is_stop_def)
qed

theorem signals_sound_witness:
  "\<exists>s st. sig_step\<^sup>*\<^sup>* sig_start s \<and> st \<in> set (threads s) \<and> get_action SIGKILL st (tables s) = Some (default_for SIGKILL)"
proof -
  obtain s where s: "sig_step\<^sup>*\<^sup>* sig_start s" "length (threads s) = 1" by (rule sample_sig_run)
  then have m: "threads s ! 0 \<in> set (threads s)" by simp
  show ?thesis using signals_sound [OF s(1) m] s(1) m by blast
qed





text \<open>
  A thread cloned from another shares its table of actions: an action set through one is
  seen by both. A forked process has a copy: it starts with the same actions and an action set
  on either side is not seen by the other.
\<close>

theorem actions_shared:
  assumes "sig_ok store st" "store_ok store" "n \<in> {1..64} - {9, 19}"
    and "clone_for_thread st store = (thread, store1)" "fork_copy st store1 = (child, store2)"
  shows "get_action n thread (snd (set_action n a st store2)) = Some a \<and> get_action n st (snd (set_action n a thread store2)) = Some a
    \<and> get_action n child store2 = get_action n st store2
    \<and> get_action n child (snd (set_action n a st store2)) = get_action n child store2
    \<and> get_action n st (snd (set_action n a child store2)) = get_action n st store2"
proof -
  have len: "actions st < length store" "length (store ! actions st) = 65"
    using assms(1, 2) store_ok_nth [of store "actions st"] by (simp_all add: sig_ok_def table_ok_def)
  have "store1 = store" "actions thread = actions st" "actions child = length store" "store2 = store @ [store ! actions st]"
    using assms(4, 5) by (auto simp: clone_for_thread_def fork_copy_def state_from_parts_def)
  then show ?thesis using len assms(3) by (simp add: get_action_def set_action_def nth_append list_update_append)
qed

theorem actions_shared_witness:
  "\<exists>st store thread child store1 store2. clone_for_thread st store = (thread, store1) \<and> fork_copy st store1 = (child, store2) \<and>
     get_action SIGINT thread (snd (set_action SIGINT \<lparr>handler = 4096, sa_flags = 0, restorer = 0, sa_mask = 0\<rparr> st store2))
       = Some \<lparr>handler = 4096, sa_flags = 0, restorer = 0, sa_mask = 0\<rparr>"
proof -
  obtain s where s: "sig_step\<^sup>*\<^sup>* sig_start s" "length (threads s) = 1" by (rule sample_sig_run)
  have ok: "sig_ok (tables s) (threads s ! 0)" "store_ok (tables s)"
    using sig_reachable_ok [OF s(1)] s(2) by (simp_all add: system_sig_ok_def)
  obtain thread store1 where 1: "clone_for_thread (threads s ! 0) (tables s) = (thread, store1)" by force
  obtain child store2 where 2: "fork_copy (threads s ! 0) store1 = (child, store2)" by force
  have "get_action SIGINT thread (snd (set_action SIGINT \<lparr>handler = 4096, sa_flags = 0, restorer = 0, sa_mask = 0\<rparr>
      (threads s ! 0) store2)) = Some \<lparr>handler = 4096, sa_flags = 0, restorer = 0, sa_mask = 0\<rparr>"
    using actions_shared [OF ok _ 1 2, of SIGINT] by simp
  then show ?thesis using 1 2 by blast
qed

text \<open>
  The structures that user memory holds survive a round trip: parsing what was serialised,
  with any bytes after it, gives the same action and the same stack.
\<close>

theorem signal_structs_roundtrip:
  "parse_sigaction (serialize_sigaction a @ rest) = Some a \<and> parse_signal_stack (serialize_signal_stack s @ rest') = Some s"
  by (simp add: parse_serialize_sigaction parse_serialize_stack)

text \<open>
  \<open>sigaltstack\<close> refuses a new stack with unknown flags (\<open>EINVAL\<close>), one that is too small
  (\<open>ENOMEM\<close>) and a change while the thread runs on its stack (\<open>EPERM\<close>), and then changes
  nothing; otherwise it installs the stack, or none, and returns the old one.
\<close>

theorem set_altstack_outcome:
  "set_altstack (Some stack) sp st =
     (if ss_flags stack AND SS_DISABLE = 0 \<and> ss_flags stack AND NOT (SS_ONSTACK OR SS_AUTODISARM) \<noteq> 0
      then (Err (Base EInval), st)
      else if ss_flags stack AND SS_DISABLE = 0 \<and> ss_size stack < MINSIGSTKSZ then (Err (Base ENoMem), st)
      else if altstack_contains_sp (sig_altstack st) sp then (Err (Base EPerm), st)
      else (Ok (get_altstack sp st), st\<lparr>sig_altstack :=
        if ss_flags stack AND SS_DISABLE \<noteq> 0 then stack_disabled
        else stack\<lparr>ss_flags := ss_flags stack AND SS_AUTODISARM\<rparr>\<rparr>))"
proof -
  have "altstack_status_flags (sig_altstack st) sp AND SS_ONSTACK \<noteq> 0 \<longleftrightarrow> altstack_contains_sp (sig_altstack st) sp"
  proof -
    have z: "SS_DISABLE AND SS_ONSTACK = 0" "(x AND SS_AUTODISARM) AND SS_ONSTACK = 0"
      "(y OR SS_ONSTACK) AND SS_ONSTACK = SS_ONSTACK" "SS_ONSTACK \<noteq> 0" for x y :: "32 word"
      by (simp_all add: SS_DISABLE_def SS_ONSTACK_def SS_AUTODISARM_def bit.conj_disj_distrib2 and.assoc)
    show ?thesis by (auto simp: altstack_status_flags_def Let_def z altstack_contains_sp_def)
  qed
  moreover have "(ss_flags stack AND NOT SS_ONSTACK) AND SS_AUTODISARM = ss_flags stack AND SS_AUTODISARM"
    by (simp add: SS_ONSTACK_def SS_AUTODISARM_def and.assoc)
  ultimately show ?thesis
    by (auto simp: set_altstack_def altstack_validate_new_def altstack_format_old_def altstack_store_def altstack_disable_def
        get_altstack_def Let_def)
qed

section \<open>Signal descriptors\<close>

text \<open>
  C35: A signal descriptor keeps the latest signals of its mask, at most 64 of them, in the order
  of arrival: a full queue drops its oldest, a read returns whole records of 128 bytes from the
  front, and nothing else is lost.
\<close>

theorem signalfd_queue:
  assumes "length (sfd_queue f) \<le> 64"
  shows "sfd_queue (snd (notify_signal info f)) =
      (if sfd_mask f AND sigbit (si_signal info) = 0 then sfd_queue f
       else drop (length (sfd_queue f) - 63) (sfd_queue f) @ [info]) \<and>
    length (sfd_queue (snd (notify_signal info f))) \<le> 64 \<and>
    (128 \<le> len \<longrightarrow> sfd_queue f \<noteq> [] \<longrightarrow>
       fst (signalfd_read len f) = Ok (concat (map serialize_siginfo (take (len div 128) (sfd_queue f)))) \<and>
       sfd_queue (snd (signalfd_read len f)) = drop (len div 128) (sfd_queue f))"
proof -
  have "length (sfd_queue f) - 63 = (if 64 \<le> length (sfd_queue f) then 1 else 0)" using assms by auto
  then show ?thesis using assms by (auto simp: notify_signal_eq signalfd_read_eq Let_def drop_Suc)
qed

theorem signalfd_queue_witness:
  "sfd_queue (snd (notify_signal kill_info (create_signalfd (sigbit SIGKILL)))) = [kill_info]"
  using signalfd_queue [of "create_signalfd (sigbit SIGKILL)" kill_info 0]
  by (simp add: create_signalfd_def kill_info_def kernel_info_def sigbit_def)

end
