(* ===== verification/Slices.thy ===== *)
theory Slices
  imports Std_Lib
begin

text \<open>
  Binary search in sorted slices, as the sorted vectors of the kernel use it, and insertion and
  removal at an index.
\<close>

section \<open>Searching sorted slices\<close>

text \<open>\<open>slice::binary_search_by\<close> of \<open>core\<close>, and \<open>partition_point\<close>, which is built on it.\<close>

datatype ordering = Less | Equal | Greater

function bsearch_base :: "('a \<Rightarrow> ordering) \<Rightarrow> 'a list \<Rightarrow> nat \<Rightarrow> nat \<Rightarrow> nat" where
  "bsearch_base f xs base sz =
     (if sz > 1 then
        let half = sz div 2; mid = base + half
        in bsearch_base f xs (if f (xs ! mid) = Greater then base else mid) (sz - half)
      else base)"
  by pat_completeness auto
termination
  by (relation "measure (\<lambda>(f, xs, base, sz). sz)") auto

declare bsearch_base.simps [simp del]

definition binary_search_by :: "('a \<Rightarrow> ordering) \<Rightarrow> 'a list \<Rightarrow> (usize, usize) result" where
  "binary_search_by f xs =
     (if xs = [] then Err 0
      else let base = bsearch_base f xs 0 (length xs)
        in case f (xs ! base) of Equal \<Rightarrow> Ok base | Less \<Rightarrow> Err (base + 1) | Greater \<Rightarrow> Err base)"

definition cmp :: "usize \<Rightarrow> usize \<Rightarrow> ordering" where
  "cmp a b = (if a < b then Less else if a = b then Equal else Greater)"

definition binary_search_by_key :: "usize \<Rightarrow> ('a \<Rightarrow> usize) \<Rightarrow> 'a list \<Rightarrow> (usize, usize) result" where
  "binary_search_by_key k key xs = binary_search_by (\<lambda>x. cmp (key x) k) xs"

fun unwrap_either :: "('a, 'a) result \<Rightarrow> 'a" where
  "unwrap_either (Ok i) = i"
| "unwrap_either (Err i) = i"

definition partition_point :: "('a \<Rightarrow> bool) \<Rightarrow> 'a list \<Rightarrow> usize" where
  "partition_point P xs = unwrap_either (binary_search_by (\<lambda>x. if P x then Less else Greater) xs)"

definition insert_at :: "nat \<Rightarrow> 'a \<Rightarrow> 'a list \<Rightarrow> 'a list" where
  "insert_at i x xs = take i xs @ x # drop i xs"

definition remove_at :: "nat \<Rightarrow> 'a list \<Rightarrow> 'a list" where
  "remove_at i xs = take i xs @ drop (i + 1) xs"

text \<open>
  When the comparison is monotone along the slice, the search ends at the last element that is
  not greater.
\<close>

definition ordered :: "('a \<Rightarrow> ordering) \<Rightarrow> 'a list \<Rightarrow> bool" where
  "ordered f xs \<longleftrightarrow> (\<forall>i j. i < j \<longrightarrow> j < length xs \<longrightarrow> (f (xs ! i) = Greater \<longrightarrow> f (xs ! j) = Greater)
     \<and> (f (xs ! j) = Less \<longrightarrow> f (xs ! i) = Less))"

lemma ordered_greater:
  "ordered f xs \<Longrightarrow> i \<le> j \<Longrightarrow> j < length xs \<Longrightarrow> f (xs ! i) = Greater \<Longrightarrow> f (xs ! j) = Greater"
  unfolding ordered_def by (metis le_neq_implies_less)

lemma bsearch_base_spec:
  assumes "ordered f xs" "0 < sz" "base + sz \<le> length xs"
    and "base = 0 \<or> f (xs ! base) \<noteq> Greater" "\<forall>i. base + sz \<le> i \<longrightarrow> i < length xs \<longrightarrow> f (xs ! i) = Greater"
  shows "let b = bsearch_base f xs base sz in b < length xs \<and> (b = 0 \<or> f (xs ! b) \<noteq> Greater)
    \<and> (\<forall>i. b < i \<longrightarrow> i < length xs \<longrightarrow> f (xs ! i) = Greater)"
  using assms
proof (induction f xs base sz rule: bsearch_base.induct)
  case (1 f xs base sz)
  show ?case
  proof (cases "1 < sz")
    case True
    define half where "half = sz div 2"
    have half: "0 < half" "half < sz" using True by (auto simp: half_def)
    let ?base = "if f (xs ! (base + half)) = Greater then base else base + half"
    have eq: "bsearch_base f xs base sz = bsearch_base f xs ?base (sz - half)"
      using True by (subst bsearch_base.simps) (simp add: Let_def half_def)
    have above: "\<forall>i. ?base + (sz - half) \<le> i \<longrightarrow> i < length xs \<longrightarrow> f (xs ! i) = Greater"
    proof (intro allI impI)
      fix i assume i: "?base + (sz - half) \<le> i" "i < length xs"
      show "f (xs ! i) = Greater"
      proof (cases "f (xs ! (base + half)) = Greater")
        case greater: True
        have "sz - half \<ge> half" by (simp add: half_def)
        then have "base + half \<le> i" using i greater by simp
        then show ?thesis using ordered_greater [OF "1.prems"(1) _ i(2) greater] by simp
      next
        case False
        then show ?thesis using i half "1.prems"(5) by simp
      qed
    qed
    have "let b = bsearch_base f xs ?base (sz - half) in b < length xs \<and> (b = 0 \<or> f (xs ! b) \<noteq> Greater)
        \<and> (\<forall>i. b < i \<longrightarrow> i < length xs \<longrightarrow> f (xs ! i) = Greater)"
      using "1.IH" [OF True half_def refl "1.prems"(1) _ _ _ above] half "1.prems"(3, 4) by auto
    then show ?thesis using eq by simp
  next
    case False
    then show ?thesis using "1.prems" by (subst bsearch_base.simps) (auto simp: Let_def)
  qed
qed

lemma binary_search_by_spec:
  assumes "ordered f xs"
  shows "case binary_search_by f xs of
      Ok i \<Rightarrow> i < length xs \<and> f (xs ! i) = Equal
    | Err i \<Rightarrow> i \<le> length xs \<and> (\<forall>j < i. f (xs ! j) = Less) \<and> (\<forall>j. i \<le> j \<longrightarrow> j < length xs \<longrightarrow> f (xs ! j) = Greater)"
proof (cases "xs = []")
  case False
  define b where "b = bsearch_base f xs 0 (length xs)"
  have b: "b < length xs" "b = 0 \<or> f (xs ! b) \<noteq> Greater" "\<forall>i. b < i \<longrightarrow> i < length xs \<longrightarrow> f (xs ! i) = Greater"
    using bsearch_base_spec [OF assms, of "length xs" 0] False by (auto simp: Let_def b_def)
  have less: "\<forall>j < b + 1. f (xs ! j) = Less" if "f (xs ! b) = Less"
    using that assms b(1) by (auto simp: ordered_def less_Suc_eq)
  have suc: "b + 1 \<le> length xs" using b(1) by simp
  show ?thesis
  proof (cases "f (xs ! b)")
    case Less then show ?thesis using False b(3) less suc by (simp add: binary_search_by_def b_def [symmetric] Suc_le_eq)
  next
    case Equal then show ?thesis using False b(1) by (simp add: binary_search_by_def b_def [symmetric])
  next
    case Greater
    then have "b = 0" using b(2) by simp
    then have "f (xs ! j) = Greater" if "j < length xs" for j using Greater b(3) that by (cases "j = 0") simp_all
    then show ?thesis using False Greater \<open>b = 0\<close> by (simp add: binary_search_by_def b_def [symmetric])
  qed
qed (simp add: binary_search_by_def)

lemma partition_point_spec:
  assumes "\<And>i j. i < j \<Longrightarrow> j < length xs \<Longrightarrow> P (xs ! j) \<Longrightarrow> P (xs ! i)"
  shows "partition_point P xs \<le> length xs" "j < partition_point P xs \<Longrightarrow> P (xs ! j)"
    "partition_point P xs \<le> j \<Longrightarrow> j < length xs \<Longrightarrow> \<not> P (xs ! j)"
proof -
  let ?f = "\<lambda>x. if P x then Less else Greater"
  have "ordered ?f xs" using assms by (auto simp: ordered_def)
  then have *: "case binary_search_by ?f xs of
      Ok i \<Rightarrow> i < length xs \<and> ?f (xs ! i) = Equal
    | Err i \<Rightarrow> i \<le> length xs \<and> (\<forall>j < i. ?f (xs ! j) = Less) \<and> (\<forall>j. i \<le> j \<longrightarrow> j < length xs \<longrightarrow> ?f (xs ! j) = Greater)"
    by (rule binary_search_by_spec)
  obtain i where i: "binary_search_by ?f xs = Err i"
    using * by (cases "binary_search_by ?f xs") (auto split: if_splits)
  have s: "i \<le> length xs" "\<forall>j < i. ?f (xs ! j) = Less" "\<forall>j. i \<le> j \<longrightarrow> j < length xs \<longrightarrow> ?f (xs ! j) = Greater"
    using * i by simp_all
  have p: "partition_point P xs = i" by (simp add: partition_point_def i)
  show "partition_point P xs \<le> length xs" using s(1) p by simp
  show "P (xs ! j)" if "j < partition_point P xs" using s(2) p that by (auto split: if_splits)
  show "\<not> P (xs ! j)" if "partition_point P xs \<le> j" "j < length xs" using s(3) p that by (auto split: if_splits)
qed

lemma set_insert_at [simp]: "set (insert_at i x xs) = insert x (set xs)"
  by (simp add: insert_at_def) (metis append_take_drop_id set_append)

lemma length_insert_at [simp]: "length (insert_at i x xs) = Suc (length xs)"
  by (simp add: insert_at_def)

text \<open>Whatever the order of the slice, the index is in range.\<close>

lemma bsearch_base_range: "0 < sz \<Longrightarrow> base + sz \<le> n \<Longrightarrow> bsearch_base f xs base sz < n"
proof (induction f xs base sz rule: bsearch_base.induct)
  case (1 f xs base sz)
  show ?case
  proof (cases "1 < sz")
    case True
    then show ?thesis using "1.IH" [OF True refl refl] "1.prems" by (subst bsearch_base.simps) (auto simp: Let_def split: if_splits)
  qed (use "1.prems" in \<open>simp add: bsearch_base.simps\<close>)
qed

lemma binary_search_index: "unwrap_either (binary_search_by_key k key xs) \<le> length xs"
  using bsearch_base_range [of "length xs" 0 "length xs" "\<lambda>x. cmp (key x) k" xs]
  by (auto simp: binary_search_by_key_def binary_search_by_def Let_def split: ordering.splits)

lemma partition_point_le: "partition_point P xs \<le> length xs"
  using bsearch_base_range [of "length xs" 0 "length xs" "\<lambda>x. if P x then Less else Greater" xs]
  by (auto simp: partition_point_def binary_search_by_def Let_def split: ordering.splits)

text \<open>On a slice sorted by a key, the search finds the one element with that key.\<close>

lemma cmp_simps [simp]: "cmp a b = Less \<longleftrightarrow> a < b" "cmp a b = Equal \<longleftrightarrow> a = b" "cmp a b = Greater \<longleftrightarrow> b < a"
  by (auto simp: cmp_def)

lemma binary_search_sorted:
  assumes "sorted_wrt (\<lambda>x y. key x < key y) xs"
  shows "case binary_search_by_key k key xs of
      Ok i \<Rightarrow> i < length xs \<and> key (xs ! i) = k
    | Err i \<Rightarrow> i \<le> length xs \<and> (\<forall>j < i. key (xs ! j) < k) \<and> (\<forall>j. i \<le> j \<longrightarrow> j < length xs \<longrightarrow> k < key (xs ! j))"
proof -
  have "key (xs ! i) < key (xs ! j)" if "i < j" "j < length xs" for i j
    using assms that by (simp add: sorted_wrt_iff_nth_less)
  then have "ordered (\<lambda>x. cmp (key x) k) xs" by (fastforce simp: ordered_def)
  then show ?thesis using binary_search_by_spec [of "\<lambda>x. cmp (key x) k" xs] by (simp add: binary_search_by_key_def split: result.splits)
qed

lemma sorted_key_inj:
  "sorted_wrt (\<lambda>x y. key x < (key y :: nat)) xs \<Longrightarrow> i < length xs \<Longrightarrow> j < length xs \<Longrightarrow> key (xs ! i) = key (xs ! j) \<Longrightarrow> i = j"
  by (metis less_irrefl linorder_neqE_nat sorted_wrt_iff_nth_less)

lemma sorted_insert_at:
  assumes "sorted_wrt (\<lambda>x y. key x < key y) xs" "binary_search_by_key (key x) key xs = Err i"
  shows "sorted_wrt (\<lambda>x y. key x < key y) (insert_at i x xs)"
proof -
  note s = binary_search_sorted [OF assms(1), of "key x", unfolded assms(2), simplified]
  have "\<forall>y \<in> set (take i xs). key y < key x" using s by (auto simp: in_set_conv_nth)
  moreover have "\<forall>y \<in> set (drop i xs). key x < key y" using s by (auto simp: in_set_conv_nth)
  moreover have "sorted_wrt (\<lambda>x y. key x < key y) (take i xs @ drop i xs)" using assms(1) by simp
  ultimately show ?thesis unfolding insert_at_def sorted_wrt_append by auto
qed

lemma sorted_remove_at: "sorted_wrt P xs \<Longrightarrow> sorted_wrt P (remove_at i xs)"
proof -
  assume "sorted_wrt P xs"
  then have s: "sorted_wrt P (take (Suc i) xs @ drop (Suc i) xs)" by simp
  have "set (take i xs) \<subseteq> set (take (Suc i) xs)" by (rule set_take_subset_set_take) simp
  then show ?thesis using s sorted_wrt_take [of P "take (Suc i) xs" i] unfolding remove_at_def sorted_wrt_append by (auto simp: min_def)
qed

lemma set_remove_at:
  assumes "distinct xs" "i < length xs"
  shows "set (remove_at i xs) = set xs - {xs ! i}"
proof -
  have xs: "xs = take i xs @ xs ! i # drop (Suc i) xs" using assms(2) by (rule id_take_nth_drop)
  have "distinct (take i xs @ xs ! i # drop (Suc i) xs)" using assms(1) xs by simp
  then have "xs ! i \<notin> set (take i xs) \<union> set (drop (Suc i) xs)" by simp
  moreover have "set xs = set (take i xs) \<union> {xs ! i} \<union> set (drop (Suc i) xs)" by (subst xs) auto
  ultimately show ?thesis unfolding remove_at_def by auto
qed

end
