(* ===== verification/Range_Vectors.thy ===== *)
theory Range_Vectors
  imports Slices
begin

text \<open>
  Vectors of address ranges that keep neighbours merged. The kernel has the same code twice, for
  the areas of an address space (\<open>aether-process/src/process.rs\<close>) and for the regions a process
  mapped (\<open>aether-kernel/src/process.rs\<close>); here it is a function of the test for mergeable
  neighbours and of the extension of the first by the second. What a vector means is a set for
  every address, and the locale states what merging must keep of it.
\<close>

section \<open>Merging neighbours\<close>

definition merge_at :: "('v \<Rightarrow> 'v \<Rightarrow> 'v) \<Rightarrow> 'v list \<Rightarrow> nat \<Rightarrow> 'v list" where
  "merge_at ext vs i = remove_at (Suc i) (vs[i := ext (vs ! i) (vs ! Suc i)])"

fun merge_left_by :: "('v \<Rightarrow> 'v \<Rightarrow> bool) \<Rightarrow> ('v \<Rightarrow> 'v \<Rightarrow> 'v) \<Rightarrow> 'v list \<Rightarrow> nat \<Rightarrow> 'v list \<times> nat" where
  "merge_left_by mg ext vs 0 = (vs, 0)"
| "merge_left_by mg ext vs (Suc i) =
     (if mg (vs ! i) (vs ! Suc i) then merge_left_by mg ext (merge_at ext vs i) i else (vs, Suc i))"

function merge_right_by :: "('v \<Rightarrow> 'v \<Rightarrow> bool) \<Rightarrow> ('v \<Rightarrow> 'v \<Rightarrow> 'v) \<Rightarrow> 'v list \<Rightarrow> nat \<Rightarrow> 'v list" where
  "merge_right_by mg ext vs i =
     (if Suc i < length vs \<and> mg (vs ! i) (vs ! Suc i) then merge_right_by mg ext (merge_at ext vs i) i else vs)"
  by pat_completeness auto
termination
  by (relation "measure (\<lambda>(mg, ext, vs, i). length vs)") (auto simp: merge_at_def remove_at_def)

declare merge_right_by.simps [simp del]

definition merge_around :: "('v \<Rightarrow> 'v \<Rightarrow> bool) \<Rightarrow> ('v \<Rightarrow> 'v \<Rightarrow> 'v) \<Rightarrow> 'v list \<Rightarrow> nat \<Rightarrow> 'v list" where
  "merge_around mg ext vs i = (if vs = [] then vs else let (vs1, i1) = merge_left_by mg ext vs i in merge_right_by mg ext vs1 i1)"

definition coalesce_step :: "('v \<Rightarrow> 'v \<Rightarrow> bool) \<Rightarrow> ('v \<Rightarrow> 'v \<Rightarrow> 'v) \<Rightarrow> 'v list \<Rightarrow> 'v \<Rightarrow> 'v list" where
  "coalesce_step mg ext merged v =
     (if merged \<noteq> [] \<and> mg (last merged) v then butlast merged @ [ext (last merged) v] else merged @ [v])"

definition coalesce_by :: "('v \<Rightarrow> 'v \<Rightarrow> bool) \<Rightarrow> ('v \<Rightarrow> 'v \<Rightarrow> 'v) \<Rightarrow> 'v list \<Rightarrow> 'v list" where
  "coalesce_by mg ext vs = (if length vs < 2 then vs else foldl (coalesce_step mg ext) [] vs)"

section \<open>The meaning of a vector\<close>

definition within :: "('v \<Rightarrow> usize) \<Rightarrow> ('v \<Rightarrow> usize) \<Rightarrow> 'v \<Rightarrow> usize \<Rightarrow> bool" where
  "within lo hi v a \<longleftrightarrow> lo v \<le> a \<and> a < hi v"

definition cover :: "('v \<Rightarrow> usize) \<Rightarrow> ('v \<Rightarrow> usize) \<Rightarrow> ('v \<Rightarrow> usize \<Rightarrow> 'b) \<Rightarrow> 'v list \<Rightarrow> usize \<Rightarrow> 'b set" where
  "cover lo hi sem vs a = {sem v a |v. v \<in> set vs \<and> within lo hi v a}"

lemma cover_simps [simp]: "cover lo hi sem [] a = {}"
  "cover lo hi sem (vs @ ws) a = cover lo hi sem vs a \<union> cover lo hi sem ws a"
  "cover lo hi sem (v # vs) a = (if within lo hi v a then {sem v a} else {}) \<union> cover lo hi sem vs a"
  by (auto simp: cover_def)

lemma cover_concat: "cover lo hi sem (concat (map f vs)) a = (\<Union>v \<in> set vs. cover lo hi sem (f v) a)"
  by (induction vs) auto

lemma cover_insert_at: "cover lo hi sem (insert_at i v vs) a = cover lo hi sem (v # vs) a"
  by (auto simp: cover_def)

lemma list_all_concat: "list_all P (concat (map f vs)) \<longleftrightarrow> list_all (\<lambda>v. list_all P (f v)) vs"
  by (induction vs) auto

lemma merge_at_split:
  assumes "Suc i < length vs"
  shows "vs = take i vs @ [vs ! i, vs ! Suc i] @ drop (Suc (Suc i)) vs"
    "merge_at ext vs i = take i vs @ [ext (vs ! i) (vs ! Suc i)] @ drop (Suc (Suc i)) vs"
proof -
  show "vs = take i vs @ [vs ! i, vs ! Suc i] @ drop (Suc (Suc i)) vs"
    using assms by (metis Cons_nth_drop_Suc Suc_lessD append_Cons append_Nil id_take_nth_drop)
  show "merge_at ext vs i = take i vs @ [ext (vs ! i) (vs ! Suc i)] @ drop (Suc (Suc i)) vs"
    using assms by (simp add: merge_at_def remove_at_def take_Suc_conv_app_nth)
qed

text \<open>What extension keeps of every element, merging keeps of the vector.\<close>

lemma merge_at_all:
  assumes "list_all P vs" "Suc i < length vs" "\<And>l r. P l \<Longrightarrow> P (ext l r)"
  shows "list_all P (merge_at ext vs i)" "length (merge_at ext vs i) = length vs - 1"
  using assms merge_at_split(2) [OF assms(2), of ext] by (auto simp: list_all_iff dest: in_set_takeD in_set_dropD)

lemma merge_left_all:
  assumes "list_all P vs" "i < length vs" "\<And>l r. P l \<Longrightarrow> P (ext l r)" "merge_left_by mg ext vs i = (ws, j)"
  shows "list_all P ws"
  using assms(1,2,4)
proof (induction i arbitrary: vs)
  case (Suc i)
  note m = merge_at_all [of P vs i ext, OF Suc.prems(1,2) assms(3)]
  show ?case using Suc.IH [OF m(1)] m(2) Suc.prems by (auto split: if_splits)
qed simp

lemma merge_right_all:
  assumes "\<And>l r. P l \<Longrightarrow> P (ext l r)"
  shows "list_all P vs \<Longrightarrow> list_all P (merge_right_by mg ext vs i)"
proof (induction "length vs" arbitrary: vs rule: less_induct)
  case less
  show ?case
  proof (cases "Suc i < length vs \<and> mg (vs ! i) (vs ! Suc i)")
    case True
    note m = merge_at_all [of P vs i ext, OF less.prems conjunct1 [OF True] assms]
    show ?thesis using less.hyps [OF _ m(1)] m(2) True by (subst merge_right_by.simps) auto
  next
    case False
    then show ?thesis using less.prems by (subst merge_right_by.simps) auto
  qed
qed

lemma merge_around_all:
  assumes "list_all P vs" "i < length vs" "\<And>l r. P l \<Longrightarrow> P (ext l r)"
  shows "list_all P (merge_around mg ext vs i)"
  using merge_left_all [of P vs i ext] merge_right_all [of P ext] assms by (auto simp: merge_around_def split: prod.splits)

lemma coalesce_all:
  assumes "list_all P vs" "\<And>l r. P l \<Longrightarrow> P (ext l r)"
  shows "list_all P (coalesce_by mg ext vs)"
proof -
  have "list_all P (foldl (coalesce_step mg ext) ms vs)" if "list_all P ms" for ms
    using that assms(1)
  proof (induction vs arbitrary: ms)
    case (Cons v vs)
    have "list_all P (coalesce_step mg ext ms v)"
      using Cons.prems assms(2) by (auto simp: coalesce_step_def list_all_iff dest: in_set_butlastD)
    then show ?case using Cons by simp
  qed simp
  then show ?thesis using assms(1) by (simp add: coalesce_by_def)
qed

locale range_vector =
  fixes lo hi :: "'v \<Rightarrow> usize" and sem :: "'v \<Rightarrow> usize \<Rightarrow> 'b" and fit :: "'v \<Rightarrow> bool"
    and mg :: "'v \<Rightarrow> 'v \<Rightarrow> bool" and ext :: "'v \<Rightarrow> 'v \<Rightarrow> 'v"
  assumes ext_cover: "mg l r \<Longrightarrow> fit l \<Longrightarrow> fit r \<Longrightarrow> cover lo hi sem [ext l r] a = cover lo hi sem [l, r] a"
    and ext_fit: "mg l r \<Longrightarrow> fit l \<Longrightarrow> fit r \<Longrightarrow> fit (ext l r)"
begin

lemma merge_at_cover:
  assumes "list_all fit vs" "Suc i < length vs" "mg (vs ! i) (vs ! Suc i)"
  shows "cover lo hi sem (merge_at ext vs i) a = cover lo hi sem vs a" "list_all fit (merge_at ext vs i)"
    "length (merge_at ext vs i) = length vs - 1"
proof -
  have vs: "vs = take i vs @ [vs ! i, vs ! Suc i] @ drop (Suc (Suc i)) vs" by (rule merge_at_split(1) [OF assms(2)])
  note ws = merge_at_split(2) [OF assms(2), of ext]
  have ok: "fit (vs ! i)" "fit (vs ! Suc i)" using assms(1, 2) by (simp_all add: list_all_length)
  have "cover lo hi sem (merge_at ext vs i) a =
      cover lo hi sem (take i vs) a \<union> cover lo hi sem [vs ! i, vs ! Suc i] a \<union> cover lo hi sem (drop (Suc (Suc i)) vs) a"
    unfolding ws using ext_cover [OF assms(3) ok, of a] by (simp only: cover_simps Un_assoc Un_empty_right)
  also have "\<dots> = cover lo hi sem (take i vs @ [vs ! i, vs ! Suc i] @ drop (Suc (Suc i)) vs) a"
    by (simp only: cover_simps(2) Un_assoc)
  finally show "cover lo hi sem (merge_at ext vs i) a = cover lo hi sem vs a" by (simp only: vs [symmetric])
  show "list_all fit (merge_at ext vs i)"
    using assms(1) ext_fit [OF assms(3) ok] ws by (auto simp: list_all_iff dest: in_set_takeD in_set_dropD)
  show "length (merge_at ext vs i) = length vs - 1" using assms(2) by (simp add: ws)
qed

lemma merge_left_cover:
  assumes "list_all fit vs" "i < length vs" "merge_left_by mg ext vs i = (ws, j)"
  shows "cover lo hi sem ws a = cover lo hi sem vs a \<and> list_all fit ws \<and> j < length ws"
  using assms
proof (induction i arbitrary: vs)
  case (Suc i)
  show ?case
  proof (cases "mg (vs ! i) (vs ! Suc i)")
    case True
    note m = merge_at_cover [OF Suc.prems(1, 2) True]
    show ?thesis using Suc.IH [OF m(2)] m Suc.prems(2, 3) True by auto
  qed (use Suc.prems in auto)
qed simp

lemma merge_right_cover:
  "list_all fit vs \<Longrightarrow> cover lo hi sem (merge_right_by mg ext vs i) a = cover lo hi sem vs a \<and> list_all fit (merge_right_by mg ext vs i)"
proof (induction "length vs" arbitrary: vs rule: less_induct)
  case less
  show ?case
  proof (cases "Suc i < length vs \<and> mg (vs ! i) (vs ! Suc i)")
    case True
    note m = merge_at_cover [OF less.prems conjunct1 [OF True] conjunct2 [OF True]]
    show ?thesis using less.hyps [OF _ m(2)] m True by (subst (1 2) merge_right_by.simps) auto
  next
    case False
    then show ?thesis using less.prems by (subst (1 2) merge_right_by.simps) auto
  qed
qed

lemma insert_cover:
  assumes "list_all fit vs" "fit v" "i \<le> length vs"
  shows "cover lo hi sem (merge_around mg ext (insert_at i v vs) i) a = cover lo hi sem (v # vs) a"
    "list_all fit (merge_around mg ext (insert_at i v vs) i)"
proof -
  obtain ws j where left: "merge_left_by mg ext (insert_at i v vs) i = (ws, j)" by force
  have ok: "list_all fit (insert_at i v vs)" using assms(1, 2) by (simp add: list_all_iff)
  have "insert_at i v vs \<noteq> []" by (simp add: insert_at_def)
  then have eq: "merge_around mg ext (insert_at i v vs) i = merge_right_by mg ext ws j" by (simp add: merge_around_def left)
  note ws = merge_left_cover [OF ok _ left] and r = merge_right_cover [of ws j]
  show "cover lo hi sem (merge_around mg ext (insert_at i v vs) i) a = cover lo hi sem (v # vs) a"
    unfolding eq using ws [of a] r [of a] assms(3) cover_insert_at [of lo hi sem i v vs a] by (simp del: cover_simps)
  show "list_all fit (merge_around mg ext (insert_at i v vs) i)" unfolding eq using ws r assms(3) by simp
qed

lemma coalesce_step_cover:
  assumes "list_all fit merged" "fit v"
  shows "cover lo hi sem (coalesce_step mg ext merged v) a = cover lo hi sem (merged @ [v]) a \<and> list_all fit (coalesce_step mg ext merged v)"
proof (cases "merged \<noteq> [] \<and> mg (last merged) v")
  case True
  obtain ms l where m: "merged = ms @ [l]" using True by (metis append_butlast_last_id)
  then have s: "coalesce_step mg ext merged v = ms @ [ext l v]" and l: "mg l v" "fit l" "list_all fit ms"
    using True assms(1) by (simp_all add: coalesce_step_def)
  have "cover lo hi sem (ms @ [ext l v]) a = cover lo hi sem (ms @ [l, v]) a"
    using ext_cover [OF l(1,2) assms(2), of a] by (simp only: cover_simps(2))
  then show ?thesis using s m ext_fit [OF l(1,2) assms(2)] l(3) by (simp del: cover_simps)
qed (use assms in \<open>auto simp: coalesce_step_def\<close>)

lemma foldl_coalesce:
  assumes "list_all fit merged" "list_all fit vs"
  shows "cover lo hi sem (foldl (coalesce_step mg ext) merged vs) a = cover lo hi sem (merged @ vs) a \<and>
    list_all fit (foldl (coalesce_step mg ext) merged vs)"
  using assms
proof (induction vs arbitrary: merged)
  case (Cons v vs)
  then show ?case using coalesce_step_cover [of merged v a] Cons.IH [of "coalesce_step mg ext merged v"] by auto
qed simp

lemma coalesce_cover:
  assumes "list_all fit vs"
  shows "cover lo hi sem (coalesce_by mg ext vs) a = cover lo hi sem vs a" "list_all fit (coalesce_by mg ext vs)"
  using foldl_coalesce [of "[]" vs a] assms by (simp_all add: coalesce_by_def)

text \<open>A pass over the vector that replaces every element, followed by merging.\<close>

lemma rewrite_cover:
  assumes "list_all fit vs" "\<And>v. fit v \<Longrightarrow> list_all fit (f v)"
    "\<And>v. fit v \<Longrightarrow> cover lo hi sem (f v) a = g ` {b \<in> cover lo hi sem [v] a. P b}"
  shows "cover lo hi sem (coalesce_by mg ext (concat (map f vs))) a = g ` {b \<in> cover lo hi sem vs a. P b}"
    "list_all fit (coalesce_by mg ext (concat (map f vs)))"
proof -
  have ok: "list_all fit (concat (map f vs))" using assms(1, 2) by (auto simp: list_all_concat list_all_iff)
  show "list_all fit (coalesce_by mg ext (concat (map f vs)))" by (rule coalesce_cover(2) [OF ok])
  have "cover lo hi sem (coalesce_by mg ext (concat (map f vs))) a = (\<Union>v \<in> set vs. cover lo hi sem (f v) a)"
    by (simp add: coalesce_cover(1) [OF ok] cover_concat)
  also have "\<dots> = (\<Union>v \<in> set vs. g ` {b \<in> cover lo hi sem [v] a. P b})"
    using assms(1, 3) by (simp add: list_all_iff)
  also have "\<dots> = g ` {b \<in> cover lo hi sem vs a. P b}"
    using cover_concat [of lo hi sem "\<lambda>v. [v]" vs a] by (auto simp del: cover_simps)
  finally show "cover lo hi sem (coalesce_by mg ext (concat (map f vs))) a = g ` {b \<in> cover lo hi sem vs a. P b}" .
qed

end

end
