(* ===== verification/Vmas.thy ===== *)
theory Vmas
  imports Errno Range_Vectors
begin

text \<open>
  The memory areas of a process: the layout of its address space (\<open>aether-process/src/layout.rs\<close>)
  and the sorted vector of areas of \<open>aether-process/src/process.rs\<close>, with the operations that
  record, split, merge and search it. Areas may touch a common page (neighbouring segments of a
  program), so the meaning of the vector is, for every address, the set of what backs it.
\<close>

section \<open>Layout and areas\<close>

record user_layout =
  region_base :: usize
  region_align :: usize
  pie_base :: usize
  interpreter_base :: usize
  stack_end :: usize
  mmap_top :: usize
  brk_reserve :: usize
  default_elf_stack_pages :: usize

definition USER_VA_ALIGN :: usize where
  "USER_VA_ALIGN = 0x200000"

definition INTERPRETER_BASE :: usize where
  "INTERPRETER_BASE = 0x6ff000000000"

definition layout_current :: user_layout where
  "layout_current = \<lparr>region_base = 0x40000000, region_align = USER_VA_ALIGN, pie_base = 0x600000000000,
     interpreter_base = INTERPRETER_BASE, stack_end = 0x700000000000, mmap_top = INTERPRETER_BASE - USER_VA_ALIGN,
     brk_reserve = 16 * 1024 * 1024, default_elf_stack_pages = 64\<rparr>"

text \<open>
  An image source is what \<open>read_exact_at\<close> does: from an offset, the bytes asked for or an error.
\<close>

type_synonym image_source = "usize \<Rightarrow> usize \<Rightarrow> (image_error, byte list) result"

datatype vma_kind = Program | Heap | Stack | Anonymous
  | PagedImage image_source usize usize
  | ElfSegmentImage image_source usize usize usize usize
  | Shared | Device

record user_vma =
  v_start :: usize
  v_end :: usize
  v_flags :: map_flags
  v_kind :: vma_kind
  v_lazy :: bool

fun adjusted :: "vma_kind \<Rightarrow> usize \<Rightarrow> vma_kind" where
  "adjusted (PagedImage source image_offset image_len) delta =
     PagedImage source (saturating_add image_offset delta) (image_len - delta)"
| "adjusted (ElfSegmentImage source segment_start image_offset image_len order) delta =
     ElfSegmentImage source segment_start image_offset image_len order"
| "adjusted other delta = other"

fun can_merge_with :: "vma_kind \<Rightarrow> vma_kind \<Rightarrow> bool" where
  "can_merge_with Program Program = True"
| "can_merge_with Heap Heap = True"
| "can_merge_with Stack Stack = True"
| "can_merge_with Anonymous Anonymous = True"
| "can_merge_with Shared Shared = True"
| "can_merge_with Device Device = True"
| "can_merge_with _ _ = False"

definition slice_vma :: "user_vma \<Rightarrow> usize \<Rightarrow> usize \<Rightarrow> user_vma" where
  "slice_vma v s e = v\<lparr>v_start := s, v_end := e, v_kind := adjusted (v_kind v) (s - v_start v)\<rparr>"

definition lazy_order :: "user_vma \<Rightarrow> usize" where
  "lazy_order v = (case v_kind v of ElfSegmentImage _ _ _ _ order \<Rightarrow> order | _ \<Rightarrow> 0)"

section \<open>The vector of areas\<close>

definition vmas_mergeable :: "user_vma \<Rightarrow> user_vma \<Rightarrow> bool" where
  "vmas_mergeable l r \<longleftrightarrow> v_end l = v_start r \<and> v_flags l = v_flags r \<and> v_lazy l = v_lazy r
     \<and> can_merge_with (v_kind l) (v_kind r)"

definition extend_vma :: "user_vma \<Rightarrow> user_vma \<Rightarrow> user_vma" where
  "extend_vma l r = l\<lparr>v_end := v_end r\<rparr>"

definition merge_vma_neighbors_around :: "user_vma list \<Rightarrow> nat \<Rightarrow> user_vma list" where
  "merge_vma_neighbors_around = merge_around vmas_mergeable extend_vma"

definition coalesce_vmas :: "user_vma list \<Rightarrow> user_vma list" where
  "coalesce_vmas = coalesce_by vmas_mergeable extend_vma"

definition record_vma :: "usize \<Rightarrow> usize \<Rightarrow> map_flags \<Rightarrow> vma_kind \<Rightarrow> bool \<Rightarrow> user_vma list \<Rightarrow> user_vma list" where
  "record_vma s e flags kind lazy vs =
     (let i = unwrap_either (binary_search_by_key s v_start vs)
      in merge_vma_neighbors_around
           (insert_at i \<lparr>v_start = s, v_end = e, v_flags = flags, v_kind = kind, v_lazy = lazy\<rparr> vs) i)"

definition vma_range_overlaps :: "usize \<Rightarrow> usize \<Rightarrow> user_vma list \<Rightarrow> bool" where
  "vma_range_overlaps s e vs \<longleftrightarrow> list_ex (\<lambda>v. v_start v < e \<and> s < v_end v) vs"

fun window_start :: "user_vma list \<Rightarrow> usize \<Rightarrow> nat \<Rightarrow> nat" where
  "window_start vs page_base 0 = 0"
| "window_start vs page_base (Suc i) = (if v_end (vs ! i) > page_base then window_start vs page_base i else Suc i)"

definition lazy_vma_window :: "usize \<Rightarrow> usize \<Rightarrow> user_vma list \<Rightarrow> (nat \<times> nat) option" where
  "lazy_vma_window page_base page_end vs =
     (let end_index = partition_point (\<lambda>v. v_start v < page_end) vs; start_index = window_start vs page_base end_index
      in if start_index \<noteq> end_index then Some (start_index, end_index) else None)"

fun update_heap_vma_end :: "usize \<Rightarrow> user_vma list \<Rightarrow> user_vma list" where
  "update_heap_vma_end e [] = []"
| "update_heap_vma_end e (v # vs) = (if v_kind v = Heap then v\<lparr>v_end := e\<rparr> # vs else v # update_heap_vma_end e vs)"

definition flags_pieces :: "usize \<Rightarrow> usize \<Rightarrow> map_flags \<Rightarrow> user_vma \<Rightarrow> user_vma list" where
  "flags_pieces s e flags v =
     (if v_end v \<le> s \<or> v_start v \<ge> e then [v]
      else (if s > v_start v then [slice_vma v (v_start v) s] else [])
        @ [(slice_vma v (max (v_start v) s) (min (v_end v) e))\<lparr>v_flags := flags\<rparr>]
        @ (if e < v_end v then [slice_vma v e (v_end v)] else []))"

definition update_vma_flags :: "usize \<Rightarrow> usize \<Rightarrow> map_flags \<Rightarrow> user_vma list \<Rightarrow> user_vma list" where
  "update_vma_flags s e flags vs = coalesce_vmas (concat (map (flags_pieces s e flags) vs))"

definition remaining_pieces :: "usize \<Rightarrow> usize \<Rightarrow> user_vma \<Rightarrow> user_vma list" where
  "remaining_pieces s e v =
     (if e \<le> v_start v \<or> s \<ge> v_end v then [v]
      else (if s > v_start v then [slice_vma v (v_start v) s] else [])
        @ (if e < v_end v then [slice_vma v e (v_end v)] else []))"

definition remove_vma_range :: "usize \<Rightarrow> usize \<Rightarrow> user_vma list \<Rightarrow> user_vma list" where
  "remove_vma_range s e vs = coalesce_vmas (concat (map (remaining_pieces s e) vs))"

text \<open>The loop of \<open>find_top_down_gap\<close> over the areas from the top.\<close>

definition gap_candidate :: "usize \<Rightarrow> usize \<Rightarrow> usize \<Rightarrow> usize option" where
  "gap_candidate lower gap_end len =
     (if len \<le> gap_end \<and> lower \<le> align_down (gap_end - len) PAGE_SIZE then Some (align_down (gap_end - len) PAGE_SIZE)
      else None)"

fun gap_loop :: "usize \<Rightarrow> usize \<Rightarrow> usize \<Rightarrow> usize \<Rightarrow> user_vma list \<Rightarrow> usize option" where
  "gap_loop lower upper len gap_end [] = gap_candidate lower gap_end len"
| "gap_loop lower upper len gap_end (v # vs) =
     (if v_start v \<ge> upper then gap_loop lower upper len gap_end vs
      else if v_end v \<le> lower then gap_candidate lower gap_end len
      else case gap_candidate lower gap_end len of
        Some base \<Rightarrow>
          if saturating_add base len \<le> v_start v then Some base
          else if align_down (v_start v) PAGE_SIZE \<le> lower then None
          else gap_loop lower upper len (align_down (v_start v) PAGE_SIZE) vs
      | None \<Rightarrow>
          if align_down (v_start v) PAGE_SIZE \<le> lower then None
          else gap_loop lower upper len (align_down (v_start v) PAGE_SIZE) vs)"

definition find_top_down_gap :: "usize \<Rightarrow> usize \<Rightarrow> usize \<Rightarrow> user_vma list \<Rightarrow> usize option" where
  "find_top_down_gap lower upper len vs =
     (let aligned_len = align_up len PAGE_SIZE
      in if upper < lower \<or> upper - lower < aligned_len then None
      else gap_loop lower upper aligned_len upper (rev vs))"

definition is_range_free :: "usize \<Rightarrow> usize \<Rightarrow> user_vma list \<Rightarrow> bool" where
  "is_range_free addr len vs \<longleftrightarrow> len \<noteq> 0 \<and> is_aligned addr PAGE_SIZE \<and>
     (case checked_add addr (align_up len PAGE_SIZE) of
        None \<Rightarrow> False | Some e \<Rightarrow> \<not> vma_range_overlaps addr e vs)"

section \<open>What backs an address\<close>

text \<open>
  An area backs an address with its flags, its kind as seen from that address (the rest of the
  image from there on) and its laziness.
\<close>

definition backing_of :: "user_vma \<Rightarrow> usize \<Rightarrow> map_flags \<times> vma_kind \<times> bool" where
  "backing_of v a = (v_flags v, adjusted (v_kind v) (a - v_start v), v_lazy v)"

abbreviation backing :: "user_vma list \<Rightarrow> usize \<Rightarrow> (map_flags \<times> vma_kind \<times> bool) set" where
  "backing \<equiv> cover v_start v_end backing_of"

definition vma_ok :: "user_vma \<Rightarrow> bool" where
  "vma_ok v \<longleftrightarrow> v_start v \<le> v_end v"

lemma adjusted_adjusted: "adjusted (adjusted k d) e = adjusted k (d + e)"
  by (cases k) (auto simp: saturating_add_def)

lemma backing_of_slice:
  "v_start v \<le> s \<Longrightarrow> s \<le> a \<Longrightarrow> backing_of (slice_vma v s e) a = backing_of v a"
  by (simp add: backing_of_def slice_vma_def adjusted_adjusted)

lemma within_slice [simp]: "within v_start v_end (slice_vma v s e) a \<longleftrightarrow> s \<le> a \<and> a < e"
  by (simp add: within_def slice_vma_def)

text \<open>Merging neighbours changes nothing.\<close>

lemma can_merge_adjusted: "can_merge_with k l \<Longrightarrow> adjusted k d = k \<and> l = k"
  by (cases "(k, l)" rule: can_merge_with.cases) simp_all

interpretation vmas: range_vector v_start v_end backing_of vma_ok vmas_mergeable extend_vma
proof
  fix l r a assume m: "vmas_mergeable l r" "vma_ok l" "vma_ok r"
  have "adjusted (v_kind l) d = v_kind l" "v_kind r = v_kind l" for d
    using can_merge_adjusted [of "v_kind l" "v_kind r"] m(1) by (simp_all add: vmas_mergeable_def)
  then show "backing [extend_vma l r] a = backing [l, r] a"
    using m by (auto simp: vmas_mergeable_def vma_ok_def within_def backing_of_def extend_vma_def)
  show "vma_ok (extend_vma l r)" using m by (simp add: vmas_mergeable_def vma_ok_def extend_vma_def)
qed

text \<open>Removing a range removes exactly its addresses; protecting one changes exactly its flags.\<close>

definition with_flags :: "map_flags \<Rightarrow> map_flags \<times> vma_kind \<times> bool \<Rightarrow> map_flags \<times> vma_kind \<times> bool" where
  "with_flags flags b = (flags, snd b)"

lemma remaining_pieces_spec:
  assumes "vma_ok v" "s \<le> e"
  shows "backing (remaining_pieces s e v) a = (\<lambda>b. b) ` {b \<in> backing [v] a. \<not> (s \<le> a \<and> a < e)}"
    "list_all vma_ok (remaining_pieces s e v)"
  using assms by (auto simp: remaining_pieces_def backing_of_slice vma_ok_def)
    (auto simp: within_def slice_vma_def)

lemma flags_pieces_spec:
  assumes "vma_ok v" "s \<le> e"
  shows "backing (flags_pieces s e flags v) a =
      (if s \<le> a \<and> a < e then with_flags flags else (\<lambda>b. b)) ` {b \<in> backing [v] a. True}"
    "list_all vma_ok (flags_pieces s e flags v)"
proof -
  have mid: "backing_of ((slice_vma v m e')\<lparr>v_flags := flags\<rparr>) a = with_flags flags (backing_of v a)"
    if "v_start v \<le> m" "m \<le> a" for m e'
    using backing_of_slice [OF that, of e'] by (simp add: backing_of_def slice_vma_def with_flags_def)
  have midb: "within v_start v_end ((slice_vma v m e')\<lparr>v_flags := flags\<rparr>) a \<longleftrightarrow> m \<le> a \<and> a < e'" for m e'
    by (simp add: within_def slice_vma_def)
  show "backing (flags_pieces s e flags v) a =
      (if s \<le> a \<and> a < e then with_flags flags else (\<lambda>b. b)) ` {b \<in> backing [v] a. True}"
    using assms by (auto simp: flags_pieces_def backing_of_slice mid midb) (auto simp: within_def)
  show "list_all vma_ok (flags_pieces s e flags v)"
    using assms by (auto simp: flags_pieces_def vma_ok_def slice_vma_def)
qed

lemma remove_vma_range_spec:
  assumes "list_all vma_ok vs" "s \<le> e"
  shows "backing (remove_vma_range s e vs) a = (if s \<le> a \<and> a < e then {} else backing vs a)"
    "list_all vma_ok (remove_vma_range s e vs)"
  using vmas.rewrite_cover [OF assms(1), of "remaining_pieces s e" a "\<lambda>b. b" "\<lambda>b. \<not> (s \<le> a \<and> a < e)"]
    remaining_pieces_spec [OF _ assms(2)]
  by (auto simp: remove_vma_range_def coalesce_vmas_def)

lemma update_vma_flags_spec:
  assumes "list_all vma_ok vs" "s \<le> e"
  shows "backing (update_vma_flags s e flags vs) a =
      (if s \<le> a \<and> a < e then with_flags flags ` backing vs a else backing vs a)"
    "list_all vma_ok (update_vma_flags s e flags vs)"
  using vmas.rewrite_cover [OF assms(1), of "flags_pieces s e flags" a "if s \<le> a \<and> a < e then with_flags flags else (\<lambda>b. b)" "\<lambda>b. True"]
    flags_pieces_spec [OF _ assms(2)]
  by (auto simp: update_vma_flags_def coalesce_vmas_def)

section \<open>Recording an area\<close>

text \<open>Whatever the order of the vector, an insertion index of the binary search is in range.\<close>

lemma record_vma_spec:
  assumes "list_all vma_ok vs" "s \<le> e"
  shows "backing (record_vma s e flags kind lazy vs) a =
      backing vs a \<union> (if s \<le> a \<and> a < e then {(flags, adjusted kind (a - s), lazy)} else {})"
    "list_all vma_ok (record_vma s e flags kind lazy vs)"
proof -
  let ?v = "\<lparr>v_start = s, v_end = e, v_flags = flags, v_kind = kind, v_lazy = lazy\<rparr>"
  have v: "vma_ok ?v" using assms(2) by (simp add: vma_ok_def)
  note i = vmas.insert_cover [OF assms(1) v binary_search_index]
  show "backing (record_vma s e flags kind lazy vs) a =
      backing vs a \<union> (if s \<le> a \<and> a < e then {(flags, adjusted kind (a - s), lazy)} else {})"
    using i(1) [of s v_start a] by (simp add: record_vma_def merge_vma_neighbors_around_def Let_def within_def backing_of_def)
  show "list_all vma_ok (record_vma s e flags kind lazy vs)"
    using i(2) by (simp add: record_vma_def merge_vma_neighbors_around_def Let_def)
qed

section \<open>Searching for a gap\<close>

text \<open>
  The areas that the search looks at: in ascending order, page aligned, no two with the same
  start.
\<close>

definition staircase :: "user_vma list \<Rightarrow> bool" where
  "staircase vs \<longleftrightarrow> sorted_wrt (\<lambda>v w. v_start v < v_start w \<and> v_end v \<le> v_end w) vs
     \<and> list_all (\<lambda>v. v_start v mod PAGE_SIZE = 0 \<and> v_start v < usize_range) vs"

lemma page_size_pos: "0 < PAGE_SIZE"
  by (simp add: PAGE_SIZE_def PAGE_SHIFT_def)

lemma align_down_aligned: "a < usize_range \<Longrightarrow> a mod PAGE_SIZE = 0 \<Longrightarrow> align_down a PAGE_SIZE = a"
  using align_down_page [of a] div_mult_mod_eq [of a PAGE_SIZE] by simp

lemma gap_candidate_eq:
  assumes "g < usize_range" "g mod PAGE_SIZE = 0" "len mod PAGE_SIZE = 0"
  shows "gap_candidate lower g len = (if lower + len \<le> g then Some (g - len) else None)"
proof (cases "len \<le> g")
  case True
  have "(g - len) mod PAGE_SIZE = 0" using assms True by (metis mod_0_imp_dvd dvd_diff_nat mod_0_imp_dvd dvd_imp_mod_0)
  then have "align_down (g - len) PAGE_SIZE = g - len" using assms(1) by (intro align_down_aligned) simp_all
  then show ?thesis using True by (auto simp: gap_candidate_def)
qed (simp add: gap_candidate_def)

lemma gap_candidate_None: "g \<le> lower \<Longrightarrow> 0 < len \<Longrightarrow> g < usize_range \<Longrightarrow> gap_candidate lower g len = None"
proof -
  assume a: "g \<le> lower" "0 < len" "g < usize_range"
  then have "align_down (g - len) PAGE_SIZE \<le> g - len" using align_down_page [of "g - len"] by (simp add: less_imp_diff_less)
  then show ?thesis using a by (auto simp: gap_candidate_def)
qed

text \<open>The lowest start, below \<open>upper\<close>, of the areas that reach above \<open>lower\<close>; \<open>upper\<close> if there are none.\<close>

fun lowest_start :: "usize \<Rightarrow> usize \<Rightarrow> usize \<Rightarrow> user_vma list \<Rightarrow> usize" where
  "lowest_start lower upper g [] = g"
| "lowest_start lower upper g (v # vs) =
     (if v_start v \<ge> upper then lowest_start lower upper g vs
      else if v_end v \<le> lower then g else lowest_start lower upper (v_start v) vs)"

lemma lowest_start_le: "sorted_wrt (\<lambda>v w. v_start w < v_start v) vs \<Longrightarrow> \<forall>v \<in> set vs. v_start v < g \<or> upper \<le> v_start v \<Longrightarrow>
    lowest_start lower upper g vs \<le> g"
proof (induction vs arbitrary: g)
  case (Cons v vs)
  have "lowest_start lower upper (v_start v) vs \<le> v_start v" using Cons.prems(1) by (intro Cons.IH) auto
  then have "lowest_start lower upper (v_start v) vs \<le> g" if "v_start v < g" using that by simp
  then show ?case using Cons by auto
qed simp

lemma gap_loop_eq:
  assumes "sorted_wrt (\<lambda>v w. v_start w < v_start v) vs" "\<forall>v \<in> set vs. v_start v mod PAGE_SIZE = 0 \<and> v_start v < usize_range"
    and "g < usize_range" "g mod PAGE_SIZE = 0" "len mod PAGE_SIZE = 0" "\<forall>v \<in> set vs. v_start v < g \<or> upper \<le> v_start v"
    and "lower < g" "0 < len"
  shows "gap_loop lower upper len g vs = gap_candidate lower (lowest_start lower upper g vs) len"
  using assms
proof (induction vs arbitrary: g)
  case (Cons v vs)
  let ?low = "lowest_start lower upper (v_start v) vs"
  have v: "v_start v mod PAGE_SIZE = 0" "v_start v < usize_range" using Cons.prems(2) by simp_all
  have down: "align_down (v_start v) PAGE_SIZE = v_start v" using v by (simp add: align_down_aligned)
  show ?case
  proof (cases "v_start v \<ge> upper")
    case True
    then show ?thesis using Cons.IH [of g] Cons.prems by simp
  next
    case False
    then have less: "v_start v < g" using Cons.prems(6) by auto
    have no: "\<not> saturating_add base len \<le> v_start v" if "gap_candidate lower g len = Some base" for base
      using that less Cons.prems(3) unfolding gap_candidate_eq [OF Cons.prems(3-5)]
      by (auto simp: saturating_add_def split: if_splits)
    have low: "?low \<le> v_start v" using Cons.prems(1) by (intro lowest_start_le) auto
    show ?thesis
    proof (cases "v_end v \<le> lower")
      case reach: False
      show ?thesis
      proof (cases "v_start v \<le> lower")
        case True
        have "lowest_start lower upper g (v # vs) = ?low" using \<open>\<not> v_start v \<ge> upper\<close> reach by simp
        moreover have "gap_loop lower upper len g (v # vs) = None"
          using no \<open>\<not> v_start v \<ge> upper\<close> reach True by (auto simp: down split: option.splits)
        moreover have "gap_candidate lower ?low len = None"
          using gap_candidate_None [of ?low lower len] low True Cons.prems(8) v(2) by simp
        ultimately show ?thesis by simp
      next
        case start: False
        then have "gap_loop lower upper len (v_start v) vs = gap_candidate lower ?low len"
          using Cons.prems v by (intro Cons.IH) auto
        then show ?thesis using no \<open>\<not> v_start v \<ge> upper\<close> reach start by (auto simp: down split: option.splits)
      qed
    qed (use \<open>\<not> v_start v \<ge> upper\<close> in simp)
  qed
qed simp

lemma align_up_spec:
  assumes "0 < len" "len + PAGE_SIZE \<le> usize_range"
  shows "len \<le> align_up len PAGE_SIZE" "align_up len PAGE_SIZE mod PAGE_SIZE = 0" "align_up len PAGE_SIZE < usize_range"
proof -
  have eq: "align_up len PAGE_SIZE = (len + PAGE_SIZE - 1) div PAGE_SIZE * PAGE_SIZE"
    using align_up_page [of len] assms by simp
  show "align_up len PAGE_SIZE mod PAGE_SIZE = 0" by (simp add: eq)
  have "len + PAGE_SIZE - 1 < align_up len PAGE_SIZE + PAGE_SIZE"
    unfolding eq using dividend_less_div_times [OF page_size_pos] by (simp add: add.commute)
  then show "len \<le> align_up len PAGE_SIZE" using page_size_pos by simp
  have "align_up len PAGE_SIZE \<le> len + PAGE_SIZE - 1" unfolding eq by (rule div_times_less_eq_dividend)
  then show "align_up len PAGE_SIZE < usize_range" using assms page_size_pos by linarith
qed

lemma lowest_start_covers:
  assumes "sorted_wrt (\<lambda>v w. v_start w < v_start v \<and> v_end w \<le> v_end v) vs" "v \<in> set vs"
    and "\<forall>v \<in> set vs. v_start v < g \<or> upper \<le> v_start v"
  shows "upper \<le> v_start v \<or> lowest_start lower upper g vs \<le> v_start v \<or> v_end v \<le> lower"
  using assms
proof (induction vs arbitrary: g)
  case (Cons w vs)
  have sorted: "sorted_wrt (\<lambda>v w. v_start w < v_start v) vs"
    using Cons.prems(1) by (auto intro: sorted_wrt_mono_rel [rotated])
  have "lowest_start lower upper (v_start w) vs \<le> v_start w"
    using Cons.prems(1) by (intro lowest_start_le [OF sorted]) auto
  then show ?case using Cons.IH [of g] Cons.IH [of "v_start w"] Cons.prems by fastforce
qed simp

lemma lowest_start_aligned:
  "\<forall>v \<in> set vs. v_start v mod PAGE_SIZE = 0 \<Longrightarrow> g mod PAGE_SIZE = 0 \<Longrightarrow> lowest_start lower upper g vs mod PAGE_SIZE = 0"
  by (induction vs arbitrary: g) auto

lemma find_top_down_gap_eq:
  assumes "staircase vs" "lower < upper" "upper < usize_range" "upper mod PAGE_SIZE = 0"
    and len: "0 < len" "len + PAGE_SIZE \<le> usize_range"
  defines "low \<equiv> lowest_start lower upper upper (rev vs)" and "alen \<equiv> align_up len PAGE_SIZE"
  shows "find_top_down_gap lower upper len vs = (if lower + alen \<le> low then Some (low - alen) else None)"
    "low \<le> upper" "low mod PAGE_SIZE = 0"
    "\<forall>v \<in> set vs. upper \<le> v_start v \<or> low \<le> v_start v \<or> v_end v \<le> lower"
proof -
  have sorted: "sorted_wrt (\<lambda>v w. v_start w < v_start v \<and> v_end w \<le> v_end v) (rev vs)"
    using assms(1) by (simp add: staircase_def sorted_wrt_rev)
  then have strict: "sorted_wrt (\<lambda>v w. v_start w < v_start v) (rev vs)" by (rule sorted_wrt_mono_rel [rotated]) simp
  have al: "\<forall>v \<in> set (rev vs). v_start v mod PAGE_SIZE = 0 \<and> v_start v < usize_range"
    using assms(1) by (auto simp: staircase_def list_all_iff)
  have below: "\<forall>v \<in> set (rev vs). v_start v < upper \<or> upper \<le> v_start v" by auto
  have alen: "0 < alen" "alen mod PAGE_SIZE = 0" using align_up_spec [OF len] len(1) by (auto simp: alen_def)
  show low: "low \<le> upper" unfolding low_def using lowest_start_le [OF strict below] .
  show aligned: "low mod PAGE_SIZE = 0" unfolding low_def using al assms(4) by (intro lowest_start_aligned) auto
  show "\<forall>v \<in> set vs. upper \<le> v_start v \<or> low \<le> v_start v \<or> v_end v \<le> lower"
    unfolding low_def using lowest_start_covers [OF sorted _ below] by auto
  have "gap_loop lower upper alen upper (rev vs) = gap_candidate lower low alen"
    unfolding low_def by (rule gap_loop_eq [OF strict al assms(3, 4) alen(2) below assms(2) alen(1)])
  also have "\<dots> = (if lower + alen \<le> low then Some (low - alen) else None)"
    using low assms(3) aligned alen(2) by (intro gap_candidate_eq) simp_all
  finally show "find_top_down_gap lower upper len vs = (if lower + alen \<le> low then Some (low - alen) else None)"
    using low assms(2) unfolding find_top_down_gap_def alen_def [symmetric] by (auto simp: Let_def)
qed

end
