(* ===== verification/User_Space.thy ===== *)
theory User_Space
  imports Vmas
begin

text \<open>
  The address space of a process, \<open>UserAddressSpaceInner\<close> of \<open>aether-process/src/process.rs\<close>: the
  pages it has mapped, the areas that say what may be mapped, the heap, and the page tables.
  The frame allocator, the page table format and the making of a root table come as a record of
  functions, as the code takes them from traits and globals. The state is the address space
  with the physical memory; a function returns its result with both, and \<open>None\<close> where the
  code would panic.
\<close>

section \<open>The environment and the state\<close>

record 's vm_env =
  e_arch :: arch
  e_alloc :: "'s \<Rightarrow> usize \<Rightarrow> ('s, frame_alloc_error, phys_frame) run"
  e_retain :: "'s \<Rightarrow> phys_frame \<Rightarrow> ('s, frame_alloc_error, nat) run"
  e_release :: "'s \<Rightarrow> phys_frame \<Rightarrow> usize \<Rightarrow> ('s, frame_alloc_error, nat) run"
  e_ref_count :: "'s \<Rightarrow> phys_frame \<Rightarrow> nat option option"
  e_new_root :: "'s mm \<Rightarrow> ('s mm, mapping_error, phys_frame) run"

record user_mapping =
  m_virt :: usize
  m_frame :: phys_frame
  m_flags :: map_flags
  m_cow :: bool
  m_owned :: bool
  m_shared :: bool

record user_space =
  us_layout :: user_layout
  us_root :: phys_frame
  us_stack_base :: usize
  us_mappings :: "user_mapping list"
  us_vmas :: "user_vma list"
  brk_start :: usize
  brk_current :: usize
  brk_limit :: usize

type_synonym 's vm = "user_space \<times> 's mm"
type_synonym ('s, 'a) vm_run = "('s vm, build_error, 'a) run"

text \<open>Calls of the mapper and of the allocator, with the conversions of their errors.\<close>

definition map_call :: "('s mm, mapping_error, 'a) run \<Rightarrow> 'u \<Rightarrow> ('u \<times> 's mm, build_error, 'a) run" where
  "map_call c us = (case c of
       None \<Rightarrow> None
     | Some (Ok a, st) \<Rightarrow> Some (Ok a, (us, st))
     | Some (Err e, st) \<Rightarrow> Some (Err (Map e), (us, st)))"

definition frame_call :: "('s, frame_alloc_error, 'a) run \<Rightarrow> 'u \<times> 's mm \<Rightarrow> ('u \<times> 's mm, build_error, 'a) run" where
  "frame_call c vm = (case c of
       None \<Rightarrow> None
     | Some (Ok a, s) \<Rightarrow> Some (Ok a, (fst vm, (snd vm)\<lparr>frames := s\<rparr>))
     | Some (Err e, s) \<Rightarrow> Some (Err (BuildFrame e), (fst vm, (snd vm)\<lparr>frames := s\<rparr>)))"

text \<open>\<open>let _ = call\<close>: the result is dropped, the effects stay.\<close>

definition ignoring :: "('s, 'e, 'a) run \<Rightarrow> ('s \<Rightarrow> ('s, 'f, 'b) run) \<Rightarrow> ('s, 'f, 'b) run" where
  "ignoring m k = (case m of None \<Rightarrow> None | Some (_, s) \<Rightarrow> k s)"

definition page_steps :: "usize \<Rightarrow> usize \<Rightarrow> usize list" where
  "page_steps a b = map (\<lambda>i. a + i * PAGE_SIZE) [0..<(b - a + (PAGE_SIZE - 1)) div PAGE_SIZE]"

text \<open>Loops whose body may fail: the first failure ends the loop, or is ignored.\<close>

fun for_each :: "('x \<Rightarrow> 's \<Rightarrow> ('s, 'e, unit) run) \<Rightarrow> 'x list \<Rightarrow> 's \<Rightarrow> ('s, 'e, unit) run" where
  "for_each f [] s = Some (Ok (), s)"
| "for_each f (x # xs) s = and_then (f x s) (\<lambda>_ s. for_each f xs s)"

fun for_each_ignoring :: "('x \<Rightarrow> 's \<Rightarrow> ('s, 'e, unit) run) \<Rightarrow> 'x list \<Rightarrow> 's \<Rightarrow> ('s, 'f, unit) run" where
  "for_each_ignoring f [] s = Some (Ok (), s)"
| "for_each_ignoring f (x # xs) s = ignoring (f x s) (for_each_ignoring f xs)"

section \<open>Bytes of physical memory\<close>

definition set_byte :: "usize \<Rightarrow> byte \<Rightarrow> cells \<Rightarrow> cells" where
  "set_byte p b m = (let c = 8 * (p div 8) in m(c := of_le_bytes ((le_bytes 8 (m c))[p mod 8 := b])))"

fun write_bytes :: "usize \<Rightarrow> byte list \<Rightarrow> cells \<Rightarrow> cells" where
  "write_bytes p [] m = m"
| "write_bytes p (b # bs) m = write_bytes (p + 1) bs (set_byte p b m)"

definition write_frame_partial :: "phys_frame \<Rightarrow> usize \<Rightarrow> byte list \<Rightarrow> 's mm \<Rightarrow> 's mm" where
  "write_frame_partial frame offset data st = st\<lparr>cells := write_bytes (start_address frame + offset) data (cells st)\<rparr>"

definition copy_frame :: "phys_frame \<Rightarrow> phys_frame \<Rightarrow> 's mm \<Rightarrow> 's mm" where
  "copy_frame source dest st = st\<lparr>cells := (\<lambda>p. if start_address dest \<le> p \<and> p < start_address dest + PAGE_SIZE
     then cells st (start_address source + (p - start_address dest)) else cells st p)\<rparr>"

section \<open>The vector of mappings\<close>

definition mapping_index :: "usize \<Rightarrow> user_space \<Rightarrow> usize option" where
  "mapping_index address us = to_option (binary_search_by_key (align_down address PAGE_SIZE) m_virt (us_mappings us))"

definition mapping :: "usize \<Rightarrow> user_space \<Rightarrow> user_mapping option" where
  "mapping address us = map_option (\<lambda>i. us_mappings us ! i) (mapping_index address us)"

definition insert_mapping :: "user_mapping \<Rightarrow> user_space \<Rightarrow> user_space" where
  "insert_mapping m us = us\<lparr>us_mappings :=
     insert_at (unwrap_either (binary_search_by_key (m_virt m) m_virt (us_mappings us))) m (us_mappings us)\<rparr>"

section \<open>Mapping and unmapping one page\<close>

definition allocate_zeroed_owned_frame :: "'s vm_env \<Rightarrow> 's vm \<Rightarrow> ('s, phys_frame) vm_run" where
  "allocate_zeroed_owned_frame E vm =
     and_then (frame_call (e_alloc E (frames (snd vm)) 1) vm) (\<lambda>frame (us, st). Some (Ok frame, (us, zero_page st frame)))"

definition map_owned_frame :: "'s vm_env \<Rightarrow> usize \<Rightarrow> phys_frame \<Rightarrow> map_flags \<Rightarrow> 's vm \<Rightarrow> ('s, unit) vm_run" where
  "map_owned_frame E addr frame flags vm =
     (case map_call (map_page (e_arch E) (e_alloc E) (us_root (fst vm)) addr frame Size4KiB flags (snd vm)) (fst vm) of
        None \<Rightarrow> None
      | Some (Err e, (us, st)) \<Rightarrow>
          ignoring (frame_call (e_release E (frames st) frame 1) (us, st)) (\<lambda>vm. Some (Err e, vm))
      | Some (Ok _, (us, st)) \<Rightarrow>
          Some (Ok (), (insert_mapping \<lparr>m_virt = addr, m_frame = frame, m_flags = flags, m_cow = False, m_owned = True,
            m_shared = False\<rparr> us, st)))"

definition map_zeroed_page :: "'s vm_env \<Rightarrow> usize \<Rightarrow> map_flags \<Rightarrow> 's vm \<Rightarrow> ('s, unit) vm_run" where
  "map_zeroed_page E addr flags vm =
     and_then (allocate_zeroed_owned_frame E vm) (\<lambda>frame. map_owned_frame E addr frame flags)"

definition map_data_page :: "'s vm_env \<Rightarrow> usize \<Rightarrow> map_flags \<Rightarrow> usize \<Rightarrow> byte list \<Rightarrow> 's vm \<Rightarrow> ('s, unit) vm_run" where
  "map_data_page E addr flags dest_offset data vm =
     and_then (allocate_zeroed_owned_frame E vm) (\<lambda>frame (us, st).
       map_owned_frame E addr frame flags (us, if data \<noteq> [] then write_frame_partial frame dest_offset data st else st))"

definition map_physical_page :: "'s vm_env \<Rightarrow> usize \<Rightarrow> phys_frame \<Rightarrow> map_flags \<Rightarrow> 's vm \<Rightarrow> ('s, unit) vm_run" where
  "map_physical_page E addr frame flags vm =
     and_then (map_call (map_page (e_arch E) (e_alloc E) (us_root (fst vm)) addr frame Size4KiB flags (snd vm)) (fst vm))
       (\<lambda>_ (us, st). Some (Ok (), (insert_mapping \<lparr>m_virt = addr, m_frame = frame, m_flags = flags, m_cow = False,
          m_owned = False, m_shared = False\<rparr> us, st)))"

definition map_shared_page :: "'s vm_env \<Rightarrow> usize \<Rightarrow> phys_frame \<Rightarrow> map_flags \<Rightarrow> 's vm \<Rightarrow> ('s, unit) vm_run" where
  "map_shared_page E addr frame flags vm =
     and_then (frame_call (e_retain E (frames (snd vm)) frame) vm) (\<lambda>_ (us, st).
       and_then (map_call (map_page (e_arch E) (e_alloc E) (us_root us) addr frame Size4KiB flags st) us)
         (\<lambda>_ (us, st). Some (Ok (), (insert_mapping \<lparr>m_virt = addr, m_frame = frame, m_flags = flags, m_cow = False,
            m_owned = False, m_shared = True\<rparr> us, st))))"

definition unmap_user_page :: "'s vm_env \<Rightarrow> usize \<Rightarrow> 's vm \<Rightarrow> ('s, unit) vm_run" where
  "unmap_user_page E addr vm =
     (case mapping_index addr (fst vm) of
        None \<Rightarrow> Some (Err (Map NotMapped), vm)
      | Some i \<Rightarrow>
          (let m = us_mappings (fst vm) ! i;
               us = (fst vm)\<lparr>us_mappings := remove_at i (us_mappings (fst vm))\<rparr>
           in if m_owned m then
                and_then (map_call (unmap (e_arch E) (e_release E) (us_root us) (m_virt m) (snd vm)) us) (\<lambda>_ vm. Some (Ok (), vm))
              else
                and_then (map_call (unmap_preserve (e_arch E) (e_release E) (us_root us) (m_virt m) (snd vm)) us) (\<lambda>_ vm.
                  if m_shared m
                  then ignoring (frame_call (e_release E (frames (snd vm)) (m_frame m) 1) vm) (\<lambda>vm. Some (Ok (), vm))
                  else Some (Ok (), vm))))"

section \<open>Faults\<close>

definition resolve_cow_fault :: "'s vm_env \<Rightarrow> usize \<Rightarrow> 's vm \<Rightarrow> ('s, unit) vm_run" where
  "resolve_cow_fault E page_base vm =
     (case mapping_index page_base (fst vm) of
        None \<Rightarrow> Some (Err (Map NotMapped), vm)
      | Some i \<Rightarrow>
          (let m = us_mappings (fst vm) ! i; flags = m_flags m OR WRITE;
               done = (\<lambda>frame (us, st). Some (Ok (), (us\<lparr>us_mappings := (us_mappings us)[i :=
                 m\<lparr>m_frame := frame, m_flags := flags, m_cow := False\<rparr>]\<rparr>, st)))
           in do {
             rc \<leftarrow> e_ref_count E (frames (snd vm)) (m_frame m);
             if (case rc of None \<Rightarrow> 1 | Some n \<Rightarrow> n) > 1 then
               and_then (frame_call (e_alloc E (frames (snd vm)) 1) vm) (\<lambda>new_frame (us, st).
                 and_then (map_call (unmap (e_arch E) (e_release E) (us_root us) page_base (copy_frame (m_frame m) new_frame st)) us)
                   (\<lambda>_ (us, st).
                     and_then (map_call (map_page (e_arch E) (e_alloc E) (us_root us) page_base new_frame Size4KiB flags st) us)
                       (\<lambda>_. done new_frame)))
             else
               and_then (map_call (protect (e_arch E) (us_root (fst vm)) page_base flags (snd vm)) (fst vm))
                 (\<lambda>_. done (m_frame m))
           }))"

text \<open>Filling a fresh frame from one area.\<close>

fun of_image_error :: "image_error \<Rightarrow> build_error" where
  "of_image_error ImageInvalidElf = InvalidElf"
| "of_image_error ImageUnsupportedElf = UnsupportedElf"
| "of_image_error other = Image other"

definition read_into :: "image_source \<Rightarrow> usize \<Rightarrow> usize \<Rightarrow> phys_frame \<Rightarrow> usize \<Rightarrow> 's mm \<Rightarrow> (build_error, 's mm) result" where
  "read_into source source_offset len frame dest_offset st =
     (case source source_offset len of
        Err e \<Rightarrow> Err (of_image_error e)
      | Ok data \<Rightarrow> Ok (write_frame_partial frame dest_offset data st))"

fun fill_lazy_page :: "phys_frame \<Rightarrow> usize \<Rightarrow> usize \<Rightarrow> usize \<Rightarrow> vma_kind \<Rightarrow> 's mm \<Rightarrow> (build_error, 's mm) result" where
  "fill_lazy_page frame page_base page_end vma_start (PagedImage source image_offset image_len) st =
     (let page_offset = page_base - vma_start
      in if page_offset \<ge> image_len then Ok st
      else case checked_add image_offset page_offset of
        None \<Rightarrow> Err AddressOverflow
      | Some source_offset \<Rightarrow> read_into source source_offset (min PAGE_SIZE (image_len - page_offset)) frame 0 st)"
| "fill_lazy_page frame page_base page_end vma_start (ElfSegmentImage source segment_start image_offset image_len order) st =
     (case checked_add segment_start image_len of
        None \<Rightarrow> Err AddressOverflow
      | Some file_segment_end \<Rightarrow>
          (let copy_start = max page_base segment_start; copy_end = min page_end file_segment_end
           in if copy_start \<ge> copy_end then Ok st
           else case checked_add image_offset (copy_start - segment_start) of
             None \<Rightarrow> Err AddressOverflow
           | Some source_offset \<Rightarrow>
               read_into source source_offset (copy_end - copy_start) frame (copy_start - page_base) st))"
| "fill_lazy_page frame page_base page_end vma_start kind st = Ok st"

fun fill_all :: "phys_frame \<Rightarrow> usize \<Rightarrow> usize \<Rightarrow> user_vma list \<Rightarrow> map_flags \<Rightarrow> 's mm \<Rightarrow> (build_error, map_flags) result \<times> 's mm" where
  "fill_all frame page_base page_end [] merged_flags st = (Ok merged_flags, st)"
| "fill_all frame page_base page_end (v # vs) merged_flags st =
     (case fill_lazy_page frame page_base page_end (v_start v) (v_kind v) st of
        Err e \<Rightarrow> (Err e, st)
      | Ok st \<Rightarrow> fill_all frame page_base page_end vs (merged_flags OR v_flags v) st)"

definition map_lazy_page_from :: "'s vm_env \<Rightarrow> usize \<Rightarrow> usize \<Rightarrow> user_vma list \<Rightarrow> 's vm \<Rightarrow> ('s, unit) vm_run" where
  "map_lazy_page_from E page_base page_end contributors vm =
     and_then (allocate_zeroed_owned_frame E vm) (\<lambda>frame (us, st).
       case fill_all frame page_base page_end contributors 0 st of
         (Err e, st) \<Rightarrow> ignoring (frame_call (e_release E (frames st) frame 1) (us, st)) (\<lambda>vm. Some (Err e, vm))
       | (Ok merged_flags, st) \<Rightarrow> map_owned_frame E page_base frame merged_flags (us, st))"

definition lazy_contributors :: "usize \<Rightarrow> user_vma list \<Rightarrow> nat \<Rightarrow> nat \<Rightarrow> user_vma list" where
  "lazy_contributors page_base vs start_index end_index =
     filter (\<lambda>v. v_lazy v \<and> page_base < v_end v) (map ((!) vs) [start_index..<end_index])"

definition map_lazy_page :: "'s vm_env \<Rightarrow> usize \<Rightarrow> bool \<Rightarrow> 's vm \<Rightarrow> ('s, bool) vm_run" where
  "map_lazy_page E page_base write_access vm =
     (case checked_add page_base PAGE_SIZE of
        None \<Rightarrow> Some (Err AddressOverflow, vm)
      | Some page_end \<Rightarrow>
          (case lazy_vma_window page_base page_end (us_vmas (fst vm)) of
             None \<Rightarrow> Some (Ok False, vm)
           | Some (start_index, end_index) \<Rightarrow>
               (let contributors = lazy_contributors page_base (us_vmas (fst vm)) start_index end_index;
                    write_allowed = list_ex (\<lambda>v. contains (v_flags v) WRITE) contributors;
                    monotonic_order = sorted_wrt (\<le>) (map lazy_order contributors)
                in if contributors = [] then Some (Ok False, vm)
                else if write_access \<and> \<not> write_allowed then Some (Ok False, vm)
                else and_then (map_lazy_page_from E page_base page_end
                       (if length contributors = 1 \<or> monotonic_order then contributors else sort_key lazy_order contributors) vm)
                  (\<lambda>_ vm. Some (Ok True, vm)))))"

datatype fault_handling = Resolved | InvalidateTlb | Unhandled

definition fault_access_allowed :: "user_mapping \<Rightarrow> 64 word \<Rightarrow> bool" where
  "fault_access_allowed m error_code \<longleftrightarrow>
     (error_code AND 2 \<noteq> 0 \<longrightarrow> contains (m_flags m) WRITE) \<and>
     (error_code AND 4 \<noteq> 0 \<longrightarrow> contains (m_flags m) USER) \<and>
     (error_code AND 16 \<noteq> 0 \<longrightarrow> contains (m_flags m) EXECUTE)"

definition handle_page_fault :: "'s vm_env \<Rightarrow> usize \<Rightarrow> 64 word \<Rightarrow> 's vm \<Rightarrow> ('s, fault_handling) vm_run" where
  "handle_page_fault E address error_code vm =
     (let page_base = align_down address PAGE_SIZE; write_fault = (error_code AND 2 \<noteq> 0)
      in case mapping page_base (fst vm) of
        Some m \<Rightarrow>
          if write_fault \<and> m_cow m then and_then (resolve_cow_fault E page_base vm) (\<lambda>_ vm. Some (Ok Resolved, vm))
          else Some (Ok (if fault_access_allowed m error_code then InvalidateTlb else Unhandled), vm)
      | None \<Rightarrow> and_then (map_lazy_page E page_base write_fault vm) (\<lambda>resolved vm.
          Some (Ok (if resolved then Resolved else Unhandled), vm)))"

definition ensure_access :: "'s vm_env \<Rightarrow> usize \<Rightarrow> bool \<Rightarrow> 's vm \<Rightarrow> ('s, unit) vm_run" where
  "ensure_access E address write_access vm =
     (let page_base = align_down address PAGE_SIZE
      in case mapping page_base (fst vm) of
        Some m \<Rightarrow>
          if write_access \<and> m_cow m then resolve_cow_fault E page_base vm
          else if write_access \<and> \<not> contains (m_flags m) WRITE then Some (Err (Map NotMapped), vm)
          else Some (Ok (), vm)
      | None \<Rightarrow> and_then (map_lazy_page E page_base write_access vm) (\<lambda>mapped vm.
          if mapped then Some (Ok (), vm) else Some (Err (Map NotMapped), vm)))"

text \<open>\<open>UserAddressSpace::handle_page_fault\<close>: whether the fault is dealt with.\<close>

definition invalidate_page :: "usize \<Rightarrow> 's vm \<Rightarrow> 's vm" where
  "invalidate_page address vm = (fst vm, invalidate (us_root (fst vm)) (align_down address PAGE_SIZE) (snd vm))"

definition page_fault :: "'s vm_env \<Rightarrow> usize \<Rightarrow> 64 word \<Rightarrow> 's vm \<Rightarrow> ('s, bool) vm_run" where
  "page_fault E address error_code vm = and_then (handle_page_fault E address error_code vm) (\<lambda>h vm. case h of
       Resolved \<Rightarrow> Some (Ok True, vm)
     | InvalidateTlb \<Rightarrow> Some (Ok True, invalidate_page address vm)
     | Unhandled \<Rightarrow> Some (Ok False, vm))"

section \<open>Making an address space, the heap and regions\<close>

definition new_space :: "'s vm_env \<Rightarrow> 'u \<times> 's mm \<Rightarrow> ('u \<times> 's mm, build_error, user_space) run" where
  "new_space E vm = and_then (map_call (e_new_root E (snd vm)) (fst vm)) (\<lambda>root vm.
     Some (Ok \<lparr>us_layout = layout_current, us_root = root, us_stack_base = 0, us_mappings = [], us_vmas = [],
       brk_start = 0, brk_current = 0, brk_limit = 0\<rparr>, vm))"

definition allocate_region :: "usize \<Rightarrow> user_space \<Rightarrow> (build_error, usize \<times> user_space) result" where
  "allocate_region len us =
     (let current = region_base (us_layout us)
      in case checked_add current (align_up len (region_align (us_layout us))) of
        None \<Rightarrow> Err AddressOverflow
      | Some next \<Rightarrow> Ok (current, us\<lparr>us_layout := (us_layout us)\<lparr>region_base := next\<rparr>\<rparr>))"

definition allocate_stack :: "usize \<Rightarrow> user_space \<Rightarrow> (build_error, usize \<times> user_space) result" where
  "allocate_stack len us =
     (let alen = align_up len (region_align (us_layout us)); top = stack_end (us_layout us)
      in if top < alen then Err AddressOverflow
      else Ok (top, us\<lparr>us_layout := (us_layout us)\<lparr>stack_end := top - alen\<rparr>\<rparr>))"

definition record_area :: "usize \<Rightarrow> usize \<Rightarrow> map_flags \<Rightarrow> vma_kind \<Rightarrow> bool \<Rightarrow> user_space \<Rightarrow> user_space" where
  "record_area s e flags kind lazy us = us\<lparr>us_vmas := record_vma s e flags kind lazy (us_vmas us)\<rparr>"

definition initialize_heap :: "user_space \<Rightarrow> (build_error, user_space) result" where
  "initialize_heap us =
     (case allocate_region (brk_reserve (us_layout us)) us of
        Err e \<Rightarrow> Err e
      | Ok (start, us) \<Rightarrow>
          Ok (record_area start start (READ OR WRITE OR USER) Heap True
            (us\<lparr>brk_start := start, brk_current := start, brk_limit := wadd start (brk_reserve (us_layout us))\<rparr>)))"

definition map_stack :: "usize \<Rightarrow> usize \<Rightarrow> user_space \<Rightarrow> user_space" where
  "map_stack base pages us =
     record_area base (wadd base (wmul pages PAGE_SIZE)) (READ OR WRITE OR USER) Stack True (us\<lparr>us_stack_base := base\<rparr>)"

definition brk :: "'s vm_env \<Rightarrow> usize \<Rightarrow> 's vm \<Rightarrow> ('s, usize) vm_run" where
  "brk E new_brk vm =
     (if new_brk = 0 then Some (Ok (brk_current (fst vm)), vm)
      else if new_brk < brk_start (fst vm) \<or> new_brk > brk_limit (fst vm) then Some (Ok (brk_current (fst vm)), vm)
      else
        (let old_end = align_up (brk_current (fst vm)) PAGE_SIZE; new_end = align_up new_brk PAGE_SIZE
         in ignoring (if new_end < old_end then for_each_ignoring (unmap_user_page E) (page_steps new_end old_end) vm
              else Some (Ok () :: (build_error, unit) result, vm))
            (\<lambda>(us, st). Some (Ok new_brk,
              (us\<lparr>brk_current := new_brk, us_vmas := update_heap_vma_end new_brk (us_vmas us)\<rparr>, st)))))"

section \<open>munmap, mprotect, mmap\<close>

definition munmap :: "'s vm_env \<Rightarrow> usize \<Rightarrow> usize \<Rightarrow> 's vm \<Rightarrow> ('s, unit) vm_run" where
  "munmap E addr len vm =
     (if len = 0 \<or> \<not> is_aligned addr PAGE_SIZE then Some (Err AddressOverflow, vm)
      else
        (let aligned_len = align_up len PAGE_SIZE
         in ignoring (for_each_ignoring (\<lambda>page. unmap_user_page E (wadd addr page)) (page_steps 0 aligned_len) vm
              :: ('s, unit) vm_run)
            (\<lambda>(us, st). Some (Ok (), (us\<lparr>us_vmas := remove_vma_range addr (wadd addr aligned_len) (us_vmas us)\<rparr>, st)))))"

definition protect_mapping :: "'s vm_env \<Rightarrow> map_flags \<Rightarrow> nat \<Rightarrow> 's vm \<Rightarrow> ('s, unit) vm_run" where
  "protect_mapping E flags i vm =
     (let m = us_mappings (fst vm) ! i
      in and_then (map_call (protect (e_arch E) (us_root (fst vm)) (m_virt m) flags (snd vm)) (fst vm)) (\<lambda>_ (us, st).
        Some (Ok (), (us\<lparr>us_mappings := (us_mappings us)[i := m\<lparr>m_flags := flags, m_cow := False\<rparr>]\<rparr>, st))))"

definition mprotect :: "'s vm_env \<Rightarrow> usize \<Rightarrow> usize \<Rightarrow> map_flags \<Rightarrow> 's vm \<Rightarrow> ('s, unit) vm_run" where
  "mprotect E addr len flags vm =
     (if len = 0 \<or> \<not> is_aligned addr PAGE_SIZE then Some (Err AddressOverflow, vm)
      else case checked_add addr (align_up len PAGE_SIZE) of
        None \<Rightarrow> Some (Err AddressOverflow, vm)
      | Some e \<Rightarrow>
          (let start_index = partition_point (\<lambda>m. m_virt m < addr) (us_mappings (fst vm));
               end_index = partition_point (\<lambda>m. m_virt m < e) (us_mappings (fst vm));
               changed = (start_index \<noteq> end_index \<or> vma_range_overlaps addr e (us_vmas (fst vm)))
           in and_then (for_each (protect_mapping E flags) [start_index..<end_index] vm) (\<lambda>_ (us, st).
             if \<not> changed then Some (Err (Map NotMapped), (us, st))
             else Some (Ok (), (us\<lparr>us_vmas := update_vma_flags addr e flags (us_vmas us)\<rparr>, st)))))"

definition MAP_FIXED :: "64 word" where
  "MAP_FIXED = 0x10"

definition MAP_FIXED_NOREPLACE :: "64 word" where
  "MAP_FIXED_NOREPLACE = 0x100000"

definition MAP_ANONYMOUS :: "64 word" where
  "MAP_ANONYMOUS = 0x20"

definition allocate_mmap_base :: "usize \<Rightarrow> user_space \<Rightarrow> (build_error, usize) result" where
  "allocate_mmap_base len us =
     ok_or (BuildFrame OutOfMemory)
       (find_top_down_gap (align_up (brk_limit us) PAGE_SIZE) (align_down (mmap_top (us_layout us)) PAGE_SIZE) len (us_vmas us))"

definition prepare_mapping_base :: "'s vm_env \<Rightarrow> usize \<Rightarrow> usize \<Rightarrow> 64 word \<Rightarrow> 's vm \<Rightarrow> ('s, usize) vm_run" where
  "prepare_mapping_base E addr len flags vm =
     (if flags AND MAP_FIXED_NOREPLACE \<noteq> 0 then
        if \<not> is_aligned addr PAGE_SIZE then Some (Err AddressOverflow, vm)
        else if \<not> is_range_free addr len (us_vmas (fst vm)) then Some (Err (Map AlreadyMapped), vm)
        else Some (Ok addr, vm)
      else if flags AND MAP_FIXED \<noteq> 0 then
        if \<not> is_aligned addr PAGE_SIZE then Some (Err AddressOverflow, vm)
        else ignoring (munmap E addr len vm) (\<lambda>vm. Some (Ok addr, vm))
      else Some (allocate_mmap_base len (fst vm), vm))"

text \<open>The frame of every mmap: a base, the pages mapped at once if any, and the area.\<close>

definition mmap_with :: "'s vm_env \<Rightarrow> usize \<Rightarrow> usize \<Rightarrow> 64 word \<Rightarrow> map_flags \<Rightarrow> (usize \<Rightarrow> 's vm \<Rightarrow> ('s, unit) vm_run) \<Rightarrow>
    vma_kind \<Rightarrow> bool \<Rightarrow> 's vm \<Rightarrow> ('s, usize) vm_run" where
  "mmap_with E addr aligned_len flags page_flags fill kind lazy vm =
     and_then (prepare_mapping_base E addr aligned_len flags vm) (\<lambda>base vm.
       and_then (fill base vm) (\<lambda>_ (us, st).
         Some (Ok base, (record_area base (wadd base aligned_len) page_flags kind lazy us, st))))"

definition mmap_anonymous :: "'s vm_env \<Rightarrow> usize \<Rightarrow> usize \<Rightarrow> 64 word \<Rightarrow> map_flags \<Rightarrow> 's vm \<Rightarrow> ('s, usize) vm_run" where
  "mmap_anonymous E addr len flags page_flags vm =
     (if len = 0 \<or> flags AND MAP_ANONYMOUS = 0 then Some (Err AddressOverflow, vm)
      else mmap_with E addr (align_up len PAGE_SIZE) flags page_flags (\<lambda>_ vm. Some (Ok (), vm)) Anonymous True vm)"

definition mmap_bytes :: "'s vm_env \<Rightarrow> usize \<Rightarrow> usize \<Rightarrow> 64 word \<Rightarrow> map_flags \<Rightarrow> byte list \<Rightarrow> 's vm \<Rightarrow> ('s, usize) vm_run" where
  "mmap_bytes E addr len flags page_flags data vm =
     (if len = 0 then Some (Err AddressOverflow, vm)
      else mmap_with E addr (align_up len PAGE_SIZE) flags page_flags
        (\<lambda>base. for_each (\<lambda>page. map_data_page E (wadd base page) page_flags 0 (take PAGE_SIZE (drop page data)))
           (page_steps 0 (align_up len PAGE_SIZE))) Anonymous False vm)"

definition image_page :: "image_source \<Rightarrow> usize \<Rightarrow> usize \<Rightarrow> usize \<Rightarrow> (build_error, byte list) result" where
  "image_page source image_offset image_len page =
     (if page < image_len then
        case checked_add image_offset page of
          None \<Rightarrow> Err AddressOverflow
        | Some offset \<Rightarrow> (case source offset (min PAGE_SIZE (image_len - page)) of Err e \<Rightarrow> Err (of_image_error e) | Ok data \<Rightarrow> Ok data)
      else Ok [])"

definition mmap_image :: "'s vm_env \<Rightarrow> usize \<Rightarrow> usize \<Rightarrow> 64 word \<Rightarrow> map_flags \<Rightarrow> image_source \<Rightarrow> usize \<Rightarrow> usize \<Rightarrow> 's vm \<Rightarrow>
    ('s, usize) vm_run" where
  "mmap_image E addr len flags page_flags source image_offset image_len vm =
     (if len = 0 then Some (Err AddressOverflow, vm)
      else mmap_with E addr (align_up len PAGE_SIZE) flags page_flags
        (\<lambda>base. for_each (\<lambda>page vm. case image_page source image_offset image_len page of
             Err e \<Rightarrow> Some (Err e, vm)
           | Ok data \<Rightarrow> map_data_page E (wadd base page) page_flags 0 data vm)
           (page_steps 0 (align_up len PAGE_SIZE))) Anonymous False vm)"

definition mmap_lazy_image :: "'s vm_env \<Rightarrow> usize \<Rightarrow> usize \<Rightarrow> 64 word \<Rightarrow> map_flags \<Rightarrow> image_source \<Rightarrow> usize \<Rightarrow> usize \<Rightarrow> 's vm \<Rightarrow>
    ('s, usize) vm_run" where
  "mmap_lazy_image E addr len flags page_flags source image_offset image_len vm =
     (if len = 0 then Some (Err AddressOverflow, vm)
      else mmap_with E addr (align_up len PAGE_SIZE) flags page_flags (\<lambda>_ vm. Some (Ok (), vm))
        (PagedImage source image_offset image_len) True vm)"

definition mmap_physical :: "'s vm_env \<Rightarrow> usize \<Rightarrow> usize \<Rightarrow> 64 word \<Rightarrow> map_flags \<Rightarrow> usize \<Rightarrow> 's vm \<Rightarrow> ('s, usize) vm_run" where
  "mmap_physical E addr len flags page_flags physical_address vm =
     (if len = 0 then Some (Err AddressOverflow, vm)
      else
        (let page_base = align_down physical_address PAGE_SIZE; page_offset = physical_address - page_base;
             total_len = align_up (saturating_add len page_offset) PAGE_SIZE
         in and_then (mmap_with E addr total_len flags page_flags
              (\<lambda>base. for_each (\<lambda>page. map_physical_page E (wadd base page)
                 \<lparr>start_address = wadd page_base page\<rparr> page_flags)
                 (page_steps 0 total_len)) Device False vm)
            (\<lambda>base vm. Some (Ok (wadd base page_offset), vm))))"

definition mmap_shared_physical :: "'s vm_env \<Rightarrow> usize \<Rightarrow> usize \<Rightarrow> 64 word \<Rightarrow> map_flags \<Rightarrow> usize list \<Rightarrow> 's vm \<Rightarrow> ('s, usize) vm_run" where
  "mmap_shared_physical E addr len flags page_flags physical_pages vm =
     (if len = 0 then Some (Err AddressOverflow, vm)
      else
        (let aligned_len = align_up len PAGE_SIZE; expected_pages = aligned_len div PAGE_SIZE
         in if length physical_pages < expected_pages then Some (Err AddressOverflow, vm)
         else mmap_with E addr aligned_len flags page_flags
           (\<lambda>base. for_each (\<lambda>(index, physical_address).
                map_shared_page E (wadd base (wmul index PAGE_SIZE)) \<lparr>start_address = physical_address\<rparr> page_flags)
              (enumerate 0 (take expected_pages physical_pages))) Shared False vm))"

end
