(* ===== verification/User_Copy.thy ===== *)
theory User_Copy
  imports User_Space
begin

text \<open>
  Reading and writing the memory of a process from the kernel, forking an address space and
  dropping it: the rest of \<open>UserAddressSpaceInner\<close> of \<open>aether-process/src/process.rs\<close>.
\<close>

section \<open>Reading and writing\<close>

definition get_byte :: "usize \<Rightarrow> cells \<Rightarrow> byte" where
  "get_byte p m = le_bytes 8 (m (8 * (p div 8))) ! (p mod 8)"

definition read_bytes :: "usize \<Rightarrow> nat \<Rightarrow> cells \<Rightarrow> byte list" where
  "read_bytes p n m = map (\<lambda>i. get_byte (p + i) m) [0..<n]"

text \<open>\<open>translate\<close>: the start of the frame in memory and the offset in it.\<close>

definition user_translate :: "usize \<Rightarrow> user_space \<Rightarrow> (usize \<times> usize) option" where
  "user_translate address us =
     (let page_base = align_down address PAGE_SIZE
      in map_option (\<lambda>m. (start_address (m_frame m), address mod PAGE_SIZE)) (mapping page_base us))"

lemma user_translate_offset: "user_translate address us = Some (page, offset) \<Longrightarrow> offset < PAGE_SIZE"
  by (auto simp: user_translate_def Let_def PAGE_SIZE_def PAGE_SHIFT_def)

text \<open>
  The loops of \<open>read\<close> and \<open>write\<close>: what is left to copy shrinks with every page, since the rest of
  a page is never empty.
\<close>

function user_read_loop :: "'s vm_env \<Rightarrow> usize \<Rightarrow> nat \<Rightarrow> byte list \<Rightarrow> 's vm \<Rightarrow> ('s, byte list) vm_run" where
  "user_read_loop E current left copied vm =
     (if left = 0 then Some (Ok copied, vm)
      else and_then (ensure_access E current False vm) (\<lambda>_ vm.
        case user_translate current (fst vm) of
          None \<Rightarrow> Some (Ok copied, vm)
        | Some (page, offset) \<Rightarrow>
            (let chunk = min left (PAGE_SIZE - offset); copied = copied @ read_bytes (page + offset) chunk (cells (snd vm))
             in case checked_add current chunk of
               None \<Rightarrow> Some (Err AddressOverflow, vm)
             | Some next \<Rightarrow> user_read_loop E next (left - chunk) copied vm)))"
  by pat_completeness auto
termination
  by (relation "measure (\<lambda>(E, current, left, copied, vm). left)") (auto dest: user_translate_offset)

function user_write_loop :: "'s vm_env \<Rightarrow> usize \<Rightarrow> byte list \<Rightarrow> nat \<Rightarrow> 's vm \<Rightarrow> ('s, nat) vm_run" where
  "user_write_loop E current left copied vm =
     (if left = [] then Some (Ok copied, vm)
      else and_then (ensure_access E current True vm) (\<lambda>_ vm.
        case user_translate current (fst vm) of
          None \<Rightarrow> Some (Ok copied, vm)
        | Some (page, offset) \<Rightarrow>
            (let chunk = min (length left) (PAGE_SIZE - offset);
                 vm = (fst vm, (snd vm)\<lparr>cells := write_bytes (page + offset) (take chunk left) (cells (snd vm))\<rparr>)
             in case checked_add current chunk of
               None \<Rightarrow> Some (Err AddressOverflow, vm)
             | Some next \<Rightarrow> user_write_loop E next (drop chunk left) (copied + chunk) vm)))"
  by pat_completeness auto
termination
  by (relation "measure (\<lambda>(E, current, left, copied, vm). length left)") (auto dest: user_translate_offset)

declare user_read_loop.simps [simp del] user_write_loop.simps [simp del]

text \<open>\<open>read\<close> fills the front of the buffer of the caller; the bytes read are returned.\<close>

definition read_user :: "'s vm_env \<Rightarrow> usize \<Rightarrow> nat \<Rightarrow> 's vm \<Rightarrow> ('s, byte list) vm_run" where
  "read_user E address len vm = user_read_loop E address len [] vm"

definition write_user :: "'s vm_env \<Rightarrow> usize \<Rightarrow> byte list \<Rightarrow> 's vm \<Rightarrow> ('s, nat) vm_run" where
  "write_user E address data vm = user_write_loop E address data 0 vm"

definition read_user_exact :: "'s vm_env \<Rightarrow> usize \<Rightarrow> nat \<Rightarrow> 's vm \<Rightarrow> ('s, byte list) vm_run" where
  "read_user_exact E address len vm = and_then (read_user E address len vm) (\<lambda>bytes vm.
     if length bytes \<noteq> len then Some (Err AddressOverflow, vm) else Some (Ok bytes, vm))"

text \<open>
  \<open>read_c_string\<close> up to a zero byte or a limit. Whether the bytes are UTF-8 is a function of the
  standard library, given as an argument.
\<close>

fun c_string_loop :: "'s vm_env \<Rightarrow> usize \<Rightarrow> nat \<Rightarrow> byte list \<Rightarrow> 's vm \<Rightarrow> ('s, byte list) vm_run" where
  "c_string_loop E current 0 bytes vm = Some (Ok bytes, vm)"
| "c_string_loop E current (Suc room) bytes vm =
     and_then (ensure_access E current False vm) (\<lambda>_ vm.
       case user_translate current (fst vm) of
         None \<Rightarrow> Some (Ok bytes, vm)
       | Some (page, offset) \<Rightarrow>
           (let byte = get_byte (page + offset) (cells (snd vm))
            in if byte = 0 then Some (Ok bytes, vm)
            else case checked_add current 1 of
              None \<Rightarrow> Some (Err AddressOverflow, vm)
            | Some next \<Rightarrow> c_string_loop E next room (bytes @ [byte]) vm))"

definition read_c_string :: "'s vm_env \<Rightarrow> (byte list \<Rightarrow> bool) \<Rightarrow> usize \<Rightarrow> nat \<Rightarrow> 's vm \<Rightarrow> ('s, byte list) vm_run" where
  "read_c_string E utf8 address max_len vm = and_then (c_string_loop E address max_len [] vm) (\<lambda>bytes vm.
     if utf8 bytes then Some (Ok bytes, vm) else Some (Err AddressOverflow, vm))"

section \<open>Loading a flat image\<close>

definition load_flat_page :: "'s vm_env \<Rightarrow> usize \<Rightarrow> image_source \<Rightarrow> usize \<Rightarrow> usize \<Rightarrow> 's vm \<Rightarrow> ('s, unit) vm_run" where
  "load_flat_page E base source source_len offset vm =
     (let flags = READ OR EXECUTE OR USER; len = min PAGE_SIZE (source_len - offset)
      in if len = 0 then map_zeroed_page E (wadd base offset) flags vm
      else and_then (allocate_zeroed_owned_frame E vm) (\<lambda>frame (us, st).
        case read_into source offset len frame 0 st of
          Err e \<Rightarrow> ignoring (frame_call (e_release E (frames st) frame 1) (us, st)) (\<lambda>vm. Some (Err e, vm))
        | Ok st \<Rightarrow> map_owned_frame E (wadd base offset) frame flags (us, st)))"

definition load_flat_image :: "'s vm_env \<Rightarrow> usize \<Rightarrow> image_source \<Rightarrow> usize \<Rightarrow> 's vm \<Rightarrow> ('s, unit) vm_run" where
  "load_flat_image E base source source_len vm =
     (let aligned_len = align_up source_len PAGE_SIZE
      in and_then (for_each (load_flat_page E base source source_len) (page_steps 0 aligned_len) vm) (\<lambda>_ (us, st).
        Some (Ok (), (record_area base (wadd base aligned_len) (READ OR EXECUTE OR USER) Program False us, st))))"

section \<open>Dropping and forking\<close>

definition drop_mapping :: "'s vm_env \<Rightarrow> phys_frame \<Rightarrow> user_mapping \<Rightarrow> 'u \<times> 's mm \<Rightarrow> ('u \<times> 's mm, build_error, unit) run" where
  "drop_mapping E root m vm =
     (if m_owned m then ignoring (map_call (unmap (e_arch E) (e_release E) root (m_virt m) (snd vm)) (fst vm)) (\<lambda>vm. Some (Ok (), vm))
      else ignoring (map_call (unmap_preserve (e_arch E) (e_release E) root (m_virt m) (snd vm)) (fst vm)) (\<lambda>vm.
        if m_shared m then ignoring (frame_call (e_release E (frames (snd vm)) (m_frame m) 1) vm) (\<lambda>vm. Some (Ok (), vm))
        else Some (Ok (), vm)))"

definition drop_space :: "'s vm_env \<Rightarrow> user_space \<Rightarrow> 'u \<times> 's mm \<Rightarrow> ('u \<times> 's mm, build_error, unit) run" where
  "drop_space E us vm = for_each_ignoring (drop_mapping E (us_root us)) (rev (us_mappings us)) vm"

text \<open>A value that is still being built when an error ends the function is dropped.\<close>

definition or_drop :: "'s vm_env \<Rightarrow> ((user_space \<times> user_space) \<times> 's mm, build_error, unit) run \<Rightarrow> ('s, user_space) vm_run" where
  "or_drop E m = (case m of
       None \<Rightarrow> None
     | Some (Ok _, ((us, copy), st)) \<Rightarrow> Some (Ok copy, (us, st))
     | Some (Err e, ((us, copy), st)) \<Rightarrow> ignoring (drop_space E copy (us, st)) (\<lambda>vm. Some (Err e, vm)))"

definition inherit :: "user_space \<Rightarrow> user_space \<Rightarrow> user_space" where
  "inherit us copy = copy\<lparr>us_layout := us_layout us, us_stack_base := us_stack_base us, us_vmas := us_vmas us, us_mappings := [],
     brk_start := brk_start us, brk_current := brk_current us, brk_limit := brk_limit us\<rparr>"

definition push_mapping :: "user_mapping \<Rightarrow> user_space \<Rightarrow> user_space" where
  "push_mapping m us = us\<lparr>us_mappings := us_mappings us @ [m]\<rparr>"

text \<open>One turn of the loop of \<open>fork_cow\<close>: the parent, the child and the memory.\<close>

definition fork_mapping :: "'s vm_env \<Rightarrow> nat \<Rightarrow> (user_space \<times> user_space) \<times> 's mm \<Rightarrow>
    ((user_space \<times> user_space) \<times> 's mm, build_error, unit) run" where
  "fork_mapping E i vm =
     (let m = us_mappings (fst (fst vm)) ! i; child_root = us_root (snd (fst vm))
      in if \<not> m_owned m then
           and_then (if m_shared m then and_then (frame_call (e_retain E (frames (snd vm)) (m_frame m)) vm) (\<lambda>_ vm. Some (Ok (), vm))
               else Some (Ok (), vm)) (\<lambda>_ (us2, st).
             and_then (map_call (map_page (e_arch E) (e_alloc E) child_root (m_virt m) (m_frame m) Size4KiB (m_flags m) st) us2)
               (\<lambda>_ ((us, copy), st). Some (Ok (), ((us, push_mapping \<lparr>m_virt = m_virt m, m_frame = m_frame m, m_flags = m_flags m,
                  m_cow = False, m_owned = False, m_shared = m_shared m\<rparr> copy), st))))
         else
           (let shared = (m_cow m \<or> contains (m_flags m) (WRITE OR USER));
                child_flags = (if shared then without (m_flags m) WRITE else m_flags m);
                child = \<lparr>m_virt = m_virt m, m_frame = m_frame m, m_flags = child_flags, m_cow = shared, m_owned = True, m_shared = False\<rparr>
            in and_then (frame_call (e_retain E (frames (snd vm)) (m_frame m)) vm) (\<lambda>_ (us2, st).
              and_then (map_call (map_page (e_arch E) (e_alloc E) child_root (m_virt m) (m_frame m) Size4KiB child_flags st) us2)
                (\<lambda>_ ((us, copy), st).
                  if shared \<and> \<not> m_cow m then
                    and_then (map_call (protect (e_arch E) (us_root us) (m_virt m) child_flags st) (us, copy)) (\<lambda>_ ((us, copy), st).
                      Some (Ok (), ((us\<lparr>us_mappings := (us_mappings us)[i := m\<lparr>m_flags := child_flags, m_cow := True\<rparr>]\<rparr>,
                        push_mapping child copy), st)))
                  else Some (Ok (), ((us, push_mapping child copy), st))))))"

definition fork_cow :: "'s vm_env \<Rightarrow> 's vm \<Rightarrow> ('s, user_space) vm_run" where
  "fork_cow E vm = and_then (new_space E vm) (\<lambda>copy (us, st).
     or_drop E (for_each (fork_mapping E) [0..<length (us_mappings us)] ((us, inherit us copy), st)))"

definition copy_mapping :: "'s vm_env \<Rightarrow> user_mapping \<Rightarrow> 's vm \<Rightarrow> ('s, unit) vm_run" where
  "copy_mapping E m vm =
     (if m_shared m then
        and_then (frame_call (e_retain E (frames (snd vm)) (m_frame m)) vm) (\<lambda>_ (us, st).
          and_then (map_call (map_page (e_arch E) (e_alloc E) (us_root us) (m_virt m) (m_frame m) Size4KiB (m_flags m) st) us)
            (\<lambda>_ (us, st). Some (Ok (), (insert_mapping \<lparr>m_virt = m_virt m, m_frame = m_frame m, m_flags = m_flags m, m_cow = False,
               m_owned = False, m_shared = True\<rparr> us, st))))
      else
        (let flags = (if m_cow m then m_flags m OR WRITE else m_flags m)
         in and_then (frame_call (e_alloc E (frames (snd vm)) 1) vm) (\<lambda>frame (us, st).
           and_then (map_call (map_page (e_arch E) (e_alloc E) (us_root us) (m_virt m) frame Size4KiB flags (copy_frame (m_frame m) frame st)) us)
             (\<lambda>_ (us, st). Some (Ok (), (insert_mapping \<lparr>m_virt = m_virt m, m_frame = frame, m_flags = flags, m_cow = False,
                m_owned = True, m_shared = False\<rparr> us, st))))))"

definition fork_copy_space :: "'s vm_env \<Rightarrow> 's vm \<Rightarrow> ('s, user_space) vm_run" where
  "fork_copy_space E vm = and_then (new_space E vm) (\<lambda>copy (us, st).
     case for_each (copy_mapping E) (us_mappings us) (inherit us copy, st) of
       None \<Rightarrow> None
     | Some (Ok _, (copy, st)) \<Rightarrow> Some (Ok copy, (us, st))
     | Some (Err e, (copy, st)) \<Rightarrow> ignoring (drop_space E copy (us, st)) (\<lambda>vm. Some (Err e, vm)))"

end
