(* ===== verification/User_Mappings.thy ===== *)
theory User_Mappings
  imports User_Copy
begin

text \<open>
  The sorted vector of mappings of an address space seen as a function from pages to mappings,
  and the references to frames that it holds.
\<close>

section \<open>The vector of mappings as a function\<close>

definition mappings_sorted :: "user_space \<Rightarrow> bool" where
  "mappings_sorted us \<longleftrightarrow> sorted_wrt (\<lambda>m n. m_virt m < m_virt n) (us_mappings us)"

definition page_of :: "usize \<Rightarrow> usize" where
  "page_of a = a div PAGE_SIZE * PAGE_SIZE"

lemma align_down_page_of: "a < usize_range \<Longrightarrow> align_down a PAGE_SIZE = page_of a"
  using align_down_page [of a] by (simp add: page_of_def)

lemma page_of_idem [simp]: "page_of (page_of a) = page_of a" "page_of a \<le> a" "page_of a div PAGE_SIZE = a div PAGE_SIZE"
  "page_of a mod PAGE_SIZE = 0"
  using page_size_pos by (simp_all add: page_of_def)

lemma page_of_aligned: "a mod PAGE_SIZE = 0 \<Longrightarrow> page_of a = a"
  using div_mult_mod_eq [of a PAGE_SIZE] by (simp add: page_of_def)

lemma page_of_eq: "page_of a = page_of b \<longleftrightarrow> a div PAGE_SIZE = b div PAGE_SIZE"
  using page_size_pos by (simp add: page_of_def)

lemma page_range: "x mod PAGE_SIZE = 0 \<Longrightarrow> x \<le> page_of a \<longleftrightarrow> x \<le> a"
  by (metis div_le_mono le_trans mult_le_mono1 page_of_aligned page_of_def page_of_idem(2))

lemma is_aligned_page: "is_aligned a PAGE_SIZE \<longleftrightarrow> a mod PAGE_SIZE = 0"
proof -
  have "a AND (PAGE_SIZE - 1) = a mod PAGE_SIZE"
    using take_bit_eq_mask [of PAGE_SHIFT a] by (simp add: PAGE_SIZE_def mask_eq_exp_minus_1 take_bit_eq_mod)
  then show ?thesis by (simp add: is_aligned_def)
qed

lemma mapping_index_Some:
  assumes "mappings_sorted us" "a < usize_range"
  shows "mapping_index a us = Some i \<longleftrightarrow> i < length (us_mappings us) \<and> m_virt (us_mappings us ! i) = page_of a"
proof -
  note s = assms(1) [unfolded mappings_sorted_def]
  let ?r = "binary_search_by_key (page_of a) m_virt (us_mappings us)"
  show ?thesis
  proof (cases ?r)
    case (Ok j)
    then show ?thesis
      using binary_search_sorted [OF s, of "page_of a"] sorted_key_inj [OF s, of i j] align_down_page_of [OF assms(2)]
      by (auto simp: mapping_index_def)
  next
    case (Err j)
    then show ?thesis
      using binary_search_sorted [OF s, of "page_of a"] align_down_page_of [OF assms(2)]
      by (auto simp: mapping_index_def) (metis less_irrefl not_le_imp_less)
  qed
qed

lemma mapping_Some:
  assumes "mappings_sorted us" "a < usize_range"
  shows "mapping a us = Some m \<longleftrightarrow> m \<in> set (us_mappings us) \<and> m_virt m = page_of a"
  unfolding mapping_def using mapping_index_Some [OF assms] sorted_key_inj [OF assms(1) [unfolded mappings_sorted_def]]
  by (auto simp: in_set_conv_nth)

lemma mapping_None:
  assumes "mappings_sorted us" "a < usize_range"
  shows "mapping a us = None \<longleftrightarrow> (\<forall>m \<in> set (us_mappings us). m_virt m \<noteq> page_of a)"
  using mapping_Some [OF assms] by (metis not_None_eq)

lemma sorted_distinct: "mappings_sorted us \<Longrightarrow> distinct (us_mappings us)"
  unfolding mappings_sorted_def by (metis distinct_conv_nth less_irrefl linorder_neqE_nat sorted_wrt_iff_nth_less)

text \<open>What the updates of the vector do to the function.\<close>

lemma insert_mapping_sorted:
  assumes "mappings_sorted us" "m_virt m < usize_range" "m_virt m mod PAGE_SIZE = 0" "mapping (m_virt m) us = None"
  shows "mappings_sorted (insert_mapping m us)"
proof -
  note s = assms(1) [unfolded mappings_sorted_def]
  have "align_down (m_virt m) PAGE_SIZE = m_virt m" using assms(2,3) by (simp add: align_down_page_of page_of_aligned)
  then obtain i where "binary_search_by_key (m_virt m) m_virt (us_mappings us) = Err i"
    using assms(4) by (cases "binary_search_by_key (m_virt m) m_virt (us_mappings us)") (auto simp: mapping_def mapping_index_def)
  then show ?thesis using sorted_insert_at [OF s] by (simp add: mappings_sorted_def insert_mapping_def)
qed

lemma set_insert_mapping [simp]: "set (us_mappings (insert_mapping m us)) = insert m (set (us_mappings us))"
  by (simp add: insert_mapping_def)

lemma remove_mapping_sorted: "mappings_sorted us \<Longrightarrow> mappings_sorted (us\<lparr>us_mappings := remove_at i (us_mappings us)\<rparr>)"
  by (simp add: mappings_sorted_def sorted_remove_at)

lemma update_mapping_sorted:
  assumes "mappings_sorted us" "m_virt m = m_virt (us_mappings us ! i)"
  shows "mappings_sorted (us\<lparr>us_mappings := (us_mappings us)[i := m]\<rparr>)"
proof -
  have "map m_virt ((us_mappings us)[i := m]) = map m_virt (us_mappings us)"
    using assms(2) by (cases "i < length (us_mappings us)") (simp_all add: map_update list_update_same_conv list_update_beyond not_less)
  moreover have "sorted_wrt (<) (map m_virt (us_mappings us))" using assms(1) by (simp add: mappings_sorted_def sorted_wrt_map)
  ultimately have "sorted_wrt (<) (map m_virt ((us_mappings us)[i := m]))" by (simp only:)
  then show ?thesis by (simp add: mappings_sorted_def sorted_wrt_map)
qed

lemma mapping_insert:
  assumes "mappings_sorted us" "m_virt m < usize_range" "m_virt m mod PAGE_SIZE = 0" "mapping (m_virt m) us = None" "w < usize_range"
  shows "mapping w (insert_mapping m us) = (if page_of w = m_virt m then Some m else mapping w us)"
proof -
  note s = insert_mapping_sorted [OF assms(1-4)]
  show ?thesis
  proof (cases "page_of w = m_virt m")
    case True
    then have "mapping w (insert_mapping m us) = Some m" unfolding mapping_Some [OF s assms(5)] by simp
    then show ?thesis using True by simp
  next
    case False
    have "mapping w (insert_mapping m us) = Some n \<longleftrightarrow> mapping w us = Some n" for n
      unfolding mapping_Some [OF s assms(5)] mapping_Some [OF assms(1,5)] using False by auto
    then show ?thesis using False by (metis option.exhaust)
  qed
qed

lemma mapping_remove:
  assumes "mappings_sorted us" "i < length (us_mappings us)" "w < usize_range"
  shows "mapping w (us\<lparr>us_mappings := remove_at i (us_mappings us)\<rparr>) =
    (if page_of w = m_virt (us_mappings us ! i) then None else mapping w us)"
proof -
  let ?us = "us\<lparr>us_mappings := remove_at i (us_mappings us)\<rparr>"
  note s = remove_mapping_sorted [OF assms(1), of i]
  have set: "set (us_mappings ?us) = set (us_mappings us) - {us_mappings us ! i}"
    using set_remove_at [OF sorted_distinct [OF assms(1)] assms(2)] by simp
  have only: "n = us_mappings us ! i" if "n \<in> set (us_mappings us)" "m_virt n = m_virt (us_mappings us ! i)" for n
    using that sorted_key_inj [OF assms(1) [unfolded mappings_sorted_def] _ assms(2)] by (auto simp: in_set_conv_nth)
  show ?thesis
  proof (cases "page_of w = m_virt (us_mappings us ! i)")
    case True
    then have "mapping w ?us = None" unfolding mapping_None [OF s assms(3)] set using only by auto
    then show ?thesis using True by simp
  next
    case False
    have "mapping w ?us = Some n \<longleftrightarrow> mapping w us = Some n" for n
      unfolding mapping_Some [OF s assms(3)] mapping_Some [OF assms(1,3)] set using False by auto
    then show ?thesis using False by (metis option.exhaust)
  qed
qed

lemma mapping_update:
  assumes "mappings_sorted us" "i < length (us_mappings us)" "w < usize_range" "m_virt m = m_virt (us_mappings us ! i)"
  shows "mapping w (us\<lparr>us_mappings := (us_mappings us)[i := m]\<rparr>) =
    (if page_of w = m_virt m then Some m else mapping w us)"
proof -
  let ?us = "us\<lparr>us_mappings := (us_mappings us)[i := m]\<rparr>"
  note s = update_mapping_sorted [OF assms(1,4)]
  have set: "set (us_mappings ?us) = insert m (set (us_mappings us) - {us_mappings us ! i})"
    using set_update_distinct [OF sorted_distinct [OF assms(1)] assms(2)] by simp
  have only: "n = us_mappings us ! i" if "n \<in> set (us_mappings us)" "m_virt n = m_virt m" for n
    using that assms(4) sorted_key_inj [OF assms(1) [unfolded mappings_sorted_def] _ assms(2)] by (auto simp: in_set_conv_nth)
  show ?thesis
  proof (cases "page_of w = m_virt m")
    case True
    then have "mapping w ?us = Some m" unfolding mapping_Some [OF s assms(3)] set by simp
    then show ?thesis using True by simp
  next
    case False
    have "mapping w ?us = Some n \<longleftrightarrow> mapping w us = Some n" for n
      unfolding mapping_Some [OF s assms(3)] mapping_Some [OF assms(1,3)] set using False assms(4) by auto
    then show ?thesis using False by (metis option.exhaust)
  qed
qed

section \<open>References\<close>

definition holds :: "usize \<Rightarrow> user_mapping \<Rightarrow> bool" where
  "holds f m \<longleftrightarrow> (m_owned m \<or> m_shared m) \<and> frame_index (m_frame m) = f"

definition refs :: "user_space \<Rightarrow> usize \<Rightarrow> nat" where
  "refs us f = length (filter (holds f) (us_mappings us))"

lemma filter_insert_at: "length (filter P (insert_at i x xs)) = length (filter P xs) + (if P x then 1 else 0)"
proof -
  have "length (filter P xs) = length (filter P (take i xs)) + length (filter P (drop i xs))"
    by (metis append_take_drop_id filter_append length_append)
  then show ?thesis by (simp add: insert_at_def)
qed

lemma filter_remove_at: "i < length xs \<Longrightarrow> length (filter P xs) = length (filter P (remove_at i xs)) + (if P (xs ! i) then 1 else 0)"
proof -
  assume "i < length xs"
  then have "length (filter P xs) = length (filter P (take i xs @ xs ! i # drop (Suc i) xs))"
    by (intro arg_cong [where f = "\<lambda>ys. length (filter P ys)"] id_take_nth_drop)
  also have "\<dots> = length (filter P (remove_at i xs)) + (if P (xs ! i) then 1 else 0)" by (simp add: remove_at_def)
  finally show ?thesis .
qed

lemma refs_insert: "refs (insert_mapping m us) f = refs us f + (if holds f m then 1 else 0)"
  by (simp add: refs_def insert_mapping_def filter_insert_at)

lemma refs_remove: "i < length (us_mappings us) \<Longrightarrow>
    refs us f = refs (us\<lparr>us_mappings := remove_at i (us_mappings us)\<rparr>) f + (if holds f (us_mappings us ! i) then 1 else 0)"
  by (simp add: refs_def filter_remove_at)

lemma filter_update: "i < length xs \<Longrightarrow>
    length (filter P (xs[i := x])) + (if P (xs ! i) then 1 else 0) = length (filter P xs) + (if P x then 1 else 0)"
proof -
  assume i: "i < length xs"
  have same: "remove_at i (xs[i := x]) = remove_at i xs" using i by (simp add: remove_at_def)
  have "length (filter P (xs[i := x])) = length (filter P (remove_at i xs)) + (if P x then 1 else 0)"
    using filter_remove_at [of i "xs[i := x]" P] i unfolding same by (simp only: length_list_update nth_list_update_eq)
  then show ?thesis using filter_remove_at [OF i, of P] by linarith
qed

lemma us_mappings_upd: "us_mappings (us\<lparr>us_mappings := ms\<rparr>) = ms"
  by simp

lemma refs_update: "i < length (us_mappings us) \<Longrightarrow>
    refs (us\<lparr>us_mappings := (us_mappings us)[i := m]\<rparr>) f + (if holds f (us_mappings us ! i) then 1 else 0) =
    refs us f + (if holds f m then 1 else 0)"
  unfolding refs_def us_mappings_upd by (rule filter_update)

lemma refs_pos: "m \<in> set (us_mappings us) \<Longrightarrow> holds f m \<Longrightarrow> 0 < refs us f"
  by (auto simp: refs_def filter_empty_conv)

end
