(* ===== verification/User_Memory.thy ===== *)
theory User_Memory
  imports User_Mappings Address_Spaces
begin

text \<open>
  The invariant of an address space over any page table format and frame allocator that keep
  their contracts: the vector of mappings and the page tables agree on every user address, and
  the ledger of the allocator counts every reference that the space holds, besides those that
  others hold. A frame that the kernel has in hand counts as held by others.
\<close>

type_synonym holders = "usize \<Rightarrow> nat"

definition in_hand :: "holders \<Rightarrow> usize \<Rightarrow> holders" where
  "in_hand X f = X(f := X f + 1)"

definition busy :: "holders \<Rightarrow> user_space \<Rightarrow> usize set" where
  "busy X us = {f. 0 < refs us f + X f}"

lemma busy_in_hand: "busy (in_hand X f) us = insert f (busy X us)"
  by (auto simp: busy_def in_hand_def)

definition books :: "holders \<Rightarrow> user_space \<Rightarrow> ledger \<Rightarrow> bool" where
  "books X us v \<longleftrightarrow> (\<forall>f \<in> busy X us. \<exists>r. v f = Some (0, r) \<and> refs us f + X f \<le> r)"

lemma booksD:
  assumes "books X us v" "0 < refs us f + X f"
  obtains r where "v f = Some (0, r)" "refs us f + X f \<le> r"
  using assms by (auto simp: books_def busy_def)

locale user_memory = mapper inv view ram alloc retain release ref_count A addressable
  for inv :: "'s \<Rightarrow> bool" and view ram alloc retain release ref_count A addressable +
  fixes user :: "usize \<Rightarrow> bool" and L :: nat and make_root :: "'s mm \<Rightarrow> ('s mm, mapping_error, phys_frame) run"
  assumes leaf_4k: "leaf_level A Size4KiB = Some L" "page_size A L = Some PAGE_SIZE" "map_size_for_level A L = Ok Size4KiB"
    and user_path: "user v \<Longrightarrow> user w \<Longrightarrow> same_path A v w L \<longleftrightarrow> w div PAGE_SIZE = v div PAGE_SIZE"
    and user_page: "user v \<Longrightarrow> w div PAGE_SIZE = v div PAGE_SIZE \<Longrightarrow> user w"
    and user_bound: "user v \<Longrightarrow> v < usize_range"
begin

definition env :: "'s vm_env" where
  "env = \<lparr>e_arch = A, e_alloc = alloc, e_retain = retain, e_release = release, e_ref_count = ref_count, e_new_root = make_root\<rparr>"

lemma env_simps [simp]: "e_arch env = A" "e_alloc env = alloc" "e_retain env = retain" "e_release env = release"
  "e_ref_count env = ref_count" "e_new_root env = make_root"
  by (simp_all add: env_def)

definition leaf_of :: "user_mapping \<Rightarrow> nat \<times> entry" where
  "leaf_of m = (L, make_leaf A (m_frame m) L (m_flags m))"

definition agree :: "user_space \<Rightarrow> cells \<Rightarrow> bool" where
  "agree us c \<longleftrightarrow> (\<forall>w. user w \<longrightarrow> translate A c (us_root us) w = map_option leaf_of (mapping w us))"

definition mapping_ok :: "user_mapping \<Rightarrow> bool" where
  "mapping_ok m \<longleftrightarrow> user (m_virt m) \<and> m_virt m mod PAGE_SIZE = 0 \<and> addressable (m_frame m)"

definition space_inv :: "holders \<Rightarrow> user_space \<Rightarrow> 's mm \<Rightarrow> bool" where
  "space_inv X us st \<longleftrightarrow> healthy (busy X us) st (us_root us) \<and> books X us (view (frames st)) \<and> agree us (cells st) \<and>
     mappings_sorted us \<and> list_all mapping_ok (us_mappings us)"

lemma user_page_of: "user w \<Longrightarrow> user (page_of w)"
  by (rule user_page) simp_all

lemma page_path:
  assumes "user v" "v mod PAGE_SIZE = 0" "user w"
  shows "same_path A v w L \<longleftrightarrow> page_of w = v"
  using user_path [OF assms(1,3)] page_of_eq [of w v] page_of_aligned [OF assms(2)] by simp

text \<open>A fresh frame.\<close>

lemma alloc_in_hand:
  assumes "space_inv X us st"
  obtains (ok) f s' where "alloc (frames st) 1 = Some (Ok f, s')" "space_inv (in_hand X (frame_index f)) us (st\<lparr>frames := s'\<rparr>)"
      "addressable f" "frame_index f \<notin> busy X us" "frame_index f \<in> free (frames st)" "view s' = (view (frames st))(frame_index f \<mapsto> (0, 1))"
  | (err) e s' where "alloc (frames st) 1 = Some (Err e, s')" "space_inv X us (st\<lparr>frames := s'\<rparr>)" "view s' = view (frames st)"
proof -
  have h: "inv (frames st)" "busy X us \<inter> free (frames st) = {}" "space_ok A (free (frames st) \<union> busy X us) (cells st) (us_root us)"
    using assms by (simp_all add: space_inv_def healthy_def)
  show ?thesis
  proof (rule alloc_one [OF h(1)])
    fix f s' assume a: "alloc (frames st) 1 = Some (Ok f, s')" "inv s'" "addressable f" "frame_index f \<in> free (frames st)"
      "free s' \<subseteq> free (frames st) - {frame_index f}" "view s' = (view (frames st))(frame_index f \<mapsto> (0, 1))"
    have new: "frame_index f \<notin> busy X us" using a(4) h(2) by auto
    have "healthy (insert (frame_index f) (busy X us)) (st\<lparr>frames := s'\<rparr>) (us_root us)"
      using h a(2,4,5) by (auto simp: healthy_def space_ok_def)
    moreover have "books (in_hand X (frame_index f)) us (view s')"
      unfolding books_def busy_in_hand
      using assms new a(6) by (auto simp: space_inv_def books_def in_hand_def) (auto simp: busy_def)
    ultimately show ?thesis using ok [OF a(1) _ a(3) new a(4,6)] assms by (simp add: space_inv_def busy_in_hand)
  next
    fix e s' assume a: "alloc (frames st) 1 = Some (Err e, s')" "inv s'" "free s' = free (frames st)" "view s' = view (frames st)"
    then show ?thesis using err [OF a(1)] assms by (simp add: space_inv_def healthy_def)
  qed
qed

text \<open>The contents of a frame in hand, or of any frame that is no table, do not matter to the space.\<close>

lemma cells_apart_from_tables:
  assumes "healthy R st root" "\<And>p. cells st' p \<noteq> cells st p \<Longrightarrow> p div PAGE_SIZE \<in> R" "frames st' = frames st"
  shows "healthy R st' root" "translate A (cells st') root w = translate A (cells st) root w"
proof -
  have sp: "space_ok A (free (frames st) \<union> R) (cells st) root" using assms(1) by (simp add: healthy_def)
  have same: "cells st' (table_entry u i) = cells st (table_entry u i)"
    if "u \<in> set (tables A (cells st) (LEVELS A) 0 root)" "i < ENTRY_COUNT A" for u i
  proof (rule ccontr)
    assume "cells st' (table_entry u i) \<noteq> cells st (table_entry u i)"
    then have "table_entry u i div PAGE_SIZE \<in> R" by (rule assms(2))
    moreover have "aligned_frame u" "frame_index u \<notin> R" using sp that(1) by (auto simp: space_ok_def space_tables_def)
    moreover have "table_entry u i div PAGE_SIZE = frame_index u"
      using that(2) entries_fit \<open>aligned_frame u\<close> by (auto simp: table_entry_def aligned_frame_def)
    ultimately show False by simp
  qed
  note f = frame_rule [of 0 "LEVELS A" "cells st" root "cells st'", OF _ same]
  show "healthy R st' root" using assms(1,3) f by (simp add: healthy_def space_ok_def space_tables_def)
  show "translate A (cells st') root w = translate A (cells st) root w" using f by (simp add: translate_def)
qed

lemma space_inv_cells:
  assumes "space_inv X us st" "\<And>p. cells st' p \<noteq> cells st p \<Longrightarrow> p div PAGE_SIZE \<in> busy X us" "frames st' = frames st"
  shows "space_inv X us st'"
  using assms cells_apart_from_tables [OF _ assms(2,3)] by (auto simp: space_inv_def agree_def)

text \<open>Giving a reference in hand back.\<close>

lemma release_in_hand:
  assumes "space_inv (in_hand X (frame_index f)) us st"
  obtains r s' where "release (frames st) f 1 = Some (r, s')" "space_inv X us (st\<lparr>frames := s'\<rparr>)"
    "\<And>g. g \<noteq> frame_index f \<Longrightarrow> view s' g = view (frames st) g"
proof -
  let ?f = "frame_index f"
  have n: "(1::nat) < usize_range" by (simp add: usize_range_def)
  have h: "inv (frames st)" "insert ?f (busy X us) \<inter> free (frames st) = {}"
      "space_ok A (free (frames st) \<union> insert ?f (busy X us)) (cells st) (us_root us)" "books (in_hand X ?f) us (view (frames st))"
    using assms by (simp_all add: space_inv_def healthy_def busy_in_hand)
  obtain r where r: "view (frames st) ?f = Some (0, r)" "refs us ?f + X ?f + 1 \<le> r"
    by (rule booksD [OF h(4), of ?f]) (auto simp: in_hand_def)
  have rest: "\<exists>q. view (frames st) g = Some (0, q) \<and> refs us g + X g \<le> q" if "g \<in> busy X us" for g
    using h(4) that unfolding books_def busy_in_hand by (force simp: in_hand_def split: if_splits)
  obtain x s' where x: "release (frames st) f 1 = Some (x, s')" "inv s'" "ram s' = ram (frames st)"
    using release_returns [OF h(1) n, of f] by blast
  show ?thesis
  proof (cases x)
    case (Err e)
    then have "s' = frames st" using release_err [OF h(1) n] x(1) by simp
    moreover have "healthy (busy X us) st (us_root us)" by (rule healthy_mono [of "insert ?f (busy X us)"]) (use h in \<open>auto simp: healthy_def\<close>)
    ultimately show ?thesis using that [OF x(1)] assms rest by (simp add: space_inv_def books_def)
  next
    case (Ok c)
    note v = release_ok [OF h(1) n x(1) [unfolded Ok], unfolded ceil_log2_1]
    then have c: "r = c + 1" "view s' = (view (frames st))(?f := if c = 0 then None else Some (0, c))" using r by simp_all
    have "free s' \<subseteq> free (frames st) \<union> (if c = 0 then {?f} else {})"
      using taken_delete [of "view (frames st)", OF r(1)] taken_upd_count [of "view (frames st)", OF r(1), of c] x(3) c(2) by (auto simp: free_frames_def)
    moreover have "?f \<notin> busy X us" if "c = 0" using that c(1) r(2) by (simp add: busy_def)
    ultimately have "healthy (busy X us) (st\<lparr>frames := s'\<rparr>) (us_root us)"
      using h x(2) by (auto simp: healthy_def space_ok_def split: if_splits)
    moreover have "books X us (view s')" using rest r c by (auto simp: books_def busy_def)
    ultimately show ?thesis using that [OF x(1)] assms c(2) by (simp add: space_inv_def)
  qed
qed

text \<open>Updates of the vector that go with updates of the page tables.\<close>

lemma books_kept:
  assumes "books X us v" "\<And>f. refs us' f + X' f = refs us f + X f" "\<And>f. f \<in> busy X us \<Longrightarrow> v' f = v f"
  shows "books X' us' v'" "busy X' us' = busy X us"
  using assms by (auto simp: books_def busy_def)

lemma map_core:
  assumes s: "space_inv X us st" and m: "mapping_ok m"
  obtains (ok) st' where "map_page A alloc (us_root us) (m_virt m) (m_frame m) Size4KiB (m_flags m) st = Some (Ok (), st')"
      "mapping (m_virt m) us = None" "spared (busy X us) st st'"
      "\<And>X' us'. us_root us' = us_root us \<Longrightarrow> mappings_sorted us' \<Longrightarrow> list_all mapping_ok (us_mappings us') \<Longrightarrow>
        (\<And>w. user w \<Longrightarrow> mapping w us' = (if page_of w = m_virt m then Some m else mapping w us)) \<Longrightarrow>
        (\<And>f. refs us' f + X' f = refs us f + X f) \<Longrightarrow> space_inv X' us' st'"
  | (err) e st' where "map_page A alloc (us_root us) (m_virt m) (m_frame m) Size4KiB (m_flags m) st = Some (Err e, st')"
      "space_inv X us st'" "spared (busy X us) st st'"
proof -
  have h: "healthy (busy X us) st (us_root us)" "books X us (view (frames st))" "agree us (cells st)"
    using s by (simp_all add: space_inv_def)
  have v: "user (m_virt m)" "m_virt m mod PAGE_SIZE = 0" using m by (simp_all add: mapping_ok_def)
  show ?thesis
  proof (rule map_page_spec [OF h(1), of "m_virt m" "m_frame m" Size4KiB "m_flags m"])
    fix l b st'
    assume a: "map_page A alloc (us_root us) (m_virt m) (m_frame m) Size4KiB (m_flags m) st = Some (Ok (), st')"
      "healthy (busy X us) st' (us_root us)" "leaf_level A Size4KiB = Some l" "spared (busy X us) st st'"
      "\<And>w. same_path A (m_virt m) w l \<Longrightarrow> translate A (cells st) (us_root us) w = None"
      "\<And>w. translate A (cells st') (us_root us) w =
        (if same_path A (m_virt m) w l then Some (l, make_leaf A (m_frame m) l (m_flags m)) else translate A (cells st) (us_root us) w)"
    have l: "l = L" using a(3) leaf_4k(1) by simp
    have "mapping (m_virt m) us = None" using a(5) [of "m_virt m"] h(3) v(1) by (auto simp: agree_def same_path_def)
    moreover have "space_inv X' us' st'"
      if u: "us_root us' = us_root us" "mappings_sorted us'" "list_all mapping_ok (us_mappings us')"
        "\<And>w. user w \<Longrightarrow> mapping w us' = (if page_of w = m_virt m then Some m else mapping w us)"
        "\<And>f. refs us' f + X' f = refs us f + X f" for X' us'
    proof -
      have "agree us' (cells st')"
        using a(6) page_path [OF v] h(3) u(1,4) unfolding l by (auto simp: agree_def leaf_of_def)
      then show ?thesis
        using a(2,4) u(1-3) books_kept [OF h(2), of us' X' "view (frames st')"] u(5) by (simp add: space_inv_def spared_def)
    qed
    ultimately show ?thesis using ok [OF a(1) _ a(4)] by blast
  next
    fix e st'
    assume a: "map_page A alloc (us_root us) (m_virt m) (m_frame m) Size4KiB (m_flags m) st = Some (Err e, st')" "kept (busy X us) st st' (us_root us)"
    have "books X us (view (frames st'))" by (rule books_kept(1) [OF h(2)]) (use a(2) in \<open>simp_all add: kept_def spared_def\<close>)
    then show ?thesis using err [OF a(1)] a(2) s by (simp add: space_inv_def kept_def agree_def)
  qed
qed

text \<open>The translation of a page of the vector.\<close>

lemma mapped_page:
  assumes "space_inv X us st" "i < length (us_mappings us)"
  defines "m \<equiv> us_mappings us ! i"
  shows "mapping_ok m" "user (m_virt m)" "m_virt m mod PAGE_SIZE = 0" "mapping (m_virt m) us = Some m"
    "translate A (cells st) (us_root us) (m_virt m) = Some (leaf_of m)"
proof -
  show ok: "mapping_ok m" using assms by (simp add: space_inv_def list_all_length m_def)
  then show v: "user (m_virt m)" "m_virt m mod PAGE_SIZE = 0" by (simp_all add: mapping_ok_def)
  have "mappings_sorted us" using assms(1) by (simp add: space_inv_def)
  then show "mapping (m_virt m) us = Some m"
    using mapping_Some [OF _ user_bound [OF v(1)], of us m] page_of_aligned [OF v(2)] assms(2) by (simp add: m_def)
  then show "translate A (cells st) (us_root us) (m_virt m) = Some (leaf_of m)"
    using assms(1) v(1) by (simp add: space_inv_def agree_def)
qed

lemma mapped_leaf:
  assumes "mapping_ok m"
  shows "entry_frame A (make_leaf A (m_frame m) L (m_flags m)) = m_frame m" "aligned_frame (m_frame m)"
proof -
  have ad: "addressable (m_frame m)" using assms by (simp add: mapping_ok_def)
  then show al: "aligned_frame (m_frame m)" by (rule addressable_aligned)
  have "is_aligned (start_address (m_frame m)) PAGE_SIZE"
    using al page_size_pos is_aligned_page [of "start_address (m_frame m)"] by (simp add: aligned_frame_def)
  then show "entry_frame A (make_leaf A (m_frame m) L (m_flags m)) = m_frame m" by (rule leaf_frame [OF ad leaf_4k(2)])
qed

lemma unmappedE:
  assumes "unmapped R st root virt rel k e sz x"
  obtains r st' where "x = Some (r, st')" "healthy R st' root"
    "\<And>w. translate A (cells st') root w = (if same_path A virt w k then None else translate A (cells st) root w)"
    "let_go R rel (frame_index (entry_frame A e)) st st'" "\<And>y. r = Err y \<Longrightarrow> \<exists>z. y = Frame z"
proof -
  obtain r st' where a: "x = Some (r, st')" "healthy R st' root"
      "\<forall>w. translate A (cells st') root w = (if same_path A virt w k then None else translate A (cells st) root w)"
      "let_go R rel (frame_index (entry_frame A e)) st st'" "case r of Ok u \<Rightarrow> True | Err y \<Rightarrow> \<exists>z. y = Frame z"
    using assms unfolding unmapped_def by (force split: result.splits)
  show ?thesis by (rule that [OF a(1,2) _ a(4)]) (use a(3,5) in simp_all)
qed

text \<open>
  Removing the page of a mapping. The reference of an owned mapping goes back to the allocator,
  that of a shared one stays in hand.
\<close>

lemma unmap_core:
  assumes s: "space_inv X us st" and i: "i < length (us_mappings us)"
  defines "m \<equiv> us_mappings us ! i" and "us' \<equiv> us\<lparr>us_mappings := remove_at i (us_mappings us)\<rparr>"
  defines "f \<equiv> frame_index (m_frame m)"
  obtains r st' where "unmap_inner A release (us_root us) (m_virt m) (m_owned m) st = Some (r, st')"
    "\<And>e. r = Err e \<Longrightarrow> \<exists>x. e = Frame x"
    "space_inv (\<lambda>g. X g + (if \<not> m_owned m \<and> holds g m then 1 else 0)) us' st'"
    "spared (busy X us - {f}) st st'" "\<And>p. p div PAGE_SIZE \<in> busy X us' \<Longrightarrow> cells st' p = cells st p"
    "m_owned m \<Longrightarrow> view (frames st) f = Some (0, c + 2) \<Longrightarrow>
      view (frames st') f = Some (0, c + 1) \<and> (\<forall>p. p div PAGE_SIZE = f \<longrightarrow> cells st' p = cells st p)"
proof -
  have h: "healthy (busy X us) st (us_root us)" "books X us (view (frames st))" "agree us (cells st)" "mappings_sorted us"
    "list_all mapping_ok (us_mappings us)" using s by (simp_all add: space_inv_def)
  note p = mapped_page [OF s i, folded m_def]
  let ?e = "make_leaf A (m_frame m) L (m_flags m)"
  let ?X = "\<lambda>g. X g + (if \<not> m_owned m \<and> holds g m then 1 else 0)"
  have refs: "refs us g = refs us' g + (if holds g m then 1 else 0)" for g
    using refs_remove [OF i] by (simp add: us'_def m_def)
  have sub: "busy ?X us' \<subseteq> busy X us" "busy X us - {f} \<subseteq> busy ?X us'" using refs by (auto simp: busy_def holds_def f_def)
  \<comment> \<open>the frames that must stay: all but the one of an owned mapping with no other reference\<close>
  define R where "R = (if m_owned m \<and> view (frames st) f = Some (0, 1) then busy ?X us' else busy X us)"
  have R: "R \<subseteq> busy X us" "busy ?X us' \<subseteq> R" using sub by (auto simp: R_def)
  have hR: "healthy R st (us_root us)" by (rule healthy_mono [OF h(1) R(1)])
  have led: "\<exists>c. view (frames st) f = Some (0, c + 1) \<and> refs us' f + X f \<le> c" if "m_owned m"
  proof -
    have "holds f m" using that by (simp add: holds_def f_def)
    then obtain q where "view (frames st) f = Some (0, q)" "refs us' f + 1 + X f \<le> q"
      using booksD [OF h(2), of f] refs [of f] by auto
    then show ?thesis by (intro exI [of _ "q - 1"]) auto
  qed
  have fx: "frame_index (entry_frame A ?e) = f" using mapped_leaf(1) [OF p(1)] by (simp add: f_def)
  have may: "may_release R st (us_root us) (entry_frame A ?e) (frame_count_for_size Size4KiB)" if o: "m_owned m"
  proof -
    obtain c where c: "view (frames st) f = Some (0, c + 1)" "refs us' f + X f \<le> c" using led [OF o] by blast
    have n: "ceil_log2 (frame_count_for_size Size4KiB) = 0" using ceil_log2_1 by (simp add: frame_count_for_size_def)
    show ?thesis
    proof (cases c)
      case 0
      have "f \<in> busy X us" using refs [of f] o by (simp add: busy_def holds_def f_def)
      then have "\<forall>t \<in> set (space_tables A (cells st) (us_root us)). frame_index t \<noteq> f"
        using h(1) by (auto simp: healthy_def space_ok_def)
      moreover have "f \<notin> R" using 0 c o by (simp add: R_def busy_def)
      ultimately show ?thesis unfolding may_release_def table_free_def n fx by auto
    next
      case (Suc d)
      then show ?thesis using c unfolding may_release_def n fx by auto
    qed
  qed
  have "unmapped R st (us_root us) (m_virt m) (m_owned m) L ?e Size4KiB
      (unmap_levels A release (us_root us) (m_virt m) (m_owned m) [0..<LEVELS A] (us_root us) (replicate MAX_PAGE_TABLE_LEVELS None) st)"
    using unmap_levels_spec [OF hR, of "m_virt m" 0 "us_root us" "replicate MAX_PAGE_TABLE_LEVELS None" "m_owned m"] p(5) leaf_4k(3) may
    by (simp add: leaf_of_def)
  then obtain r st' where u: "unmap_inner A release (us_root us) (m_virt m) (m_owned m) st = Some (r, st')" "healthy R st' (us_root us)"
      "\<And>w. translate A (cells st') (us_root us) w = (if same_path A (m_virt m) w L then None else translate A (cells st) (us_root us) w)"
      "let_go R (m_owned m) (frame_index (entry_frame A ?e)) st st'" "\<And>e. r = Err e \<Longrightarrow> \<exists>x. e = Frame x"
    unfolding unmap_inner_def min.absorb2 [OF levels(2)] by (rule unmappedE) blast
  have keep: "spared (R - (if m_owned m then {f} else {})) st st'"
    using u(4) fx by (cases "m_owned m") (simp_all add: let_go_def)
  have dec: "view (frames st') f = Some (0, c + 1) \<and> (\<forall>p. p div PAGE_SIZE = f \<longrightarrow> cells st' p = cells st p)"
    if "m_owned m" "view (frames st) f = Some (0, c + 2)" for c
  proof -
    have "f \<in> R" using that refs [of f] by (simp add: R_def busy_def holds_def f_def)
    then show ?thesis using u(4) fx that by (auto simp: let_go_def)
  qed
  have own: "\<exists>d. view (frames st) f = Some (0, d + 2) \<and> refs us' f + X f \<le> d + 1" if o: "m_owned m" and pos: "0 < refs us' f + X f"
  proof -
    obtain c where c: "view (frames st) f = Some (0, c + 1)" "refs us' f + X f \<le> c" using led [OF o] by blast
    then obtain d where "c = Suc d" using pos by (cases c) simp_all
    then show ?thesis using c by (intro exI [of _ d]) simp
  qed
  have books: "books ?X us' (view (frames st'))"
    unfolding books_def
  proof
    fix g assume g: "g \<in> busy ?X us'"
    show "\<exists>r. view (frames st') g = Some (0, r) \<and> refs us' g + ?X g \<le> r"
    proof (cases "m_owned m \<and> g = f")
      case True
      then obtain d where "view (frames st) f = Some (0, d + 2)" "refs us' f + X f \<le> d + 1" using own g by (auto simp: busy_def)
      then show ?thesis using dec True by auto
    next
      case False
      then have "view (frames st') g = view (frames st) g" using keep g R(2) by (auto simp: spared_def split: if_splits)
      moreover have nf: "\<not> holds g m" if "m_owned m" using False that by (auto simp: holds_def f_def)
      have e: "refs us' g + ?X g = refs us g + X g"
        using refs [of g] nf by (cases "holds g m"; cases "m_owned m") simp_all
      have "0 < refs us g + X g" unfolding e [symmetric] using g by (simp add: busy_def)
      then obtain q where "view (frames st) g = Some (0, q)" "refs us g + X g \<le> q" by (rule booksD [OF h(2)])
      ultimately show ?thesis unfolding e by (intro exI [of _ q]) simp
    qed
  qed
  have maps: "mapping w us' = (if page_of w = m_virt m then None else mapping w us)" if "user w" for w
    using mapping_remove [OF h(4) i user_bound [OF that]] by (simp add: us'_def m_def)
  have "agree us' (cells st')"
    using u(3) page_path [OF p(2,3)] h(3) maps by (auto simp: agree_def us'_def)
  moreover have "list_all mapping_ok (us_mappings us')"
    using h(5) set_remove_at [OF sorted_distinct [OF h(4)] i] by (auto simp: us'_def list_all_iff)
  ultimately have "space_inv ?X us' st'"
    using healthy_mono [OF u(2) R(2)] books remove_mapping_sorted [OF h(4)] by (simp add: space_inv_def us'_def)
  moreover have "spared (busy X us - {f}) st st'"
  proof (rule spared_mono [OF keep])
    have "busy X us - {f} \<subseteq> R" using sub(2) R(2) by (rule subset_trans)
    then show "busy X us - {f} \<subseteq> R - (if m_owned m then {f} else {})" by auto
  qed
  moreover have "cells st' q = cells st q" if "q div PAGE_SIZE \<in> busy X us'" for q
  proof (cases "m_owned m \<and> q div PAGE_SIZE = f")
    case True
    then show ?thesis using own that dec by (auto simp: busy_def)
  next
    case False
    moreover have "q div PAGE_SIZE \<in> R" using that R(2) by (auto simp: busy_def)
    ultimately show ?thesis using keep by (auto simp: spared_def split: if_splits)
  qed
  ultimately show ?thesis using that [OF u(1,5)] dec by blast
qed

text \<open>Changing the flags of a mapping.\<close>

lemma protect_core:
  assumes s: "space_inv X us st" and i: "i < length (us_mappings us)"
  defines "m \<equiv> us_mappings us ! i"
  obtains st' where "protect A (us_root us) (m_virt m) flags st = Some (Ok (), st')" "frames st' = frames st"
    "spared (busy X us) st st'" "space_inv X (us\<lparr>us_mappings := (us_mappings us)[i := m\<lparr>m_flags := flags, m_cow := cow\<rparr>]\<rparr>) st'"
proof -
  let ?m = "m\<lparr>m_flags := flags, m_cow := cow\<rparr>"
  let ?us = "us\<lparr>us_mappings := (us_mappings us)[i := ?m]\<rparr>"
  have h: "healthy (busy X us) st (us_root us)" "books X us (view (frames st))" "agree us (cells st)" "mappings_sorted us"
    "list_all mapping_ok (us_mappings us)" using s by (simp_all add: space_inv_def)
  note p = mapped_page [OF s i, folded m_def]
  have "\<exists>st'. protect A (us_root us) (m_virt m) flags st = Some (Ok (), st') \<and> healthy (busy X us) st' (us_root us) \<and>
      (\<forall>w. translate A (cells st') (us_root us) w =
        (if same_path A (m_virt m) w L then Some (leaf_of ?m) else translate A (cells st) (us_root us) w)) \<and>
      frames st' = frames st \<and> spared (busy X us) st st'"
    using protect_levels_spec [OF h(1), of "m_virt m" 0 "us_root us" flags] p(5) leaf_4k(2) mapped_leaf(1) [OF p(1)]
    by (auto simp: leaf_of_def protect_def)
  then obtain st' where u: "protect A (us_root us) (m_virt m) flags st = Some (Ok (), st')" "healthy (busy X us) st' (us_root us)"
      "\<And>w. translate A (cells st') (us_root us) w =
        (if same_path A (m_virt m) w L then Some (leaf_of ?m) else translate A (cells st) (us_root us) w)"
      "frames st' = frames st" "spared (busy X us) st st'" by blast
  have "refs ?us f = refs us f" for f using refs_update [OF i, of ?m f] by (simp add: m_def holds_def)
  then have "busy X ?us = busy X us" "books X ?us (view (frames st'))" using h(2) u(4) by (simp_all add: busy_def books_def)
  moreover have "agree ?us (cells st')"
    using u(3) page_path [OF p(2,3)] h(3) mapping_update [OF h(4) i user_bound, of _ ?m] by (auto simp: agree_def m_def)
  moreover have "mappings_sorted ?us" by (rule update_mapping_sorted [OF h(4)]) (simp add: m_def)
  moreover have "mapping_ok ?m" using p(1) by (simp add: mapping_ok_def)
  then have "list_all mapping_ok (us_mappings ?us)"
    using h(5) set_update_subset_insert [of "us_mappings us" i ?m] by (auto simp: list_all_iff)
  ultimately show ?thesis using that [OF u(1,4,5)] u(2) by (simp add: space_inv_def)
qed

end

end
