(* ===== verification/User_Ops.thy ===== *)
theory User_Ops
  imports User_Memory
begin

text \<open>
  The operations of an address space keep its invariant, whatever their outcome, and change the
  vector of mappings and the memory as they say.
\<close>

lemma call_simps [simp]:
  "map_call None u = None" "map_call (Some (Ok a, st)) u = Some (Ok a, (u, st))"
  "map_call (Some (Err e, st)) u = Some (Err (Map e), (u, st))"
  "frame_call None vm = None" "frame_call (Some (Ok a, s)) vm = Some (Ok a, (fst vm, (snd vm)\<lparr>frames := s\<rparr>))"
  "frame_call (Some (Err x, s)) vm = Some (Err (BuildFrame x), (fst vm, (snd vm)\<lparr>frames := s\<rparr>))"
  "ignoring None k = None" "ignoring (Some (r, s)) k = k s"
  by (simp_all add: map_call_def frame_call_def ignoring_def)

lemma frame_call_cases:
  obtains (ok) a s where "c = Some (Ok a, s)" | (err) e s where "c = Some (Err e, s)" | (none) "c = (None :: ('s, 'e, 'a) run)"
  by (metis option.exhaust prod.exhaust result.exhaust)

text \<open>Only the vector of mappings differs.\<close>

definition same_but_mappings :: "user_space \<Rightarrow> user_space \<Rightarrow> bool" where
  "same_but_mappings us us' \<longleftrightarrow> us' = us\<lparr>us_mappings := us_mappings us'\<rparr>"

lemma same_but_mappings [simp]: "same_but_mappings us us" "same_but_mappings us (us\<lparr>us_mappings := ms\<rparr>)"
  "same_but_mappings us (insert_mapping m us)"
  by (simp_all add: same_but_mappings_def insert_mapping_def)

lemma same_but_mappings_fields:
  assumes "same_but_mappings us us'"
  shows "us_vmas us' = us_vmas us" "us_root us' = us_root us" "us_layout us' = us_layout us" "brk_start us' = brk_start us"
    "brk_current us' = brk_current us" "brk_limit us' = brk_limit us"
  using assms unfolding same_but_mappings_def by (cases us; cases us'; simp)+

lemma same_but_mappings_trans: "same_but_mappings us us1 \<Longrightarrow> same_but_mappings us1 us2 \<Longrightarrow> same_but_mappings us us2"
  unfolding same_but_mappings_def by (cases us; cases us1; cases us2) simp

text \<open>The contents of the frames of a set.\<close>

definition same_contents :: "usize set \<Rightarrow> cells \<Rightarrow> cells \<Rightarrow> bool" where
  "same_contents F c c' \<longleftrightarrow> (\<forall>p. p div PAGE_SIZE \<in> F \<longrightarrow> c' p = c p)"

lemma same_contents_refl [simp]: "same_contents F c c"
  by (simp add: same_contents_def)

lemma same_contents_trans: "same_contents F c c1 \<Longrightarrow> same_contents F c1 c2 \<Longrightarrow> same_contents F c c2"
  by (simp add: same_contents_def)

lemma same_contents_mono: "same_contents F c c' \<Longrightarrow> G \<subseteq> F \<Longrightarrow> same_contents G c c'"
  by (auto simp: same_contents_def)

lemma in_frame: "aligned_frame f \<Longrightarrow> start_address f \<le> p \<and> p < start_address f + PAGE_SIZE \<longleftrightarrow> p div PAGE_SIZE = frame_index f"
proof -
  assume a: "aligned_frame f"
  have "p div PAGE_SIZE = n \<longleftrightarrow> n * PAGE_SIZE \<le> p \<and> p < n * PAGE_SIZE + PAGE_SIZE" for n
    using page_size_pos by (metis add.commute div_nat_eqI div_times_less_eq_dividend dividend_less_div_times mult.commute mult_Suc)
  then show ?thesis using a by (auto simp: aligned_frame_def)
qed

lemma page_steps_iff: "x \<in> set (page_steps a b) \<longleftrightarrow> (\<exists>i. x = a + i * PAGE_SIZE) \<and> x < b"
proof -
  have "i < (n + (PAGE_SIZE - 1)) div PAGE_SIZE \<longleftrightarrow> i * PAGE_SIZE < n" for i n
    using less_eq_div_iff_mult_less_eq [OF page_size_pos, of "Suc i" "n + (PAGE_SIZE - 1)"] page_size_pos
    by (auto simp: Suc_le_eq)
  moreover have "x \<in> set (page_steps a b) \<longleftrightarrow> (\<exists>i. x = a + i * PAGE_SIZE \<and> i < (b - a + (PAGE_SIZE - 1)) div PAGE_SIZE)"
    unfolding page_steps_def set_map set_upt by (simp only: image_iff Bex_def atLeastLessThan_iff) blast
  ultimately have "x \<in> set (page_steps a b) \<longleftrightarrow> (\<exists>i. x = a + i * PAGE_SIZE \<and> i * PAGE_SIZE < b - a)" by (simp only:)
  then show ?thesis by auto
qed

text \<open>The pages of a range of whole pages.\<close>

lemma pages_of_range:
  assumes "addr mod PAGE_SIZE = 0" "len mod PAGE_SIZE = 0" "addr + len \<le> usize_range"
  shows "page_of w \<in> (\<lambda>x. page_of (wadd addr x)) ` set (page_steps 0 len) \<longleftrightarrow> addr \<le> w \<and> w < addr + len"
proof
  assume "page_of w \<in> (\<lambda>x. page_of (wadd addr x)) ` set (page_steps 0 len)"
  then obtain i where i: "i * PAGE_SIZE < len" "page_of w = page_of (wadd addr (i * PAGE_SIZE))" by (auto simp: page_steps_iff)
  then have "page_of w = addr + i * PAGE_SIZE" using assms by (simp add: wadd_exact page_of_aligned)
  moreover have "w < page_of w + PAGE_SIZE" using dividend_less_div_times [OF page_size_pos, of w] by (simp add: page_of_def add.commute)
  moreover have "i * PAGE_SIZE + PAGE_SIZE \<le> len"
    using i(1) assms(2) page_size_pos by (metis add.commute div_mult_mod_eq add.right_neutral mult.commute mult_Suc mult_le_mono1 mult_less_cancel2 Suc_leI)
  ultimately show "addr \<le> w \<and> w < addr + len" using page_of_idem(2) [of w] by linarith
next
  assume w: "addr \<le> w \<and> w < addr + len"
  let ?x = "page_of w - addr"
  have "addr \<le> page_of w" using w assms(1) by (metis div_le_mono mult_le_mono1 page_of_aligned page_of_def)
  moreover have "\<exists>i. ?x = i * PAGE_SIZE"
    using assms(1) by (metis div_mult_mod_eq add.right_neutral diff_mult_distrib page_of_def)
  moreover have x: "?x < len" "addr + ?x = page_of w" "page_of w < usize_range"
    using w assms(3) page_of_idem(2) [of w] \<open>addr \<le> page_of w\<close> by linarith+
  moreover have "wadd addr ?x = page_of w" using x by (simp add: wadd_def)
  ultimately show "page_of w \<in> (\<lambda>x. page_of (wadd addr x)) ` set (page_steps 0 len)"
    by (intro image_eqI [of _ _ ?x]) (auto simp: page_steps_iff)
qed

context user_memory
begin

lemma spared_contents: "spared R st st' \<Longrightarrow> same_contents R (cells st) (cells st')"
  by (simp add: spared_def same_contents_def)

text \<open>Fresh memory.\<close>

lemma allocate_spec:
  assumes "space_inv X us st"
  obtains (ok) f st' where "allocate_zeroed_owned_frame env (us, st) = Some (Ok f, (us, st'))"
      "space_inv (in_hand X (frame_index f)) us st'" "addressable f" "frame_index f \<notin> busy X us"
      "\<And>p. p div PAGE_SIZE = frame_index f \<Longrightarrow> cells st' p = 0" "same_contents (busy X us) (cells st) (cells st')"
  | (err) e st' where "allocate_zeroed_owned_frame env (us, st) = Some (Err (BuildFrame e), (us, st'))" "space_inv X us st'" "cells st' = cells st"
proof (rule alloc_in_hand [OF assms])
  fix f s' assume a: "alloc (frames st) 1 = Some (Ok f, s')" "space_inv (in_hand X (frame_index f)) us (st\<lparr>frames := s'\<rparr>)"
    "addressable f" "frame_index f \<notin> busy X us"
  let ?st = "zero_page (st\<lparr>frames := s'\<rparr>) f"
  note fr = in_frame [OF addressable_aligned [OF a(3)]]
  have c: "cells ?st p = (if p div PAGE_SIZE = frame_index f then 0 else cells st p)" for p
    by (simp add: zero_page_def zero_cells_def fr)
  have "space_inv (in_hand X (frame_index f)) us ?st"
  proof (rule space_inv_cells [OF a(2)])
    fix p assume "cells ?st p \<noteq> cells (st\<lparr>frames := s'\<rparr>) p"
    then show "p div PAGE_SIZE \<in> busy (in_hand X (frame_index f)) us" unfolding c by (auto simp: busy_in_hand split: if_splits)
  qed (simp add: zero_page_def)
  moreover have "same_contents (busy X us) (cells st) (cells ?st)" using a(4) by (auto simp: same_contents_def c)
  ultimately show ?thesis using ok [of f ?st] a(1,3,4) c by (simp add: allocate_zeroed_owned_frame_def)
next
  fix e s' assume "alloc (frames st) 1 = Some (Err e, s')" "space_inv X us (st\<lparr>frames := s'\<rparr>)"
  then show ?thesis using err [of e "st\<lparr>frames := s'\<rparr>"] by (simp add: allocate_zeroed_owned_frame_def)
qed

lemma map_owned_frame_spec:
  fixes flags :: map_flags
  assumes s: "space_inv (in_hand X (frame_index f)) us st" and v: "user v" "v mod PAGE_SIZE = 0" and f: "addressable f"
  defines "m \<equiv> \<lparr>m_virt = v, m_frame = f, m_flags = flags, m_cow = False, m_owned = True, m_shared = False\<rparr>"
  obtains (ok) st' where "map_owned_frame env v f flags (us, st) = Some (Ok (), (insert_mapping m us, st'))"
      "space_inv X (insert_mapping m us) st'" "mapping v us = None"
      "same_contents (busy (in_hand X (frame_index f)) us) (cells st) (cells st')"
  | (err) e st' where "map_owned_frame env v f flags (us, st) = Some (Err (Map e), (us, st'))" "space_inv X us st'"
      "same_contents (busy X us) (cells st) (cells st')"
proof -
  have m: "mapping_ok m" "m_virt m = v" "m_frame m = f" "m_flags m = flags" using v f by (simp_all add: m_def mapping_ok_def)
  have h: "mappings_sorted us" "list_all mapping_ok (us_mappings us)" using s by (simp_all add: space_inv_def)
  show ?thesis
  proof (rule map_core [OF s m(1), unfolded m(2-4)])
    fix st' assume a: "map_page A alloc (us_root us) v f Size4KiB flags st = Some (Ok (), st')" "mapping v us = None"
      "spared (busy (in_hand X (frame_index f)) us) st st'"
      "\<And>X' us'. us_root us' = us_root us \<Longrightarrow> mappings_sorted us' \<Longrightarrow> list_all mapping_ok (us_mappings us') \<Longrightarrow>
        (\<And>w. user w \<Longrightarrow> mapping w us' = (if page_of w = v then Some m else mapping w us)) \<Longrightarrow>
        (\<And>g. refs us' g + X' g = refs us g + in_hand X (frame_index f) g) \<Longrightarrow> space_inv X' us' st'"
    have "space_inv X (insert_mapping m us) st'"
    proof (rule a(4))
      show "us_root (insert_mapping m us) = us_root us" by (simp add: insert_mapping_def)
      show "mappings_sorted (insert_mapping m us)"
        by (rule insert_mapping_sorted [OF h(1)]) (use user_bound v a(2) m(2) in simp_all)
      show "list_all mapping_ok (us_mappings (insert_mapping m us))" using h(2) m(1) by (simp add: list_all_iff)
      show "mapping w (insert_mapping m us) = (if page_of w = v then Some m else mapping w us)" if "user w" for w
        using mapping_insert [OF h(1), of m w] user_bound v a(2) m(2) that by simp
      show "refs (insert_mapping m us) g + X g = refs us g + in_hand X (frame_index f) g" for g
        by (simp add: refs_insert in_hand_def holds_def m_def)
    qed
    then show ?thesis using ok [of st'] a(1-3) spared_contents by (simp add: map_owned_frame_def m_def)
  next
    fix e st' assume a: "map_page A alloc (us_root us) v f Size4KiB flags st = Some (Err e, st')"
      "space_inv (in_hand X (frame_index f)) us st'" "spared (busy (in_hand X (frame_index f)) us) st st'"
    obtain r s' where r: "release (frames st') f 1 = Some (r, s')" "space_inv X us (st'\<lparr>frames := s'\<rparr>)"
      by (rule release_in_hand [OF a(2)]) blast
    have "map_owned_frame env v f flags (us, st) = Some (Err (Map e), (us, st'\<lparr>frames := s'\<rparr>))"
      using a(1) r(1) by (cases r) (simp_all add: map_owned_frame_def)
    moreover have "same_contents (busy X us) (cells st) (cells st')"
      using spared_contents [OF a(3)] by (rule same_contents_mono) (auto simp: busy_in_hand)
    ultimately show ?thesis using err [of e "st'\<lparr>frames := s'\<rparr>"] r(2) by simp
  qed
qed

text \<open>Fewer holders ask for less.\<close>

lemma space_inv_weaken:
  assumes "space_inv X us st" "\<And>f. X' f \<le> X f"
  shows "space_inv X' us st"
proof -
  have sub: "busy X' us \<subseteq> busy X us" using assms(2) by (auto simp: busy_def) (metis gr0I le_zero_eq)
  then have "healthy (busy X' us) st (us_root us)" using assms(1) healthy_mono by (auto simp: space_inv_def)
  moreover have "books X' us (view (frames st))"
    unfolding books_def
  proof
    fix f assume "f \<in> busy X' us"
    then have "f \<in> busy X us" using sub by blast
    then have "0 < refs us f + X f" by (simp add: busy_def)
    then obtain r where "view (frames st) f = Some (0, r)" "refs us f + X f \<le> r"
      using booksD [of X us "view (frames st)" f] assms(1) by (auto simp: space_inv_def)
    then show "\<exists>r. view (frames st) f = Some (0, r) \<and> refs us f + X' f \<le> r" using assms(2) [of f] by auto
  qed
  ultimately show ?thesis using assms(1) by (simp add: space_inv_def)
qed

text \<open>The pages of a set are gone, with the references of their mappings.\<close>

definition pages_gone :: "holders \<Rightarrow> usize set \<Rightarrow> user_space \<times> 's mm \<Rightarrow> user_space \<times> 's mm \<Rightarrow> bool" where
  "pages_gone X P vm vm' \<longleftrightarrow> space_inv X (fst vm') (snd vm') \<and> same_but_mappings (fst vm) (fst vm') \<and>
     (\<forall>w. user w \<longrightarrow> mapping w (fst vm') = (if page_of w \<in> P then None else mapping w (fst vm))) \<and>
     same_contents (busy X (fst vm')) (cells (snd vm)) (cells (snd vm')) \<and> (\<forall>f. refs (fst vm') f \<le> refs (fst vm) f)"

abbreviation page_gone :: "holders \<Rightarrow> usize \<Rightarrow> user_space \<times> 's mm \<Rightarrow> user_space \<times> 's mm \<Rightarrow> bool" where
  "page_gone X a \<equiv> pages_gone X {page_of a}"

lemma pages_gone_refl: "space_inv X us st \<Longrightarrow> pages_gone X {} (us, st) (us, st)"
  by (simp add: pages_gone_def)

lemma pages_gone_trans:
  assumes "pages_gone X P vm vm1" "pages_gone X Q vm1 vm2"
  shows "pages_gone X (P \<union> Q) vm vm2"
proof -
  have "refs (fst vm2) f \<le> refs (fst vm1) f" for f using assms(2) by (simp add: pages_gone_def)
  then have "0 < refs (fst vm2) f + X f \<Longrightarrow> 0 < refs (fst vm1) f + X f" for f by (meson add_right_mono less_le_trans)
  then have "busy X (fst vm2) \<subseteq> busy X (fst vm1)" unfolding busy_def by (rule Collect_mono [OF impI])
  then have "same_contents (busy X (fst vm2)) (cells (snd vm)) (cells (snd vm2))"
    using assms by (meson pages_gone_def same_contents_mono same_contents_trans)
  moreover have "refs (fst vm2) f \<le> refs (fst vm) f" for f using assms by (meson pages_gone_def le_trans)
  moreover have "same_but_mappings (fst vm) (fst vm2)" using assms by (meson pages_gone_def same_but_mappings_trans)
  ultimately show ?thesis using assms by (simp add: pages_gone_def)
qed

lemma page_gone_absent: "space_inv X us st \<Longrightarrow> mapping a us = None \<Longrightarrow> a < usize_range \<Longrightarrow> page_gone X a (us, st) (us, st)"
  using mapping_None [of us] by (auto simp: pages_gone_def space_inv_def user_bound)

lemma unmap_user_page_spec:
  assumes s: "space_inv X us st" and a: "a < usize_range"
  obtains r vm' where "unmap_user_page env a (us, st) = Some (r, vm')" "page_gone X a (us, st) vm'"
    "mapping a us \<noteq> None \<Longrightarrow> r \<noteq> Err (Map NotMapped)"
proof (cases "mapping_index a us")
  case None
  then have m: "mapping a us = None" by (simp add: mapping_def)
  show ?thesis
    by (rule that [of "Err (Map NotMapped)" "(us, st)"]) (use None m page_gone_absent [OF s m a] in \<open>simp_all add: unmap_user_page_def\<close>)
next
  case (Some i)
  let ?m = "us_mappings us ! i" and ?us = "us\<lparr>us_mappings := remove_at i (us_mappings us)\<rparr>"
  let ?X = "\<lambda>g. X g + (if \<not> m_owned ?m \<and> holds g ?m then 1 else 0)"
  have so: "mappings_sorted us" using s by (simp add: space_inv_def)
  have i: "i < length (us_mappings us)" "m_virt ?m = page_of a" using Some mapping_index_Some [OF so a] by simp_all
  obtain r st' where u: "unmap_inner A release (us_root us) (m_virt ?m) (m_owned ?m) st = Some (r, st')"
      "\<And>e. r = Err e \<Longrightarrow> \<exists>x. e = Frame x" "space_inv ?X ?us st'" "\<And>p. p div PAGE_SIZE \<in> busy X ?us \<Longrightarrow> cells st' p = cells st p"
    by (rule unmap_core [OF s i(1)]) blast
  have gone: "page_gone X a (us, st) (?us, st2)" if "space_inv X ?us st2" "cells st2 = cells st'" for st2
    using that u(4) mapping_remove [OF so i(1) user_bound] i(2) refs_remove [OF i(1)]
    by (auto simp: pages_gone_def same_contents_def)
  have weak: "space_inv X ?us st'" by (rule space_inv_weaken [OF u(3)]) simp
  consider (direct) x where "unmap_user_page env a (us, st) = Some (x, (?us, st'))" "x \<noteq> Err (Map NotMapped)"
    | (shared) "m_shared ?m" "\<not> m_owned ?m" "\<And>x. r \<noteq> Err x"
    using Some u(1,2) by (cases r; cases "m_owned ?m"; cases "m_shared ?m")
      (fastforce simp: unmap_user_page_def unmap_def unmap_preserve_def Let_def)+
  then show ?thesis
  proof cases
    case direct
    then show ?thesis using that gone [OF weak refl] by blast
  next
    case shared
    have "?X = in_hand X (frame_index (m_frame ?m))" using shared by (auto simp: in_hand_def holds_def)
    then have "space_inv (in_hand X (frame_index (m_frame ?m))) ?us st'" using u(3) by simp
    then obtain q s' where q: "release (frames st') (m_frame ?m) 1 = Some (q, s')" "space_inv X ?us (st'\<lparr>frames := s'\<rparr>)"
      by (rule release_in_hand) blast
    obtain x where "r = Ok x" using shared(3) by (cases r) auto
    then have "unmap_user_page env a (us, st) = Some (Ok (), (?us, st'\<lparr>frames := s'\<rparr>))"
      using Some u(1) shared q(1) by (cases q) (simp_all add: unmap_user_page_def unmap_preserve_def Let_def)
    then show ?thesis using that gone [OF q(2)] by simp
  qed
qed

lemma unmap_pages_spec:
  assumes "space_inv X (fst vm) (snd vm)" "\<And>x. x \<in> set xs \<Longrightarrow> at_page x < usize_range"
  shows "\<exists>vm'. for_each_ignoring (\<lambda>x. unmap_user_page env (at_page x)) xs vm = Some (Ok () :: (build_error, unit) result, vm') \<and>
    pages_gone X ((\<lambda>x. page_of (at_page x)) ` set xs) vm vm'"
  using assms
proof (induction xs arbitrary: vm)
  case Nil
  then show ?case using pages_gone_refl [of X "fst vm" "snd vm"] by simp
next
  case (Cons x xs)
  obtain us st where vm: "vm = (us, st)" by force
  have "space_inv X us st" "at_page x < usize_range" using Cons.prems vm by simp_all
  then obtain r vm1 where 1: "unmap_user_page env (at_page x) vm = Some (r, vm1)" "page_gone X (at_page x) vm vm1"
    unfolding vm by (rule unmap_user_page_spec)
  have i1: "space_inv X (fst vm1) (snd vm1)" using 1(2) by (simp add: pages_gone_def)
  have "\<exists>vm'. for_each_ignoring (\<lambda>x. unmap_user_page env (at_page x)) xs vm1 = Some (Ok () :: (build_error, unit) result, vm') \<and>
      pages_gone X ((\<lambda>x. page_of (at_page x)) ` set xs) vm1 vm'"
    by (rule Cons.IH [OF i1]) (use Cons.prems(2) in simp)
  then obtain vm2 where 2: "for_each_ignoring (\<lambda>x. unmap_user_page env (at_page x)) xs vm1 = Some (Ok () :: (build_error, unit) result, vm2)"
      "pages_gone X ((\<lambda>x. page_of (at_page x)) ` set xs) vm1 vm2" by blast
  have "pages_gone X ((\<lambda>x. page_of (at_page x)) ` set (x # xs)) vm vm2" using pages_gone_trans [OF 1(2) 2(2)] by simp
  then show ?case using 1(1) 2(1) by simp
qed

text \<open>Other fields of the space do not matter to the invariant.\<close>

lemma space_inv_cong:
  assumes "us_mappings us' = us_mappings us" "us_root us' = us_root us"
  shows "space_inv X us' st \<longleftrightarrow> space_inv X us st" "busy X us' = busy X us" "mapping w us' = mapping w us" "refs us' f = refs us f"
proof -
  show m: "mapping w us' = mapping w us" for w using assms(1) by (simp add: mapping_def mapping_index_def)
  show r: "refs us' f = refs us f" for f using assms(1) by (simp add: refs_def)
  then show b: "busy X us' = busy X us" by (simp add: busy_def)
  show "space_inv X us' st \<longleftrightarrow> space_inv X us st"
    using assms m by (simp add: space_inv_def b r books_def agree_def mappings_sorted_def)
qed

text \<open>\<open>munmap\<close> of whole pages always succeeds.\<close>

lemma munmap_spec:
  assumes s: "space_inv X us st" and addr: "addr mod PAGE_SIZE = 0" and len: "0 < len" "len + PAGE_SIZE \<le> usize_range"
    and fit: "addr + align_up len PAGE_SIZE < usize_range"
  defines "e \<equiv> addr + align_up len PAGE_SIZE"
  obtains us' st' where "munmap env addr len (us, st) = Some (Ok (), (us', st'))" "space_inv X us' st'"
    "\<And>w. user w \<Longrightarrow> mapping w us' = (if addr \<le> w \<and> w < e then None else mapping w us)"
    "us_vmas us' = remove_vma_range addr e (us_vmas us)" "same_contents (busy X us') (cells st) (cells st')"
proof -
  note al = align_up_spec [OF len]
  let ?f = "\<lambda>x. page_of (wadd addr x)" and ?xs = "page_steps 0 (align_up len PAGE_SIZE)"
  have "\<exists>vm'. for_each_ignoring (\<lambda>x. unmap_user_page env (wadd addr x)) ?xs (us, st) = Some (Ok () :: (build_error, unit) result, vm') \<and>
      pages_gone X (?f ` set ?xs) (us, st) vm'"
    by (rule unmap_pages_spec) (use s in \<open>simp_all add: wadd_less\<close>)
  then obtain us1 st' where u: "for_each_ignoring (\<lambda>x. unmap_user_page env (wadd addr x)) ?xs (us, st) =
      Some (Ok () :: (build_error, unit) result, (us1, st'))" "pages_gone X (?f ` set ?xs) (us, st) (us1, st')" by force
  let ?us = "us1\<lparr>us_vmas := remove_vma_range addr e (us_vmas us1)\<rparr>"
  note c = space_inv_cong [of ?us us1, simplified]
  have "wadd addr (align_up len PAGE_SIZE) = e" using fit by (simp add: e_def wadd_exact)
  then have run: "munmap env addr len (us, st) = Some (Ok (), (?us, st'))"
    using u(1) len(1) addr by (simp add: munmap_def is_aligned_page Let_def)
  have vmas: "us_vmas us1 = us_vmas us" using u(2) same_but_mappings_fields(1) by (simp add: pages_gone_def)
  have maps: "mapping w ?us = (if addr \<le> w \<and> w < e then None else mapping w us)" if "user w" for w
  proof -
    have "mapping w ?us = (if page_of w \<in> ?f ` set ?xs then None else mapping w us)" using u(2) that by (simp add: pages_gone_def c(3))
    then show ?thesis using pages_of_range [OF addr al(2), of w] fit unfolding e_def by simp
  qed
  have "space_inv X ?us st'" "same_contents (busy X ?us) (cells st) (cells st')" using u(2) c by (simp_all add: pages_gone_def)
  then show ?thesis by (intro that [OF run _ maps]) (simp_all add: vmas)
qed

end

end
