(* ===== verification/User_Faults.thy ===== *)
theory User_Faults
  imports User_Ops
begin

text \<open>
  Page faults: the private copy of a page that is shared until written to, and the pages that
  are only mapped when they are touched.
\<close>

section \<open>Copy on write\<close>

lemma copy_frame_cells:
  assumes "aligned_frame dest"
  shows "cells (copy_frame source dest st) p =
      (if p div PAGE_SIZE = frame_index dest then cells st (start_address source + (p - start_address dest)) else cells st p)"
    "frames (copy_frame source dest st) = frames st"
  using in_frame [OF assms, of p] by (simp_all add: copy_frame_def)

text \<open>Mapping a page may run out of frames for the tables; it never reports the page as unmapped.\<close>

lemma map_levels_error: "map_levels A alloc virt flags ls table st = Some (Err e, st') \<Longrightarrow> e \<noteq> NotMapped"
proof (induction ls arbitrary: table st)
  case (Cons l ls)
  then show ?case
    by (cases "alloc (frames st) 1") (auto simp: Let_def frames_call_def and_then_def split: if_splits result.splits)
qed simp

lemma map_page_error: "map_page A alloc root virt frame sz flags st = Some (Err e, st') \<Longrightarrow> e \<noteq> NotMapped"
  using map_levels_error [of A alloc virt flags _ root st e st']
  by (auto simp: map_page_def and_then_def Let_def split: option.splits result.splits if_splits)

context user_memory
begin

text \<open>What a resolved write to a shared page leaves: a private page with the old contents.\<close>

definition cow_resolved :: "holders \<Rightarrow> user_mapping \<Rightarrow> user_space \<times> 's mm \<Rightarrow> user_mapping \<Rightarrow> user_space \<times> 's mm \<Rightarrow> bool" where
  "cow_resolved X m vm m' vm' \<longleftrightarrow> space_inv X (fst vm') (snd vm') \<and> same_but_mappings (fst vm) (fst vm') \<and>
     m_virt m' = m_virt m \<and> m_flags m' = m_flags m OR WRITE \<and> \<not> m_cow m' \<and> m_owned m' \<and>
     (\<forall>w. user w \<longrightarrow> mapping w (fst vm') = (if page_of w = m_virt m then Some m' else mapping w (fst vm))) \<and>
     view (frames (snd vm')) (frame_index (m_frame m')) = Some (0, 1) \<and>
     (\<forall>g. g \<noteq> frame_index (m_frame m') \<longrightarrow> refs (fst vm') g \<le> refs (fst vm) g) \<and>
     (\<forall>i < PAGE_SIZE. cells (snd vm') (start_address (m_frame m') + i) = cells (snd vm) (start_address (m_frame m) + i)) \<and>
     same_contents (busy X (fst vm') - {frame_index (m_frame m')}) (cells (snd vm)) (cells (snd vm'))"

lemma frame_cell:
  assumes "addressable f" "i < PAGE_SIZE"
  shows "(start_address f + i) div PAGE_SIZE = frame_index f"
  using in_frame [OF addressable_aligned [OF assms(1)], of "start_address f + i"] assms(2) by simp

lemma cow_sole_owner:
  assumes s: "space_inv X us st" and i: "i < length (us_mappings us)"
  defines "m \<equiv> us_mappings us ! i" and "flags \<equiv> m_flags (us_mappings us ! i) OR WRITE"
  defines "m' \<equiv> m\<lparr>m_flags := flags, m_cow := False\<rparr>"
  assumes o: "m_owned m" and v: "view (frames st) (frame_index (m_frame m)) = Some (0, 1)"
  obtains st' where "protect A (us_root us) (m_virt m) flags st = Some (Ok (), st')"
    "cow_resolved X m (us, st) m' (us\<lparr>us_mappings := (us_mappings us)[i := m']\<rparr>, st')"
proof -
  obtain st' where p: "protect A (us_root us) (m_virt m) flags st = Some (Ok (), st')" "frames st' = frames st"
      "spared (busy X us) st st'" "space_inv X (us\<lparr>us_mappings := (us_mappings us)[i := m']\<rparr>) st'"
    unfolding m_def m'_def by (rule protect_core [OF s i])
  let ?us = "us\<lparr>us_mappings := (us_mappings us)[i := m']\<rparr>"
  have so: "mappings_sorted us" using s by (simp add: space_inv_def)
  have ok: "addressable (m_frame m)" using mapped_page(1) [OF s i] by (simp add: mapping_ok_def m_def)
  have refs: "refs ?us f = refs us f" for f using refs_update [OF i, of m' f] by (simp add: m_def m'_def holds_def)
  then have busy: "busy X ?us = busy X us" by (simp add: busy_def)
  have mem: "m \<in> set (us_mappings us)" using i by (simp add: m_def)
  have "frame_index (m_frame m) \<in> busy X us"
    using refs_pos [OF mem, of "frame_index (m_frame m)"] o by (simp add: holds_def busy_def)
  then have "cells st' (start_address (m_frame m) + j) = cells st (start_address (m_frame m) + j)" if "j < PAGE_SIZE" for j
    using p(3) frame_cell [OF ok that] by (simp add: spared_def)
  moreover have "mapping w ?us = (if page_of w = m_virt m then Some m' else mapping w us)" if "user w" for w
    using mapping_update [OF so i user_bound [OF that], of m'] by (simp add: m_def m'_def)
  moreover have "same_contents (busy X us - {frame_index (m_frame m')}) (cells st) (cells st')"
    using spared_contents [OF p(3)] by (rule same_contents_mono) auto
  moreover have "m_virt m' = m_virt m" "m_frame m' = m_frame m" "m_flags m' = m_flags m OR WRITE" "\<not> m_cow m'" "m_owned m'"
    using o by (simp_all add: m'_def flags_def m_def)
  ultimately have "cow_resolved X m (us, st) m' (?us, st')"
    unfolding cow_resolved_def fst_conv snd_conv busy using p(2,4) v refs by simp
  then show ?thesis by (rule that [OF p(1)])
qed

text \<open>With other holders, the page moves to a fresh frame; the old one loses one reference.\<close>

lemma cow_copy:
  assumes s: "space_inv X us st" and i: "i < length (us_mappings us)"
  defines "m \<equiv> us_mappings us ! i" and "flags \<equiv> m_flags (us_mappings us ! i) OR WRITE"
  assumes o: "m_owned m" and a: "alloc (frames st) 1 = Some (Ok f, s')" "space_inv (in_hand X (frame_index f)) us (st\<lparr>frames := s'\<rparr>)"
    "addressable f" "frame_index f \<notin> busy X us" "view s' = (view (frames st))(frame_index f \<mapsto> (0, 1))"
  defines "m' \<equiv> m\<lparr>m_frame := f, m_flags := flags, m_cow := False\<rparr>" and "st1 \<equiv> copy_frame (m_frame m) f (st\<lparr>frames := s'\<rparr>)"
  obtains (unmap) e st2 where "unmap A release (us_root us) (m_virt m) st1 = Some (Err (Frame e), st2)"
  | (map) x st2 e st3 where "unmap A release (us_root us) (m_virt m) st1 = Some (Ok x, st2)"
      "map_page A alloc (us_root us) (m_virt m) f Size4KiB flags st2 = Some (Err e, st3)" "e \<noteq> NotMapped"
  | (ok) x st2 st3 where "unmap A release (us_root us) (m_virt m) st1 = Some (Ok x, st2)"
      "map_page A alloc (us_root us) (m_virt m) f Size4KiB flags st2 = Some (Ok (), st3)"
      "cow_resolved X m (us, st) m' (us\<lparr>us_mappings := (us_mappings us)[i := m']\<rparr>, st3)"
proof -
  let ?fi = "frame_index f" and ?old = "frame_index (m_frame m)"
  let ?rest = "us\<lparr>us_mappings := remove_at i (us_mappings us)\<rparr>" and ?us = "us\<lparr>us_mappings := (us_mappings us)[i := m']\<rparr>"
  have h: "mappings_sorted us" "list_all mapping_ok (us_mappings us)" using s by (simp_all add: space_inv_def)
  note p = mapped_page [OF s i, folded m_def]
  note cc = copy_frame_cells [OF addressable_aligned [OF a(3)], of "m_frame m" "st\<lparr>frames := s'\<rparr>", folded st1_def]
  have s1: "space_inv (in_hand X ?fi) us st1"
    by (rule space_inv_cells [OF a(2)]) (auto simp: cc busy_in_hand split: if_splits)
  have m': "mapping_ok m'" "m_virt m' = m_virt m" "m_frame m' = f" "m_flags m' = flags" "m_owned m'" "\<not> m_cow m'"
    using p(1) a(3) o by (simp_all add: m'_def mapping_ok_def)
  have mem: "m \<in> set (us_mappings us)" using i by (simp add: m_def)
  have "?old \<in> busy X us" using refs_pos [OF mem, of ?old] o by (simp add: holds_def busy_def)
  then have ne: "?old \<noteq> ?fi" using a(4) by auto
  obtain r st2 where u: "unmap_inner A release (us_root us) (m_virt m) (m_owned m) st1 = Some (r, st2)" "\<And>e. r = Err e \<Longrightarrow> \<exists>x. e = Frame x"
      "space_inv (\<lambda>g. in_hand X ?fi g + (if \<not> m_owned m \<and> holds g m then 1 else 0)) ?rest st2"
      "spared (busy (in_hand X ?fi) us - {?old}) st1 st2" "\<And>p. p div PAGE_SIZE \<in> busy (in_hand X ?fi) ?rest \<Longrightarrow> cells st2 p = cells st1 p"
    by (rule unmap_core [OF s1 i, folded m_def]) blast
  have run: "unmap A release (us_root us) (m_virt m) st1 = Some (r, st2)" using u(1) o by (simp add: unmap_def)
  have s2: "space_inv (in_hand X ?fi) ?rest st2" using u(3) o by simp
  show ?thesis
  proof (cases r)
    case (Err e)
    then show ?thesis using unmap run u(2) by blast
  next
    case (Ok x)
    show ?thesis
    proof (rule map_core [OF s2 m'(1), unfolded m'(2-4)])
      fix e st3 assume "map_page A alloc (us_root ?rest) (m_virt m) f Size4KiB flags st2 = Some (Err e, st3)"
      then show ?thesis using map run Ok map_page_error [of A alloc _ "m_virt m"] by simp
    next
      fix st3 assume q: "map_page A alloc (us_root ?rest) (m_virt m) f Size4KiB flags st2 = Some (Ok (), st3)"
        "spared (busy (in_hand X ?fi) ?rest) st2 st3"
        "\<And>X' us'. us_root us' = us_root ?rest \<Longrightarrow> mappings_sorted us' \<Longrightarrow> list_all mapping_ok (us_mappings us') \<Longrightarrow>
          (\<And>w. user w \<Longrightarrow> mapping w us' = (if page_of w = m_virt m then Some m' else mapping w ?rest)) \<Longrightarrow>
          (\<And>g. refs us' g + X' g = refs ?rest g + in_hand X ?fi g) \<Longrightarrow> space_inv X' us' st3"
      have maps: "mapping w ?us = (if page_of w = m_virt m then Some m' else mapping w us)" if "user w" for w
        using mapping_update [OF h(1) i user_bound [OF that], of m'] m'(2) by (simp add: m_def)
      have refs: "refs ?us g + X g = refs ?rest g + in_hand X ?fi g" for g
        using refs_update [OF i, of m' g] refs_remove [OF i, of g] m'(3,5) by (auto simp: in_hand_def holds_def split: if_splits)
      have s3: "space_inv X ?us st3"
      proof (rule q(3) [OF _ _ _ _ refs])
        show "mappings_sorted ?us" by (rule update_mapping_sorted [OF h(1)]) (simp add: m'(2) m_def)
        show "list_all mapping_ok (us_mappings ?us)"
          using h(2) m'(1) set_update_subset_insert [of "us_mappings us" i m'] by (auto simp: list_all_iff)
        show "mapping w ?us = (if page_of w = m_virt m then Some m' else mapping w ?rest)" if "user w" for w
          using maps [OF that] mapping_remove [OF h(1) i user_bound [OF that]] by (simp add: m_def)
      qed simp
      have busy: "busy X ?us = busy (in_hand X ?fi) ?rest" using refs by (simp add: busy_def)
      have fi: "?fi \<in> busy (in_hand X ?fi) ?rest" "?fi \<in> busy (in_hand X ?fi) us - {?old}" using ne by (simp_all add: busy_in_hand)
      have same: "cells st3 q = cells st1 q" if "q div PAGE_SIZE \<in> busy X ?us" for q
        using that q(2) u(5) unfolding busy by (simp add: spared_def)
      have "view (frames st3) ?fi = view (frames st1) ?fi" using q(2) u(4) fi by (simp add: spared_def)
      moreover have "view (frames st1) ?fi = Some (0, 1)" using a(5) cc(2) by simp
      moreover have "cells st3 (start_address f + j) = cells st (start_address (m_frame m) + j)" if "j < PAGE_SIZE" for j
        using same [of "start_address f + j"] frame_cell [OF a(3) that] fi(1) busy cc(1) by simp
      moreover have "same_contents (busy X ?us - {?fi}) (cells st) (cells st3)"
        using same cc(1) by (auto simp: same_contents_def)
      moreover have "refs ?us g \<le> refs us g" if "g \<noteq> ?fi" for g
        using refs [of g] refs_remove [OF i, of g] that by (simp add: in_hand_def)
      ultimately have "cow_resolved X m (us, st) m' (?us, st3)"
        unfolding cow_resolved_def fst_conv snd_conv m'(3) using s3 m' maps by (simp add: flags_def m_def)
      then show ?thesis using ok run Ok q(1) by simp
    qed
  qed
qed

lemma resolve_cow_spec:
  assumes s: "space_inv X us st" and m: "mapping v us = Some m" "user v" "v mod PAGE_SIZE = 0" and o: "m_owned m"
  obtains (ok) m' vm' where "resolve_cow_fault env v (us, st) = Some (Ok (), vm')" "cow_resolved X m (us, st) m' vm'"
  | (oom) e st' where "resolve_cow_fault env v (us, st) = Some (Err (BuildFrame e), (us, st'))" "space_inv X us st'" "cells st' = cells st"
  | (tables) e st' where "resolve_cow_fault env v (us, st) = Some (Err (Map e), (us, st'))" "e \<noteq> NotMapped"
proof -
  have h: "mappings_sorted us" "books X us (view (frames st))" using s by (simp_all add: space_inv_def)
  obtain i where i: "mapping_index v us = Some i" "us_mappings us ! i = m" using m(1) by (auto simp: mapping_def)
  have il: "i < length (us_mappings us)" "m_virt m = v"
    using mapping_index_Some [OF h(1) user_bound [OF m(2)], of i] i page_of_aligned [OF m(3)] by simp_all
  have mem: "m \<in> set (us_mappings us)" using il(1) i(2) by auto
  have ok1: "addressable (m_frame m)" using mapped_page(1) [OF s il(1)] i(2) by (simp add: mapping_ok_def)
  have "0 < refs us (frame_index (m_frame m))" using refs_pos [OF mem, of "frame_index (m_frame m)"] o by (simp add: holds_def)
  then obtain r where r: "view (frames st) (frame_index (m_frame m)) = Some (0, r)" "1 \<le> r"
    using booksD [OF h(2), of "frame_index (m_frame m)"] by (metis add_gr_0 le_trans less_eq_Suc_le One_nat_def add_leD1)
  have inv: "inv (frames st)" using s by (simp add: space_inv_def healthy_def)
  have rc: "ref_count (frames st) (m_frame m) = Some (Some r)"
    using ref_count_eq [OF inv addressable_aligned [OF ok1]] r(1) by simp
  show ?thesis
  proof (cases "r > 1")
    case False
    then have v1: "view (frames st) (frame_index (m_frame m)) = Some (0, 1)" using r by simp
    obtain st' where "protect A (us_root us) v (m_flags m OR WRITE) st = Some (Ok (), st')"
        "cow_resolved X m (us, st) (m\<lparr>m_flags := m_flags m OR WRITE, m_cow := False\<rparr>)
          (us\<lparr>us_mappings := (us_mappings us)[i := m\<lparr>m_flags := m_flags m OR WRITE, m_cow := False\<rparr>]\<rparr>, st')"
      using cow_sole_owner [OF s il(1)] i(2) o v1 il(2) by blast
    then show ?thesis using ok i rc False by (simp add: resolve_cow_fault_def Let_def)
  next
    case True
    show ?thesis
    proof (rule alloc_in_hand [OF s])
      fix e s' assume "alloc (frames st) 1 = Some (Err e, s')" "space_inv X us (st\<lparr>frames := s'\<rparr>)"
      then show ?thesis using oom [of e "st\<lparr>frames := s'\<rparr>"] i rc True by (simp add: resolve_cow_fault_def Let_def)
    next
      fix f s' assume a: "alloc (frames st) 1 = Some (Ok f, s')" "space_inv (in_hand X (frame_index f)) us (st\<lparr>frames := s'\<rparr>)"
        "addressable f" "frame_index f \<notin> busy X us" "view s' = (view (frames st))(frame_index f \<mapsto> (0, 1))"
      note copy = cow_copy [OF s il(1) _ a, unfolded i(2) il(2), OF o]
      show ?thesis
        by (rule copy) (use ok tables i rc True a(1) in \<open>simp_all add: resolve_cow_fault_def Let_def\<close>)
    qed
  qed
qed

end

end
