(* ===== verification/Byte_Memory.thy ===== *)
theory Byte_Memory
  imports User_Copy
begin

text \<open>Memory in cells of eight bytes, read and written by the byte.\<close>

lemma bit_of_le_bytes: "bit (of_le_bytes bs :: 'a::len word) i \<Longrightarrow> i < 8 * length bs"
proof (induction bs arbitrary: i)
  case (Cons b bs)
  have "i < 8" if "bit b i" using that bit_imp_le_length [of b i] by simp
  moreover have "i - 8 < 8 * length bs" if "bit (of_le_bytes bs :: 'a word) (i - 8)" using Cons.IH that .
  ultimately show ?case using Cons.prems by (fastforce simp: bit_simps)
qed simp

lemma le_bytes_of_le_bytes:
  "length bs = n \<Longrightarrow> 8 * n \<le> LENGTH('a) \<Longrightarrow> le_bytes n (of_le_bytes bs :: 'a::len word) = bs"
proof (induction n arbitrary: bs)
  case (Suc n)
  then obtain b cs where bs: "bs = b # cs" "length cs = n" by (cases bs) auto
  let ?x = "of_le_bytes cs :: 'a word"
  have head: "ucast (ucast b OR push_bit 8 ?x) = b"
    by (rule bit_word_eqI) (use Suc.prems(2) in \<open>auto simp: bit_simps\<close>)
  have tail: "drop_bit 8 (ucast b OR push_bit 8 ?x) = ?x"
  proof (rule bit_word_eqI)
    fix i assume "i < LENGTH('a)"
    have "\<not> bit b (8 + i)" using bit_imp_le_length [of b "8 + i"] by auto
    moreover have "8 + i < LENGTH('a)" if "bit ?x i" using bit_of_le_bytes [OF that] bs(2) Suc.prems(2) by simp
    ultimately show "bit (drop_bit 8 (ucast b OR push_bit 8 ?x)) i \<longleftrightarrow> bit ?x i" by (auto simp: bit_simps)
  qed
  show ?case using Suc.IH [OF bs(2)] Suc.prems(2) head tail by (simp add: bs(1))
qed simp

lemma get_set_byte: "get_byte q (set_byte p b m) = (if q = p then b else get_byte q m)"
proof -
  let ?w = "of_le_bytes ((le_bytes 8 (m (8 * (p div 8))))[p mod 8 := b]) :: 64 word"
  have w: "le_bytes 8 ?w = (le_bytes 8 (m (8 * (p div 8))))[p mod 8 := b]" by (rule le_bytes_of_le_bytes) simp_all
  show ?thesis
  proof (cases "q div 8 = p div 8")
    case True
    then have "get_byte q (set_byte p b m) = (le_bytes 8 (m (8 * (p div 8))))[p mod 8 := b] ! (q mod 8)"
      using w by (simp add: get_byte_def set_byte_def Let_def)
    moreover have "q = p \<longleftrightarrow> q mod 8 = p mod 8" using True div_mult_mod_eq [of q 8] div_mult_mod_eq [of p 8] by metis
    ultimately show ?thesis using True by (simp add: get_byte_def nth_list_update)
  next
    case False
    then show ?thesis by (auto simp: get_byte_def set_byte_def Let_def)
  qed
qed

lemma get_write_bytes: "get_byte q (write_bytes p bs m) = (if p \<le> q \<and> q < p + length bs then bs ! (q - p) else get_byte q m)"
proof (induction bs arbitrary: p m)
  case (Cons b bs)
  show ?case unfolding write_bytes.simps Cons.IH get_set_byte by (auto simp: nth_Cons')
qed auto

lemma write_bytes_elsewhere: "write_bytes p bs m q \<noteq> m q \<Longrightarrow> \<exists>j < length bs. q = 8 * ((p + j) div 8)"
proof (induction bs arbitrary: p m)
  case (Cons b bs)
  show ?case
  proof (cases "write_bytes (p + 1) bs (set_byte p b m) q = set_byte p b m q")
    case True
    then have "q = 8 * (p div 8)" using Cons.prems by (auto simp: set_byte_def Let_def split: if_splits)
    then show ?thesis by (intro exI [of _ 0]) simp
  next
    case False
    then obtain j where "j < length bs" "q = 8 * ((p + 1 + j) div 8)" using Cons.IH by blast
    then show ?thesis by (intro exI [of _ "Suc j"]) simp
  qed
qed simp

lemma cell_page: "8 * (p div 8) div PAGE_SIZE = p div PAGE_SIZE"
proof -
  have "PAGE_SIZE = 8 * 512" by (simp add: PAGE_SIZE_def PAGE_SHIFT_def)
  then show ?thesis by (metis div_mult2_eq nonzero_mult_div_cancel_left zero_neq_numeral)
qed

lemma read_bytes_nth: "length (read_bytes p n m) = n" "i < n \<Longrightarrow> read_bytes p n m ! i = get_byte (p + i) m"
  by (simp_all add: read_bytes_def)

text \<open>Bytes of a frame depend on the cells of the frame only.\<close>

lemma get_byte_cong: "m' (8 * (p div 8)) = m (8 * (p div 8)) \<Longrightarrow> get_byte p m' = get_byte p m"
  by (simp add: get_byte_def)

end
