(* ===== verification/User_Lazy.thy ===== *)
theory User_Lazy
  imports User_Faults Byte_Memory
begin

text \<open>
  Pages that are mapped when they are first touched, and the page fault handler. A source of an
  image is trusted to return as many bytes as it is asked for.
\<close>

section \<open>Filling a page\<close>

definition exact :: "image_source \<Rightarrow> bool" where
  "exact source \<longleftrightarrow> (\<forall>offset n data. source offset n = Ok data \<longrightarrow> length data = n)"

fun kind_exact :: "vma_kind \<Rightarrow> bool" where
  "kind_exact (PagedImage source _ _) = exact source"
| "kind_exact (ElfSegmentImage source _ _ _ _) = exact source"
| "kind_exact _ = True"

fun imageless :: "vma_kind \<Rightarrow> bool" where
  "imageless (PagedImage _ _ _) = False"
| "imageless (ElfSegmentImage _ _ _ _ _) = False"
| "imageless _ = True"

text \<open>Only a frame is written, and only the memory.\<close>

definition only_frame :: "phys_frame \<Rightarrow> 's mm \<Rightarrow> 's mm \<Rightarrow> bool" where
  "only_frame f st st' \<longleftrightarrow> frames st' = frames st \<and> (\<forall>p. cells st' p \<noteq> cells st p \<longrightarrow> p div PAGE_SIZE = frame_index f)"

lemma only_frame_refl [simp]: "only_frame f st st"
  by (simp add: only_frame_def)

lemma only_frame_trans: "only_frame f st st1 \<Longrightarrow> only_frame f st1 st2 \<Longrightarrow> only_frame f st st2"
  unfolding only_frame_def by metis

lemma write_frame_only:
  assumes "aligned_frame f" "offset + length data \<le> PAGE_SIZE"
  shows "only_frame f st (write_frame_partial f offset data st)"
proof -
  have "q div PAGE_SIZE = frame_index f" if d: "write_bytes (start_address f + offset) data (cells st) q \<noteq> cells st q" for q
  proof -
    obtain j where j: "j < length data" "q = 8 * ((start_address f + offset + j) div 8)" using write_bytes_elsewhere [OF d] by blast
    then have "q div PAGE_SIZE = (start_address f + (offset + j)) div PAGE_SIZE" using cell_page by (simp add: add.assoc)
    then show ?thesis using in_frame [OF assms(1), of "start_address f + (offset + j)"] j(1) assms(2) by simp
  qed
  then show ?thesis by (simp add: only_frame_def write_frame_partial_def)
qed

lemma read_into_only:
  assumes "exact source" "aligned_frame f" "offset + n \<le> PAGE_SIZE" "read_into source so n f offset st = Ok st'"
  shows "only_frame f st st'"
proof -
  obtain data where d: "source so n = Ok data" "st' = write_frame_partial f offset data st"
    using assms(4) by (auto simp: read_into_def split: result.splits)
  then have "length data = n" using assms(1) unfolding exact_def by blast
  then show ?thesis using write_frame_only [OF assms(2), of offset data st] assms(3) d(2) by simp
qed

lemma fill_lazy_page_only:
  assumes "kind_exact kind" "aligned_frame f" "page_end = page_base + PAGE_SIZE"
    "fill_lazy_page f page_base page_end vs kind st = Ok st'"
  shows "only_frame f st st'"
proof (cases kind)
  case (PagedImage source offset len)
  show ?thesis
  proof (cases "len \<le> page_base - vs \<or> checked_add offset (page_base - vs) = None")
    case False
    then obtain so where so: "checked_add offset (page_base - vs) = Some so" and more: "\<not> len \<le> page_base - vs" by blast
    have "read_into source so (min PAGE_SIZE (len - (page_base - vs))) f 0 st = Ok st'"
      using assms(4) unfolding PagedImage fill_lazy_page.simps Let_def if_not_P [OF more] so option.case .
    then show ?thesis by (rule read_into_only [rotated 3]) (use assms(1,2) PagedImage in simp_all)
  next
    case True
    then have "st' = st" using assms(4) unfolding PagedImage fill_lazy_page.simps Let_def by (auto split: if_splits option.splits)
    then show ?thesis by simp
  qed
next
  case (ElfSegmentImage source s offset len order)
  show ?thesis
  proof (cases "checked_add s len")
    case (Some e)
    define cs ce where "cs = max page_base s" and "ce = min page_end e"
    have run: "(if ce \<le> cs then Ok st else case checked_add offset (cs - s) of None \<Rightarrow> Err AddressOverflow
        | Some so \<Rightarrow> read_into source so (ce - cs) f (cs - page_base) st) = Ok st'"
      using assms(4) unfolding ElfSegmentImage fill_lazy_page.simps Let_def Some option.case cs_def [symmetric] ce_def [symmetric] .
    have b: "page_base \<le> cs" "ce \<le> page_base + PAGE_SIZE" using assms(3) by (simp_all add: cs_def ce_def)
    show ?thesis
    proof (cases "ce \<le> cs")
      case False
      then obtain so where "read_into source so (ce - cs) f (cs - page_base) st = Ok st'" using run by (auto split: option.splits)
      moreover have "cs - page_base + (ce - cs) \<le> PAGE_SIZE" using b False by linarith
      ultimately show ?thesis using read_into_only [of source f "cs - page_base" "ce - cs"] assms(1,2) ElfSegmentImage by simp
    qed (use run in simp)
  next
    case None
    show ?thesis using assms(4) unfolding ElfSegmentImage fill_lazy_page.simps None by simp
  qed
qed (use assms(4) in simp_all)

lemma fill_all_only:
  assumes "list_all (\<lambda>v. kind_exact (v_kind v)) vs" "aligned_frame f" "page_end = page_base + PAGE_SIZE"
    "fill_all f page_base page_end vs fl st = (r, st')"
  shows "only_frame f st st'" "r = Ok (foldl (OR) fl (map v_flags vs)) \<or> (\<exists>e. r = Err e)"
    "list_all (\<lambda>v. imageless (v_kind v)) vs \<Longrightarrow> st' = st \<and> r = Ok (foldl (OR) fl (map v_flags vs))"
proof -
  have "only_frame f st st' \<and> (r = Ok (foldl (OR) fl (map v_flags vs)) \<or> (\<exists>e. r = Err e)) \<and>
      (list_all (\<lambda>v. imageless (v_kind v)) vs \<longrightarrow> st' = st \<and> r = Ok (foldl (OR) fl (map v_flags vs)))"
    using assms
  proof (induction vs arbitrary: fl st)
    case (Cons v vs)
    have plain: "fill_lazy_page f page_base page_end (v_start v) (v_kind v) st = Ok st" if "imageless (v_kind v)"
      using that by (cases "v_kind v") simp_all
    show ?case
    proof (cases "fill_lazy_page f page_base page_end (v_start v) (v_kind v) st")
      case (Ok st1)
      have one: "only_frame f st st1" by (rule fill_lazy_page_only [OF _ Cons.prems(2,3) Ok]) (use Cons.prems(1) in simp)
      have rest: "fill_all f page_base page_end vs (fl OR v_flags v) st1 = (r, st')" using Cons.prems(4) Ok by simp
      have ex: "list_all (\<lambda>v. kind_exact (v_kind v)) vs" using Cons.prems(1) by simp
      note ih = Cons.IH [OF ex Cons.prems(2,3) rest]
      have "st1 = st" if "imageless (v_kind v)" using plain [OF that] Ok by simp
      then show ?thesis using ih only_frame_trans [OF one] by simp
    next
      case (Err e)
      then show ?thesis using Cons.prems(4) plain by auto
    qed
  qed simp
  then show "only_frame f st st'" "r = Ok (foldl (OR) fl (map v_flags vs)) \<or> (\<exists>e. r = Err e)"
    "list_all (\<lambda>v. imageless (v_kind v)) vs \<Longrightarrow> st' = st \<and> r = Ok (foldl (OR) fl (map v_flags vs))" by blast+
qed

end
