(* ===== verification/User_Access.thy ===== *)
theory User_Access
  imports User_Lazy
begin

text \<open>
  The memory that a process sees, byte by byte, over the frames, the page tables and the areas.
  Pages that are mapped when they are touched, private copies of shared pages and the walk of
  the kernel through the pages of a buffer are invisible in it.
\<close>

section \<open>The memory of a process\<close>

text \<open>The areas that fill a page when it is touched.\<close>

definition page_areas :: "usize \<Rightarrow> user_space \<Rightarrow> user_vma list" where
  "page_areas page us = (case checked_add page PAGE_SIZE of
       None \<Rightarrow> []
     | Some page_end \<Rightarrow> (case lazy_vma_window page page_end (us_vmas us) of
         None \<Rightarrow> []
       | Some (i, j) \<Rightarrow> lazy_contributors page (us_vmas us) i j))"

definition untouched_zero :: "usize \<Rightarrow> user_space \<Rightarrow> bool" where
  "untouched_zero a us \<longleftrightarrow> page_areas (page_of a) us \<noteq> [] \<and> list_all (\<lambda>v. imageless (v_kind v)) (page_areas (page_of a) us)"

definition user_mem :: "user_space \<Rightarrow> cells \<Rightarrow> usize \<Rightarrow> byte option" where
  "user_mem us c a = (case mapping a us of
       Some m \<Rightarrow> Some (get_byte (start_address (m_frame m) + a mod PAGE_SIZE) c)
     | None \<Rightarrow> if untouched_zero a us then Some 0 else None)"

text \<open>A process writes only to pages of its own: a page it may write to has one reference.\<close>

definition sole_writer :: "holders \<Rightarrow> user_space \<Rightarrow> bool" where
  "sole_writer X us \<longleftrightarrow> (\<forall>m \<in> set (us_mappings us). m_owned m \<and>
     (contains (m_flags m) WRITE \<and> \<not> m_cow m \<longrightarrow> refs us (frame_index (m_frame m)) + X (frame_index (m_frame m)) \<le> 1))"

lemma mapping_page: "mappings_sorted us \<Longrightarrow> a < usize_range \<Longrightarrow> mapping a us = mapping (page_of a) us"
  using align_down_page_of [of a] align_down_page_of [of "page_of a"] page_of_idem(1,2) [of a]
  by (simp add: mapping_def mapping_index_def)

lemma page_areas_cong: "us_vmas us' = us_vmas us \<Longrightarrow> page_areas page us' = page_areas page us"
  by (simp only: page_areas_def)

lemma map_lazy_page_areas:
  assumes "checked_add page PAGE_SIZE = Some e"
  shows "map_lazy_page E page w vm =
    (let cs = page_areas page (fst vm)
     in if cs = [] \<or> w \<and> \<not> list_ex (\<lambda>v. contains (v_flags v) WRITE) cs then Some (Ok False, vm)
     else and_then (map_lazy_page_from E page e (if length cs = 1 \<or> sorted_wrt (\<le>) (map lazy_order cs) then cs else sort_key lazy_order cs) vm)
       (\<lambda>_ vm. Some (Ok True, vm)))"
proof (cases "lazy_vma_window page e (us_vmas (fst vm))")
  case None
  then show ?thesis unfolding map_lazy_page_def page_areas_def Let_def assms option.case by simp
next
  case (Some w)
  then show ?thesis unfolding map_lazy_page_def page_areas_def Let_def assms option.case by (cases w) auto
qed

text \<open>The areas of images are trusted to deliver as many bytes as they are asked for.\<close>

definition images_exact :: "user_space \<Rightarrow> bool" where
  "images_exact us \<longleftrightarrow> list_all (\<lambda>v. kind_exact (v_kind v)) (us_vmas us)"

lemma page_areas_subset: "set (page_areas page us) \<subseteq> set (us_vmas us)"
proof
  fix v assume v: "v \<in> set (page_areas page us)"
  obtain e where e: "checked_add page PAGE_SIZE = Some e"
    using v unfolding page_areas_def by (cases "checked_add page PAGE_SIZE") auto
  obtain i j where "lazy_vma_window page e (us_vmas us) = Some (i, j)" "v \<in> set (lazy_contributors page (us_vmas us) i j)"
    using v unfolding page_areas_def e option.case by (cases "lazy_vma_window page e (us_vmas us)") auto
  moreover from this have "j \<le> length (us_vmas us)" using partition_point_le [of _ "us_vmas us"] by (auto simp: lazy_vma_window_def Let_def split: if_splits)
  ultimately show "v \<in> set (us_vmas us)" by (auto simp: lazy_contributors_def)
qed

lemma refs_two:
  assumes "m \<in> set (us_mappings us)" "n \<in> set (us_mappings us)" "m \<noteq> n" "holds f m" "holds f n"
  shows "2 \<le> refs us f"
proof -
  have "{m, n} \<subseteq> set (filter (holds f) (us_mappings us))" using assms by auto
  then have "card {m, n} \<le> card (set (filter (holds f) (us_mappings us)))" by (rule card_mono [rotated]) simp
  also have "\<dots> \<le> refs us f" unfolding refs_def by (rule card_length)
  finally show ?thesis using assms(3) by simp
qed

lemma contains_or: "contains (a OR b) b" "contains a c \<Longrightarrow> contains (a OR b) c"
  unfolding contains_def by (auto simp: bit_eq_iff bit_simps)

lemma contains_merged:
  "contains fl c \<or> list_ex (\<lambda>v. contains (v_flags v) c) vs \<Longrightarrow> contains (foldl (OR) fl (map v_flags vs)) c"
proof (induction vs arbitrary: fl)
  case (Cons v vs)
  have "contains (fl OR v_flags v) c" if "contains (v_flags v) c" using contains_or(2) [OF that, of fl] by (simp add: or.commute)
  then show ?case using Cons contains_or(2) [of fl c "v_flags v"] by auto
qed simp

text \<open>Bytes of a page in its frame.\<close>

lemma frame_byte:
  assumes "aligned_frame f" "i < PAGE_SIZE"
  shows "8 * ((start_address f + i) div 8) = start_address f + 8 * (i div 8)" "8 * (i div 8) < PAGE_SIZE"
    "(start_address f + i) mod 8 = i mod 8"
proof -
  have *: "start_address f = 512 * frame_index f * 8" using assms(1) by (simp add: aligned_frame_def PAGE_SIZE_def PAGE_SHIFT_def)
  have "8 * ((k * 8 + i) div 8) = k * 8 + 8 * (i div 8)" for k :: nat by simp
  then show "8 * ((start_address f + i) div 8) = start_address f + 8 * (i div 8)" unfolding * .
  have "(k * 8 + i) mod 8 = i mod 8" for k :: nat by simp
  then show "(start_address f + i) mod 8 = i mod 8" unfolding * .
  show "8 * (i div 8) < PAGE_SIZE" using assms(2) by (metis le_less_trans mult.commute div_times_less_eq_dividend)
qed

lemma zero_bytes: "i < 8 \<Longrightarrow> le_bytes 8 (0 :: 64 word) ! i = 0"
  by (simp add: numeral_eq_Suc less_Suc_eq) auto

lemma get_byte_frame:
  assumes "aligned_frame f" "same_contents {frame_index f} c c'" "i < PAGE_SIZE"
  shows "get_byte (start_address f + i) c' = get_byte (start_address f + i) c"
proof (rule get_byte_cong)
  have "(start_address f + 8 * (i div 8)) div PAGE_SIZE = frame_index f"
    using in_frame [OF assms(1), of "start_address f + 8 * (i div 8)"] frame_byte(2) [OF assms(1,3)] by simp
  then show "c' (8 * ((start_address f + i) div 8)) = c (8 * ((start_address f + i) div 8))"
    using assms(2) unfolding frame_byte(1) [OF assms(1,3)] by (simp add: same_contents_def)
qed

section \<open>Steps that the process does not see\<close>

context user_memory
begin

definition unseen :: "holders \<Rightarrow> user_space \<times> 's mm \<Rightarrow> user_space \<times> 's mm \<Rightarrow> bool" where
  "unseen X vm vm' \<longleftrightarrow> space_inv X (fst vm') (snd vm') \<and> sole_writer X (fst vm') \<and> same_but_mappings (fst vm) (fst vm') \<and>
     (\<forall>a b. user a \<longrightarrow> user_mem (fst vm) (cells (snd vm)) a = Some b \<longrightarrow> user_mem (fst vm') (cells (snd vm')) a = Some b) \<and>
     (\<forall>a. user a \<longrightarrow> mapping a (fst vm) \<noteq> None \<longrightarrow> mapping a (fst vm') \<noteq> None) \<and>
     same_contents {f. 0 < X f} (cells (snd vm)) (cells (snd vm'))"

lemma unseen_refl: "space_inv X us st \<Longrightarrow> sole_writer X us \<Longrightarrow> unseen X (us, st) (us, st)"
  by (simp add: unseen_def)

lemma unseen_trans: "unseen X vm vm1 \<Longrightarrow> unseen X vm1 vm2 \<Longrightarrow> unseen X vm vm2"
  unfolding unseen_def by (meson same_but_mappings_trans same_contents_trans)

lemma unseen_inv: "unseen X vm vm' \<Longrightarrow> space_inv X (fst vm') (snd vm')" "unseen X vm vm' \<Longrightarrow> sole_writer X (fst vm')"
  by (simp_all add: unseen_def)

text \<open>The page of a mapping, and its frame.\<close>

lemma mapping_frame:
  assumes "space_inv X us st" "sole_writer X us" "mapping a us = Some m" "user a"
  shows "mapping_ok m" "m \<in> set (us_mappings us)" "m_virt m = page_of a" "m_owned m" "aligned_frame (m_frame m)"
    "frame_index (m_frame m) \<in> busy X us" "holds (frame_index (m_frame m)) m"
proof -
  have so: "mappings_sorted us" using assms(1) by (simp add: space_inv_def)
  show mem: "m \<in> set (us_mappings us)" "m_virt m = page_of a" using mapping_Some [OF so user_bound [OF assms(4)], of m] assms(3) by simp_all
  show ok: "mapping_ok m" using assms(1) mem(1) by (simp add: space_inv_def list_all_iff)
  show o: "m_owned m" using assms(2) mem(1) by (simp add: sole_writer_def)
  then show h: "holds (frame_index (m_frame m)) m" by (simp add: holds_def)
  show "aligned_frame (m_frame m)" using ok by (simp add: mapping_ok_def addressable_aligned)
  show "frame_index (m_frame m) \<in> busy X us" using refs_pos [OF mem(1) h] by (simp add: busy_def)
qed

lemma user_mem_same:
  assumes "space_inv X us st" "sole_writer X us" "user a" "mapping a us' = mapping a us" "us_vmas us' = us_vmas us"
    "same_contents F (cells st) c'" "\<And>m. mapping a us = Some m \<Longrightarrow> frame_index (m_frame m) \<in> F"
  shows "user_mem us' c' a = user_mem us (cells st) a"
proof (cases "mapping a us")
  case None
  then show ?thesis using page_areas_cong [OF assms(5), of "page_of a"] assms(4) by (simp add: user_mem_def untouched_zero_def)
next
  case (Some m)
  have "same_contents {frame_index (m_frame m)} (cells st) c'" by (rule same_contents_mono [OF assms(6)]) (use assms(7) Some in simp)
  then have "get_byte (start_address (m_frame m) + a mod PAGE_SIZE) c' = get_byte (start_address (m_frame m) + a mod PAGE_SIZE) (cells st)"
    by (rule get_byte_frame [OF mapping_frame(5) [OF assms(1,2) Some assms(3)]]) (use page_size_pos in simp)
  then show ?thesis using assms(4) Some by (simp add: user_mem_def)
qed

lemma kept_mapping:
  assumes "space_inv X us st" "space_inv X us' st'" "n \<in> set (us_mappings us')"
    "\<And>w. user w \<Longrightarrow> mapping w us' = Some n \<Longrightarrow> mapping w us = Some n"
  shows "n \<in> set (us_mappings us)"
proof -
  have so: "mappings_sorted us" "mappings_sorted us'" "mapping_ok n" using assms(1-3) by (auto simp: space_inv_def list_all_iff)
  then have u: "user (m_virt n)" "page_of (m_virt n) = m_virt n" by (auto simp: mapping_ok_def intro: page_of_aligned)
  have "mapping (m_virt n) us' = Some n" using mapping_Some [OF so(2) user_bound [OF u(1)], of n] assms(3) u(2) by simp
  then show ?thesis using assms(4) [OF u(1)] mapping_Some [OF so(1) user_bound [OF u(1)], of n] by simp
qed

text \<open>A private copy.\<close>

lemma cow_unseen:
  assumes s: "space_inv X us st" "sole_writer X us" and m: "mapping v us = Some m" "user v" and r: "cow_resolved X m (us, st) m' vm'"
  shows "unseen X (us, st) vm'"
proof -
  obtain us' st' where vm': "vm' = (us', st')" by force
  note mf = mapping_frame [OF s m]
  let ?f = "frame_index (m_frame m')"
  have c: "space_inv X us' st'" "same_but_mappings us us'" "m_virt m' = m_virt m" "\<not> m_cow m'" "m_owned m'"
      "\<And>w. user w \<Longrightarrow> mapping w us' = (if page_of w = m_virt m then Some m' else mapping w us)"
      "view (frames st') ?f = Some (0, 1)" "\<And>g. g \<noteq> ?f \<Longrightarrow> refs us' g \<le> refs us g"
      "\<And>i. i < PAGE_SIZE \<Longrightarrow> cells st' (start_address (m_frame m') + i) = cells st (start_address (m_frame m) + i)"
      "same_contents (busy X us' - {?f}) (cells st) (cells st')"
    using r by (simp_all add: cow_resolved_def vm')
  have so: "mappings_sorted us'" "list_all mapping_ok (us_mappings us')" using c(1) by (simp_all add: space_inv_def)
  have new: "mapping v us' = Some m'" using c(6) [OF m(2)] mf(3) by simp
  then have mem': "m' \<in> set (us_mappings us')" using mapping_Some [OF so(1) user_bound [OF m(2)]] by simp
  have h': "holds ?f m'" using c(5) by (simp add: holds_def)
  have pos: "0 < refs us' ?f" by (rule refs_pos [OF mem' h'])
  have one: "refs us' ?f + X ?f \<le> 1"
    using booksD [of X us' "view (frames st')" ?f] c(1,7) pos by (auto simp: space_inv_def)
  have old: "n \<in> set (us_mappings us)" if n: "n \<in> set (us_mappings us')" "n \<noteq> m'" for n
    by (rule kept_mapping [OF s(1) c(1) n(1)]) (use c(6) n(2) in \<open>auto split: if_splits\<close>)
  have apart: "frame_index (m_frame n) \<noteq> ?f" if n: "n \<in> set (us_mappings us')" "n \<noteq> m'" for n
  proof
    assume "frame_index (m_frame n) = ?f"
    then have "holds ?f n" using s(2) old [OF n] by (simp add: sole_writer_def holds_def)
    then have "2 \<le> refs us' ?f" using refs_two [OF mem' n(1)] n(2) h' by blast
    then show False using one by simp
  qed
  have sw: "sole_writer X us'"
    unfolding sole_writer_def
  proof
    fix n assume n: "n \<in> set (us_mappings us')"
    show "m_owned n \<and> (contains (m_flags n) WRITE \<and> \<not> m_cow n \<longrightarrow> refs us' (frame_index (m_frame n)) + X (frame_index (m_frame n)) \<le> 1)"
    proof (cases "n = m'")
      case False
      then show ?thesis using old [OF n False] s(2) c(8) [OF apart [OF n False]] unfolding sole_writer_def by (meson add_right_mono le_trans)
    qed (use c(5) one in simp)
  qed
  have "user_mem us' (cells st') a = Some b" if a: "user a" "user_mem us (cells st) a = Some b" for a b
  proof (cases "page_of a = m_virt m")
    case True
    then have ma: "mapping a us' = Some m'" using c(6) [OF a(1)] by simp
    have "page_of v = page_of a" using True mf(3) by simp
    then have "mapping a us = Some m" using m mapping_Some [OF _ user_bound, of us] s(1) a(1) by (auto simp: space_inv_def)
    then have b: "b = get_byte (start_address (m_frame m) + a mod PAGE_SIZE) (cells st)" using a(2) by (simp add: user_mem_def)
    have i: "a mod PAGE_SIZE < PAGE_SIZE" using page_size_pos by simp
    note fb = frame_byte [OF mf(5) i] frame_byte [OF mapping_frame(5) [OF c(1) sw ma a(1)] i]
    have "get_byte (start_address (m_frame m') + a mod PAGE_SIZE) (cells st') = get_byte (start_address (m_frame m) + a mod PAGE_SIZE) (cells st)"
      unfolding get_byte_def fb(1,3,4,6) c(9) [OF fb(2)] ..
    then show ?thesis using ma b by (simp add: user_mem_def)
  next
    case False
    then have same: "mapping a us' = mapping a us" using c(6) [OF a(1)] by simp
    have "frame_index (m_frame n) \<in> busy X us' - {?f}" if n: "mapping a us = Some n" for n
    proof -
      note nf = mapping_frame [OF c(1) sw, of a n, OF _ a(1)]
      have "n \<noteq> m'" using nf(3) same n False c(3) by auto
      then show ?thesis using nf(2,6) apart same n by auto
    qed
    then show ?thesis using user_mem_same [OF s a(1) same same_but_mappings_fields(1) [OF c(2)] c(10)] a(2) by simp
  qed
  moreover have "{f. 0 < X f} \<subseteq> busy X us' - {?f}" using one pos by (auto simp: busy_def)
  then have "same_contents {f. 0 < X f} (cells st) (cells st')" by (rule same_contents_mono [OF c(10)])
  ultimately show ?thesis using c(1,2,6) sw unfolding vm' unseen_def by simp
qed

text \<open>Steps that leave the mappings alone, and steps that add the page of a fresh frame.\<close>

lemma unseen_same:
  assumes s: "space_inv X us st" "sole_writer X us" and st': "space_inv X us st'" "same_contents (busy X us) (cells st) (cells st')"
  shows "unseen X (us, st) (us, st')"
proof -
  have "user_mem us (cells st') a = user_mem us (cells st) a" if a: "user a" for a
    by (rule user_mem_same [OF s a refl refl st'(2)]) (rule mapping_frame(6) [OF s _ a])
  moreover have "{f. 0 < X f} \<subseteq> busy X us" by (auto simp: busy_def)
  then have "same_contents {f. 0 < X f} (cells st) (cells st')" by (rule same_contents_mono [OF st'(2)])
  ultimately show ?thesis using st'(1) s(2) by (simp add: unseen_def)
qed

lemma unseen_fresh:
  fixes v :: usize and flags :: map_flags
  assumes s: "space_inv X us st" "sole_writer X us" and v: "user v" "v mod PAGE_SIZE = 0" "mapping v us = None"
    and f: "frame_index f \<notin> busy X us" "aligned_frame f"
    and zero: "untouched_zero v us \<Longrightarrow> (\<And>p. p div PAGE_SIZE = frame_index f \<Longrightarrow> cells st' p = 0)"
  defines "m \<equiv> \<lparr>m_virt = v, m_frame = f, m_flags = flags, m_cow = False, m_owned = True, m_shared = False\<rparr>"
  assumes st': "space_inv X (insert_mapping m us) st'" "same_contents (busy X us) (cells st) (cells st')"
  shows "unseen X (us, st) (insert_mapping m us, st')"
proof -
  let ?us = "insert_mapping m us"
  have so: "mappings_sorted us" using s(1) by (simp add: space_inv_def)
  have m: "m_virt m = v" "m_frame m = f" "m_owned m" "holds (frame_index f) m" by (simp_all add: m_def holds_def)
  have maps: "mapping w ?us = (if page_of w = v then Some m else mapping w us)" if "user w" for w
    using mapping_insert [OF so, of m w] m(1) v user_bound that by simp
  have refs: "refs ?us g = refs us g + (if g = frame_index f then 1 else 0)" for g
    using refs_insert [of m us g] by (auto simp: holds_def m_def)
  have f0: "refs us (frame_index f) = 0" "X (frame_index f) = 0" using f(1) by (simp_all add: busy_def)
  have sw: "sole_writer X ?us"
    unfolding sole_writer_def set_insert_mapping ball_simps
  proof (intro conjI ballI)
    show "m_owned m" by (fact m(3))
    show "contains (m_flags m) WRITE \<and> \<not> m_cow m \<longrightarrow> refs ?us (frame_index (m_frame m)) + X (frame_index (m_frame m)) \<le> 1"
      using f0 refs [of "frame_index f"] m(2) by simp
    fix n assume n: "n \<in> set (us_mappings us)"
    show "m_owned n" using s(2) n by (simp add: sole_writer_def)
    then have "0 < refs us (frame_index (m_frame n))" by (intro refs_pos [OF n]) (simp add: holds_def)
    then have "refs ?us (frame_index (m_frame n)) = refs us (frame_index (m_frame n))" using refs f0(1) by auto
    then show "contains (m_flags n) WRITE \<and> \<not> m_cow n \<longrightarrow> refs ?us (frame_index (m_frame n)) + X (frame_index (m_frame n)) \<le> 1"
      using s(2) n by (simp add: sole_writer_def)
  qed
  have "user_mem ?us (cells st') a = Some b" if a: "user a" "user_mem us (cells st) a = Some b" for a b
  proof (cases "page_of a = v")
    case True
    then have none: "mapping a us = None" using v(1,3) mapping_None [OF so user_bound] a(1) page_of_aligned [OF v(2)] by metis
    then have z: "untouched_zero a us" "b = 0" using a(2) by (auto simp: user_mem_def split: if_splits)
    then have uz: "untouched_zero v us" using True page_of_aligned [OF v(2)] by (simp add: untouched_zero_def)
    have i: "a mod PAGE_SIZE < PAGE_SIZE" using page_size_pos by simp
    have "(start_address f + 8 * (a mod PAGE_SIZE div 8)) div PAGE_SIZE = frame_index f"
      using in_frame [OF f(2), of "start_address f + 8 * (a mod PAGE_SIZE div 8)"] frame_byte(2) [OF f(2) i] by simp
    then have "get_byte (start_address f + a mod PAGE_SIZE) (cells st') = 0"
      using zero [OF uz] frame_byte [OF f(2) i] by (simp add: get_byte_def zero_bytes)
    then show ?thesis using maps [OF a(1)] True z(2) m(2) by (simp add: user_mem_def)
  next
    case False
    then have "mapping a ?us = mapping a us" using maps [OF a(1)] by simp
    then show ?thesis
      using user_mem_same [OF s a(1) _ _ st'(2) mapping_frame(6) [OF s _ a(1)], of ?us] a(2) by (simp add: insert_mapping_def)
  qed
  moreover have "{f. 0 < X f} \<subseteq> busy X us" by (auto simp: busy_def)
  then have "same_contents {f. 0 < X f} (cells st) (cells st')" by (rule same_contents_mono [OF st'(2)])
  ultimately show ?thesis using st'(1) sw maps by (simp add: unseen_def)
qed

section \<open>Touching a page\<close>

lemma lazy_from_spec:
  assumes s: "space_inv X us st" "sole_writer X us" and v: "user v" "v mod PAGE_SIZE = 0" "mapping v us = None"
    and e: "page_end = v + PAGE_SIZE" and cs: "set cs = set (page_areas v us)" "cs \<noteq> []" "list_all (\<lambda>v. kind_exact (v_kind v)) cs"
  obtains (ok) us' st' m where "map_lazy_page_from env v page_end cs (us, st) = Some (Ok (), (us', st'))" "unseen X (us, st) (us', st')"
      "mapping v us' = Some m" "m_flags m = foldl (OR) 0 (map v_flags cs)" "\<not> m_cow m"
  | (err) x st' where "map_lazy_page_from env v page_end cs (us, st) = Some (Err x, (us, st'))" "unseen X (us, st) (us, st')"
proof (rule allocate_spec [OF s(1)])
  fix x st' assume a: "allocate_zeroed_owned_frame env (us, st) = Some (Err (BuildFrame x), (us, st'))" "space_inv X us st'" "cells st' = cells st"
  show ?thesis by (rule err [of "BuildFrame x" st']) (use a unseen_same [OF s a(2)] in \<open>simp_all add: map_lazy_page_from_def\<close>)
next
  fix f st1
  assume a: "allocate_zeroed_owned_frame env (us, st) = Some (Ok f, (us, st1))" "space_inv (in_hand X (frame_index f)) us st1"
    "addressable f" "frame_index f \<notin> busy X us" "\<And>p. p div PAGE_SIZE = frame_index f \<Longrightarrow> cells st1 p = 0"
    "same_contents (busy X us) (cells st) (cells st1)"
  note al = addressable_aligned [OF a(3)]
  obtain r st2 where fill: "fill_all f v page_end cs 0 st1 = (r, st2)" by force
  note fo = fill_all_only [OF cs(3) al e fill]
  have s2: "space_inv (in_hand X (frame_index f)) us st2"
    by (rule space_inv_cells [OF a(2)]) (use fo(1) in \<open>auto simp: only_frame_def busy_in_hand\<close>)
  have c2: "same_contents (busy X us) (cells st) (cells st2)"
    using a(4,6) fo(1) unfolding same_contents_def only_frame_def by metis
  have run: "map_lazy_page_from env v page_end cs (us, st) = (case r of
      Err e \<Rightarrow> ignoring (frame_call (release (frames st2) f 1) (us, st2)) (\<lambda>vm. Some (Err e, vm))
    | Ok merged_flags \<Rightarrow> map_owned_frame env v f merged_flags (us, st2))"
    using a(1) fill by (simp add: map_lazy_page_from_def split: result.split)
  show ?thesis
  proof (cases r)
    case (Err x)
    obtain q s' where q: "release (frames st2) f 1 = Some (q, s')" "space_inv X us (st2\<lparr>frames := s'\<rparr>)"
      by (rule release_in_hand [OF s2]) blast
    then have "map_lazy_page_from env v page_end cs (us, st) = Some (Err x, (us, st2\<lparr>frames := s'\<rparr>))"
      using run Err by (cases q) simp_all
    then show ?thesis by (rule err) (rule unseen_same [OF s q(2)], simp add: c2)
  next
    case (Ok fl)
    then have fl: "fl = foldl (OR) 0 (map v_flags cs)" using fo(2) by auto
    show ?thesis
    proof (rule map_owned_frame_spec [OF s2 v(1,2) a(3), of fl])
      fix x st3 assume b: "map_owned_frame env v f fl (us, st2) = Some (Err (Map x), (us, st3))" "space_inv X us st3"
        "same_contents (busy X us) (cells st2) (cells st3)"
      show ?thesis by (rule err [of "Map x" st3]) (use run Ok b unseen_same [OF s b(2) same_contents_trans [OF c2 b(3)]] in simp_all)
    next
      define m where "m = \<lparr>m_virt = v, m_frame = f, m_flags = fl, m_cow = False, m_owned = True, m_shared = False\<rparr>"
      fix st3 assume "map_owned_frame env v f fl (us, st2) = Some (Ok (), (insert_mapping
          \<lparr>m_virt = v, m_frame = f, m_flags = fl, m_cow = False, m_owned = True, m_shared = False\<rparr> us, st3))"
        "space_inv X (insert_mapping \<lparr>m_virt = v, m_frame = f, m_flags = fl, m_cow = False, m_owned = True, m_shared = False\<rparr> us) st3"
        and b3: "same_contents (busy (in_hand X (frame_index f)) us) (cells st2) (cells st3)"
      then have b: "map_owned_frame env v f fl (us, st2) = Some (Ok (), (insert_mapping m us, st3))" "space_inv X (insert_mapping m us) st3"
        by (simp_all add: m_def)
      have c3: "same_contents (busy X us) (cells st) (cells st3)"
        by (rule same_contents_trans [OF c2 same_contents_mono [OF b3]]) (auto simp: busy_in_hand)
      have z: "cells st3 p = 0" if "untouched_zero v us" "p div PAGE_SIZE = frame_index f" for p
      proof -
        have "list_all (\<lambda>v. imageless (v_kind v)) cs"
          using that(1) cs(1) page_of_aligned [OF v(2)] by (simp add: untouched_zero_def list_all_iff)
        then have "st2 = st1" using fo(3) by simp
        moreover have "cells st3 p = cells st2 p" using b3 that(2) by (simp add: same_contents_def busy_in_hand)
        ultimately show ?thesis using a(5) that(2) by simp
      qed
      have "unseen X (us, st) (insert_mapping m us, st3)"
        unfolding m_def by (rule unseen_fresh [OF s v a(4) al z]) (use b(2) c3 in \<open>simp_all add: m_def\<close>)
      moreover have "mapping v (insert_mapping m us) = Some m"
        using mapping_insert [of us m v] s(1) v user_bound page_of_aligned [OF v(2)] by (simp add: space_inv_def m_def)
      ultimately show ?thesis using ok [of "insert_mapping m us" st3 m] run Ok b(1) fl by (simp add: m_def)
    qed
  qed
qed

lemma map_lazy_page_spec:
  assumes s: "space_inv X us st" "sole_writer X us" and v: "user v" "v mod PAGE_SIZE = 0" "mapping v us = None" and ex: "images_exact us"
  obtains (mapped) vm' m where "map_lazy_page env v w (us, st) = Some (Ok True, vm')" "unseen X (us, st) vm'" "mapping v (fst vm') = Some m"
      "w \<Longrightarrow> contains (m_flags m) WRITE" "\<not> m_cow m"
  | (absent) "map_lazy_page env v w (us, st) = Some (Ok False, (us, st))"
  | (err) x vm' where "map_lazy_page env v w (us, st) = Some (Err x, vm')" "unseen X (us, st) vm'"
proof (cases "checked_add v PAGE_SIZE")
  case None
  then have "map_lazy_page env v w (us, st) = Some (Err AddressOverflow, (us, st))" unfolding map_lazy_page_def None by simp
  then show ?thesis by (rule err) (rule unseen_refl [OF s])
next
  case (Some e)
  then have e: "e = v + PAGE_SIZE" by (simp add: checked_add_def split: if_splits)
  let ?cs = "page_areas v us"
  define cs where "cs = (if length ?cs = 1 \<or> sorted_wrt (\<le>) (map lazy_order ?cs) then ?cs else sort_key lazy_order ?cs)"
  note run = map_lazy_page_areas [OF Some, of env w "(us, st)", unfolded Let_def fst_conv, folded cs_def]
  show ?thesis
  proof (cases "?cs = [] \<or> w \<and> \<not> list_ex (\<lambda>v. contains (v_flags v) WRITE) ?cs")
    case True
    then show ?thesis using absent run by simp
  next
    case False
    have set: "set cs = set ?cs" by (simp add: cs_def)
    have k: "list_all (\<lambda>v. kind_exact (v_kind v)) cs"
      using ex page_areas_subset [of v us] set by (auto simp: images_exact_def list_all_iff)
    have "cs \<noteq> []" using False set by auto
    show ?thesis
    proof (rule lazy_from_spec [OF s v e set \<open>cs \<noteq> []\<close> k])
      fix us' st' m assume a: "map_lazy_page_from env v e cs (us, st) = Some (Ok (), (us', st'))" "unseen X (us, st) (us', st')"
        "mapping v us' = Some m" "m_flags m = foldl (OR) 0 (map v_flags cs)" "\<not> m_cow m"
      have "contains (m_flags m) WRITE" if w
        unfolding a(4) by (rule contains_merged) (use that False set in \<open>auto simp: list_ex_iff\<close>)
      then show ?thesis using mapped [of "(us', st')" m] a run False by simp
    next
      fix x st' assume "map_lazy_page_from env v e cs (us, st) = Some (Err x, (us, st'))" "unseen X (us, st) (us, st')"
      then show ?thesis using err [of x "(us, st')"] run False by simp
    qed
  qed
qed

lemma cow_spec:
  assumes s: "space_inv X us st" "sole_writer X us" and m: "mapping v us = Some m" "user v" "v mod PAGE_SIZE = 0"
  obtains (ok) m' vm' where "resolve_cow_fault env v (us, st) = Some (Ok (), vm')" "unseen X (us, st) vm'" "mapping v (fst vm') = Some m'"
      "contains (m_flags m') WRITE" "\<not> m_cow m'"
  | (oom) e vm' where "resolve_cow_fault env v (us, st) = Some (Err (BuildFrame e), vm')" "unseen X (us, st) vm'"
  | (tables) e vm' where "resolve_cow_fault env v (us, st) = Some (Err (Map e), vm')" "e \<noteq> NotMapped"
proof (rule resolve_cow_spec [OF s(1) m mapping_frame(4) [OF s m(1,2)]])
  fix m' vm' assume a: "resolve_cow_fault env v (us, st) = Some (Ok (), vm')" "cow_resolved X m (us, st) m' vm'"
  have "mapping v (fst vm') = Some m'" using a(2) m(2) mapping_frame(3) [OF s m(1,2)] by (simp add: cow_resolved_def)
  then show ?thesis using ok [OF a(1) cow_unseen [OF s m(1,2) a(2)]] a(2) contains_or(1) by (simp add: cow_resolved_def)
next
  fix e st' assume "resolve_cow_fault env v (us, st) = Some (Err (BuildFrame e), (us, st'))" "space_inv X us st'" "cells st' = cells st"
  then show ?thesis using oom unseen_same [OF s, of st'] by simp
qed (rule tables)

text \<open>What the kernel does before it reads or writes a byte of a process.\<close>

lemma ensure_access_spec:
  assumes s: "space_inv X us st" "sole_writer X us" and a: "user a" and ex: "images_exact us"
  obtains (ok) vm' m where "ensure_access env a w (us, st) = Some (Ok (), vm')" "unseen X (us, st) vm'" "mapping a (fst vm') = Some m"
      "w \<Longrightarrow> contains (m_flags m) WRITE \<and> \<not> m_cow m" "mapping a us \<noteq> None \<Longrightarrow> \<not> w \<Longrightarrow> vm' = (us, st)"
  | (err) e vm' where "ensure_access env a w (us, st) = Some (Err e, vm')" "unseen X (us, st) vm' \<or> w \<and> (\<exists>x. e = Map x \<and> x \<noteq> NotMapped)"
      "w \<or> mapping a us = None"
proof -
  let ?p = "page_of a"
  have p: "align_down a PAGE_SIZE = ?p" "user ?p" "?p mod PAGE_SIZE = 0"
    using align_down_page_of [OF user_bound [OF a]] user_page_of [OF a] by simp_all
  have same: "mapping a us' = mapping ?p us'" if "space_inv X us' st'" for us' st'
    using mapping_page [of us' a] that user_bound [OF a] by (simp add: space_inv_def)
  show ?thesis
  proof (cases "mapping ?p us")
    case (Some m)
    show ?thesis
    proof (cases "w \<and> m_cow m")
      case True
      have run: "ensure_access env a w (us, st) = resolve_cow_fault env ?p (us, st)" using Some True p(1) by (simp add: ensure_access_def Let_def)
      show ?thesis
      proof (rule cow_spec [OF s Some p(2,3)])
        fix m' vm' assume b: "resolve_cow_fault env ?p (us, st) = Some (Ok (), vm')" "unseen X (us, st) vm'" "mapping ?p (fst vm') = Some m'"
          "contains (m_flags m') WRITE" "\<not> m_cow m'"
        then show ?thesis using ok [of vm' m'] run same [OF unseen_inv(1) [OF b(2)]] True by simp
      next
        fix e vm' assume "resolve_cow_fault env ?p (us, st) = Some (Err (BuildFrame e), vm')" "unseen X (us, st) vm'"
        then show ?thesis using err [of "BuildFrame e" vm'] run True by simp
      next
        fix e vm' assume "resolve_cow_fault env ?p (us, st) = Some (Err (Map e), vm')" "e \<noteq> NotMapped"
        then show ?thesis using err [of "Map e" vm'] run True by simp
      qed
    next
      case False
      then show ?thesis
        using ok [of "(us, st)" m] err [of "Map NotMapped" "(us, st)"] Some p(1) same [OF s(1)] unseen_refl [OF s]
        by (cases "w \<and> \<not> contains (m_flags m) WRITE") (auto simp: ensure_access_def Let_def)
    qed
  next
    case None
    have n: "mapping a us = None" using same [OF s(1)] None by simp
    show ?thesis
    proof (rule map_lazy_page_spec [OF s p(2,3) None ex, of w])
      fix vm' m assume b: "map_lazy_page env ?p w (us, st) = Some (Ok True, vm')" "unseen X (us, st) vm'" "mapping ?p (fst vm') = Some m"
        "w \<Longrightarrow> contains (m_flags m) WRITE" "\<not> m_cow m"
      then show ?thesis using ok [of vm' m] None n p(1) same [OF unseen_inv(1) [OF b(2)]] by (simp add: ensure_access_def Let_def)
    next
      assume "map_lazy_page env ?p w (us, st) = Some (Ok False, (us, st))"
      then show ?thesis using err [of "Map NotMapped" "(us, st)"] None n p(1) unseen_refl [OF s] by (simp add: ensure_access_def Let_def)
    next
      fix x vm' assume "map_lazy_page env ?p w (us, st) = Some (Err x, vm')" "unseen X (us, st) vm'"
      then show ?thesis using err [of x vm'] None n p(1) by (simp add: ensure_access_def Let_def)
    qed
  qed
qed

end

end
