(* ===== verification/User_Buffers.thy ===== *)
theory User_Buffers
  imports User_Access
begin

text \<open>
  Buffers of a process: what the kernel writes is what the process, and the kernel, read back,
  and no memory of others changes. Page faults change nothing that the process can see.
\<close>

context user_memory
begin

text \<open>What every step of a process on its memory leaves intact.\<close>

definition contained :: "holders \<Rightarrow> user_space \<times> 's mm \<Rightarrow> user_space \<times> 's mm \<Rightarrow> bool" where
  "contained X vm vm' \<longleftrightarrow> space_inv X (fst vm') (snd vm') \<and> sole_writer X (fst vm') \<and> same_but_mappings (fst vm) (fst vm') \<and>
     same_contents {f. 0 < X f} (cells (snd vm)) (cells (snd vm'))"

lemma unseen_contained: "unseen X vm vm' \<Longrightarrow> contained X vm vm'"
  by (simp add: unseen_def contained_def)

lemma contained_trans: "contained X vm vm1 \<Longrightarrow> contained X vm1 vm2 \<Longrightarrow> contained X vm vm2"
  unfolding contained_def by (meson same_but_mappings_trans same_contents_trans)

lemma contained_exact: "contained X vm vm' \<Longrightarrow> images_exact (fst vm') \<longleftrightarrow> images_exact (fst vm)"
  using same_but_mappings_fields(1) [of "fst vm" "fst vm'"] by (simp add: contained_def images_exact_def)

section \<open>Page faults\<close>

lemma invalidate_page_unseen:
  assumes "space_inv X us st" "sole_writer X us"
  shows "unseen X (us, st) (invalidate_page a (us, st))"
proof -
  have c: "cells (invalidate r v st) = cells st" "frames (invalidate r v st) = frames st" for r v by (simp_all add: invalidate_def)
  have "space_inv X us (invalidate (us_root us) (align_down a PAGE_SIZE) st)" by (rule space_inv_cells [OF assms(1)]) (simp_all add: c)
  then show ?thesis using unseen_same [OF assms] c(1) by (simp add: invalidate_page_def)
qed

lemma page_fault_spec:
  assumes s: "space_inv X us st" "sole_writer X us" and a: "user a" and ex: "images_exact us"
  obtains r vm' where "page_fault env a code (us, st) = Some (r, vm')" "unseen X (us, st) vm' \<or> (\<exists>x. r = Err (Map x) \<and> x \<noteq> NotMapped)"
proof -
  let ?p = "page_of a"
  have p: "align_down a PAGE_SIZE = ?p" "user ?p" "?p mod PAGE_SIZE = 0"
    using align_down_page_of [OF user_bound [OF a]] user_page_of [OF a] by simp_all
  show ?thesis
  proof (cases "mapping ?p us")
    case (Some m)
    show ?thesis
    proof (cases "code AND 2 \<noteq> 0 \<and> m_cow m")
      case True
      then have run: "page_fault env a code (us, st) = and_then (resolve_cow_fault env ?p (us, st)) (\<lambda>_ vm. Some (Ok True, vm))"
        using Some p(1) by (cases "resolve_cow_fault env ?p (us, st)")
          (auto simp: page_fault_def handle_page_fault_def Let_def and_then_def split: result.splits)
      show ?thesis
        by (rule cow_spec [OF s Some p(2,3)]) (rule that; use run in fastforce)+
    next
      case False
      then show ?thesis
        using that [of "Ok True" "invalidate_page a (us, st)"] that [of "Ok False" "(us, st)"] Some p(1) unseen_refl [OF s]
          invalidate_page_unseen [OF s, of a]
        by (cases "fault_access_allowed m code") (auto simp: page_fault_def handle_page_fault_def Let_def)
    qed
  next
    case None
    show ?thesis
    proof (rule map_lazy_page_spec [OF s p(2,3) None ex, of "code AND 2 \<noteq> 0"])
      assume "map_lazy_page env ?p (code AND 2 \<noteq> 0) (us, st) = Some (Ok False, (us, st))"
      then show ?thesis using that None p(1) unseen_refl [OF s] by (simp add: page_fault_def handle_page_fault_def Let_def)
    next
      fix vm' assume "map_lazy_page env ?p (code AND 2 \<noteq> 0) (us, st) = Some (Ok True, vm')" "unseen X (us, st) vm'"
      then show ?thesis using that [of "Ok True" vm'] None p(1) by (simp add: page_fault_def handle_page_fault_def Let_def)
    next
      fix x vm' assume "map_lazy_page env ?p (code AND 2 \<noteq> 0) (us, st) = Some (Err x, vm')" "unseen X (us, st) vm'"
      then show ?thesis using that [of "Err x" vm'] None p(1) by (simp add: page_fault_def handle_page_fault_def Let_def)
    qed
  qed
qed

section \<open>Writing\<close>

lemma write_page:
  assumes s: "space_inv X us st" "sole_writer X us" and m: "mapping a us = Some m" "user a" "contains (m_flags m) WRITE" "\<not> m_cow m"
    and n: "a mod PAGE_SIZE + length bs \<le> PAGE_SIZE"
  defines "st' \<equiv> st\<lparr>cells := write_bytes (start_address (m_frame m) + a mod PAGE_SIZE) bs (cells st)\<rparr>"
  shows "contained X (us, st) (us, st')"
    "user b \<Longrightarrow> user_mem us (cells st') b = (if a \<le> b \<and> b < a + length bs then Some (bs ! (b - a)) else user_mem us (cells st) b)"
proof -
  note mf = mapping_frame [OF s m(1,2)]
  let ?f = "frame_index (m_frame m)"
  have only: "only_frame (m_frame m) st st'"
    using write_frame_only [OF mf(5) n, of st] by (simp add: st'_def write_frame_partial_def)
  have s': "space_inv X us st'" by (rule space_inv_cells [OF s(1)]) (use only mf(6) in \<open>auto simp: only_frame_def\<close>)
  have one: "refs us ?f + X ?f \<le> 1" using s(2) mf(2) m(3,4) unfolding sole_writer_def by blast
  moreover have pos: "0 < refs us ?f" by (rule refs_pos [OF mf(2,7)])
  ultimately have x: "X ?f = 0" by simp
  have same: "same_contents (UNIV - {?f}) (cells st) (cells st')" using only by (auto simp: same_contents_def only_frame_def)
  have "same_contents {f. 0 < X f} (cells st) (cells st')" by (rule same_contents_mono [OF same]) (use x in auto)
  then show "contained X (us, st) (us, st')" using s' s(2) by (simp add: contained_def)
  assume b: "user b"
  show "user_mem us (cells st') b = (if a \<le> b \<and> b < a + length bs then Some (bs ! (b - a)) else user_mem us (cells st) b)"
  proof (cases "page_of b = page_of a")
    case True
    have so: "mappings_sorted us" using s(1) by (simp add: space_inv_def)
    have mb: "mapping b us = Some m"
      using mapping_Some [OF so user_bound [OF b], of m] mf(2,3) True by simp
    have "b div PAGE_SIZE = a div PAGE_SIZE" using True by (simp only: page_of_eq)
    then have "b = a div PAGE_SIZE * PAGE_SIZE + b mod PAGE_SIZE" "a = a div PAGE_SIZE * PAGE_SIZE + a mod PAGE_SIZE" by (metis div_mult_mod_eq)+
    then have off: "a \<le> b \<longleftrightarrow> a mod PAGE_SIZE \<le> b mod PAGE_SIZE" "b < a + length bs \<longleftrightarrow> b mod PAGE_SIZE < a mod PAGE_SIZE + length bs"
        "b - a = b mod PAGE_SIZE - a mod PAGE_SIZE" by linarith+
    show ?thesis using mb by (simp add: user_mem_def st'_def get_write_bytes off)
  next
    case False
    have "\<not> (a \<le> b \<and> b < a + length bs)"
    proof
      assume ab: "a \<le> b \<and> b < a + length bs"
      have "a = a div PAGE_SIZE * PAGE_SIZE + a mod PAGE_SIZE" by simp
      then have "b < a div PAGE_SIZE * PAGE_SIZE + PAGE_SIZE" "a div PAGE_SIZE * PAGE_SIZE \<le> b" using ab n by linarith+
      then have "b div PAGE_SIZE = a div PAGE_SIZE" by (intro div_nat_eqI) (simp_all add: mult.commute)
      then show False using False by (simp only: page_of_eq)
    qed
    moreover have "user_mem us (cells st') b = user_mem us (cells st) b"
    proof (rule user_mem_same [OF s b refl refl same])
      fix k assume k: "mapping b us = Some k"
      note kf = mapping_frame [OF s k b]
      have "frame_index (m_frame k) \<noteq> ?f"
      proof
        assume "frame_index (m_frame k) = ?f"
        moreover have "m \<noteq> k" using kf(3) mf(3) False by auto
        ultimately have "2 \<le> refs us ?f" using refs_two [OF mf(2) kf(2) _ mf(7)] kf(7) by simp
        then show False using one by simp
      qed
      then show "frame_index (m_frame k) \<in> UNIV - {?f}" by simp
    qed
    ultimately show ?thesis by auto
  qed
qed

text \<open>A buffer written, the rest of the memory as it was.\<close>

definition wrote :: "holders \<Rightarrow> usize \<Rightarrow> byte list \<Rightarrow> user_space \<times> 's mm \<Rightarrow> user_space \<times> 's mm \<Rightarrow> bool" where
  "wrote X a bs vm vm' \<longleftrightarrow> contained X vm vm' \<and>
     (\<forall>b. user b \<longrightarrow> a \<le> b \<and> b < a + length bs \<longrightarrow> user_mem (fst vm') (cells (snd vm')) b = Some (bs ! (b - a)) \<and> mapping b (fst vm') \<noteq> None) \<and>
     (\<forall>b v. user b \<longrightarrow> \<not> (a \<le> b \<and> b < a + length bs) \<longrightarrow> user_mem (fst vm) (cells (snd vm)) b = Some v \<longrightarrow>
       user_mem (fst vm') (cells (snd vm')) b = Some v) \<and>
     (\<forall>b. user b \<longrightarrow> mapping b (fst vm) \<noteq> None \<longrightarrow> mapping b (fst vm') \<noteq> None)"

lemma unseen_wrote: "unseen X vm vm' \<Longrightarrow> wrote X a [] vm vm'"
  using unseen_contained [of X vm vm'] by (auto simp: wrote_def unseen_def)

lemma wrote_trans:
  assumes "wrote X a bs vm vm1" "wrote X (a + length bs) cs vm1 vm2"
  shows "wrote X a (bs @ cs) vm vm2"
  unfolding wrote_def
proof (intro conjI allI impI)
  show "contained X vm vm2" using assms contained_trans [of X vm vm1 vm2] by (simp add: wrote_def)
next
  fix b assume b: "user b" "a \<le> b \<and> b < a + length (bs @ cs)"
  show "user_mem (fst vm2) (cells (snd vm2)) b = Some ((bs @ cs) ! (b - a))"
  proof (cases "b < a + length bs")
    case True
    then show ?thesis using assms b by (auto simp: wrote_def nth_append)
  next
    case False
    then have "b - (a + length bs) = b - a - length bs" "\<not> b - a < length bs" using b(2) by auto
    then show ?thesis using assms(2) b False by (auto simp: wrote_def nth_append)
  qed
  show "mapping b (fst vm2) \<noteq> None"
    using assms b by (cases "b < a + length bs") (auto simp: wrote_def)
next
  fix b v assume "user b" "\<not> (a \<le> b \<and> b < a + length (bs @ cs))" "user_mem (fst vm) (cells (snd vm)) b = Some v"
  then show "user_mem (fst vm2) (cells (snd vm2)) b = Some v" using assms by (auto simp: wrote_def)
next
  fix b assume "user b" "mapping b (fst vm) \<noteq> None"
  then show "mapping b (fst vm2) \<noteq> None" using assms by (auto simp: wrote_def)
qed

lemma write_page_wrote:
  assumes s: "space_inv X us st" "sole_writer X us" and m: "mapping a us = Some m" "user a" "contains (m_flags m) WRITE" "\<not> m_cow m"
    and n: "a mod PAGE_SIZE + length bs \<le> PAGE_SIZE"
  shows "wrote X a bs (us, st) (us, st\<lparr>cells := write_bytes (start_address (m_frame m) + a mod PAGE_SIZE) bs (cells st)\<rparr>)"
proof -
  note w = write_page [OF s m n]
  have "mapping b us \<noteq> None" if b: "user b" "a \<le> b" "b < a + length bs" for b
  proof -
    have "a = a div PAGE_SIZE * PAGE_SIZE + a mod PAGE_SIZE" by simp
    then have "b < a div PAGE_SIZE * PAGE_SIZE + PAGE_SIZE" "a div PAGE_SIZE * PAGE_SIZE \<le> b" using b n by linarith+
    then have "b div PAGE_SIZE = a div PAGE_SIZE" by (intro div_nat_eqI) (simp_all add: mult.commute)
    then have "page_of b = page_of a" by (simp only: page_of_eq)
    then show ?thesis using mapping_page [of us] s(1) user_bound b(1) m(1,2) by (metis option.distinct(1) space_inv_def)
  qed
  then show ?thesis using w by (simp add: wrote_def)
qed

lemma translate_mapped:
  assumes "space_inv X us st" "user a" "mapping a us = Some m"
  shows "user_translate a us = Some (start_address (m_frame m), a mod PAGE_SIZE)"
proof -
  have "mapping (page_of a) us = Some m" using mapping_page [of us a] assms user_bound [OF assms(2)] by (simp add: space_inv_def)
  then show ?thesis using align_down_page_of [OF user_bound [OF assms(2)]] by (simp add: user_translate_def Let_def)
qed

lemma write_loop_spec:
  assumes "space_inv X (fst vm) (snd vm)" "sole_writer X (fst vm)" "images_exact (fst vm)" "\<And>b. cur \<le> b \<Longrightarrow> b < cur + length left \<Longrightarrow> user b"
    "cur + length left < usize_range"
  shows "\<exists>r vm'. user_write_loop env cur left copied vm = Some (r, vm') \<and> (case r of
      Ok n \<Rightarrow> n = copied + length left \<and> wrote X cur left vm vm'
    | Err e \<Rightarrow> (\<exists>x. e = Map x \<and> x \<noteq> NotMapped) \<or> contained X vm vm')"
  using assms
proof (induction "length left" arbitrary: cur left copied vm rule: less_induct)
  case less
  obtain us st where vm: "vm = (us, st)" by force
  note s = less.prems(1,2) [unfolded vm fst_conv snd_conv] and ex = less.prems(3) [unfolded vm fst_conv]
  show ?case
  proof (cases "left = []")
    case True
    then show ?thesis using unseen_wrote [OF unseen_refl [OF s]] vm by (subst user_write_loop.simps) simp
  next
    case False
    have u: "user cur" using less.prems(4) [of cur] False by simp
    show ?thesis
    proof (rule ensure_access_spec [OF s u ex, of True])
      fix e vm' assume "ensure_access env cur True (us, st) = Some (Err e, vm')" "unseen X (us, st) vm' \<or> True \<and> (\<exists>x. e = Map x \<and> x \<noteq> NotMapped)"
      then show ?thesis using unseen_contained [of X "(us, st)" vm'] vm False by (subst user_write_loop.simps) auto
    next
      fix vm1 m assume a: "ensure_access env cur True (us, st) = Some (Ok (), vm1)" "unseen X (us, st) vm1" "mapping cur (fst vm1) = Some m"
        "True \<Longrightarrow> contains (m_flags m) WRITE \<and> \<not> m_cow m"
      obtain us1 st1 where vm1: "vm1 = (us1, st1)" by force
      note s1 = unseen_inv [OF a(2), unfolded vm1 fst_conv snd_conv] and m = a(3) [unfolded vm1 fst_conv]
      let ?n = "min (length left) (PAGE_SIZE - cur mod PAGE_SIZE)" and ?p = "start_address (m_frame m) + cur mod PAGE_SIZE"
      let ?vm2 = "(us1, st1\<lparr>cells := write_bytes ?p (take ?n left) (cells st1)\<rparr>)"
      have off: "cur mod PAGE_SIZE < PAGE_SIZE" using page_size_pos by simp
      have n: "0 < ?n" "?n \<le> length left" "length (take ?n left) = ?n" "cur mod PAGE_SIZE + length (take ?n left) \<le> PAGE_SIZE"
        using False off by auto
      have add: "checked_add cur ?n = Some (cur + ?n)" using less.prems(5) n(2) by (simp add: checked_add_def)
      have run: "user_write_loop env cur left copied vm = user_write_loop env (cur + ?n) (drop ?n left) (copied + ?n) ?vm2"
        using a(1) False translate_mapped [OF s1(1) u m] vm vm1 by (subst user_write_loop.simps) (simp add: Let_def add)
      have w: "wrote X cur (take ?n left) vm ?vm2"
        using wrote_trans [OF unseen_wrote [OF a(2), of cur], of "take ?n left" ?vm2] write_page_wrote [OF s1 m u _ _ n(4)] a(4) vm vm1 by simp
      then have c: "contained X vm ?vm2" by (simp add: wrote_def)
      have i2: "space_inv X (fst ?vm2) (snd ?vm2)" "sole_writer X (fst ?vm2)" using c by (simp_all only: contained_def)
      have "\<exists>r vm'. user_write_loop env (cur + ?n) (drop ?n left) (copied + ?n) ?vm2 = Some (r, vm') \<and> (case r of
          Ok k \<Rightarrow> k = copied + ?n + length (drop ?n left) \<and> wrote X (cur + ?n) (drop ?n left) ?vm2 vm'
        | Err e \<Rightarrow> (\<exists>x. e = Map x \<and> x \<noteq> NotMapped) \<or> contained X ?vm2 vm')"
        by (rule less.hyps [OF _ i2]) (use n contained_exact [OF c] less.prems(3-5) in auto)
      then obtain r vm' where r: "user_write_loop env (cur + ?n) (drop ?n left) (copied + ?n) ?vm2 = Some (r, vm')"
          "case r of Ok k \<Rightarrow> k = copied + ?n + length (drop ?n left) \<and> wrote X (cur + ?n) (drop ?n left) ?vm2 vm'
            | Err e \<Rightarrow> (\<exists>x. e = Map x \<and> x \<noteq> NotMapped) \<or> contained X ?vm2 vm'" by blast
      show ?thesis
      proof (cases r)
        case (Ok k)
        have "wrote X cur (take ?n left @ drop ?n left) vm vm'" by (rule wrote_trans [OF w]) (use r(2) Ok n(3) in simp)
        then show ?thesis using run r Ok n(2) by simp
      next
        case (Err e)
        then show ?thesis using run r contained_trans [OF c, of vm'] by auto
      qed
    qed
  qed
qed

section \<open>Reading\<close>

text \<open>The part of a page that a read takes.\<close>

lemma read_page:
  assumes "space_inv X us st" "user a" "mapping a us = Some m" "a mod PAGE_SIZE + n \<le> PAGE_SIZE" "i < n" "user (a + i)"
  shows "user_mem us (cells st) (a + i) = Some (read_bytes (start_address (m_frame m) + a mod PAGE_SIZE) n (cells st) ! i)"
proof -
  have i: "a mod PAGE_SIZE + i < PAGE_SIZE" using assms(4,5) by linarith
  have "a + i = a div PAGE_SIZE * PAGE_SIZE + (a mod PAGE_SIZE + i)" by simp
  then have d: "(a + i) div PAGE_SIZE = a div PAGE_SIZE" "(a + i) mod PAGE_SIZE = a mod PAGE_SIZE + i"
    using i by (metis add.commute add_0 div_less div_mult_self3 less_nat_zero_code, metis mod_less mod_mult_self3)
  then have "page_of (a + i) = page_of a" by (simp add: page_of_def)
  then have "mapping (a + i) us = Some m"
    using mapping_page [of us a] mapping_page [of us "a + i"] assms(1,3) user_bound assms(2,6) by (simp add: space_inv_def)
  then show ?thesis using d(2) read_bytes_nth(2) [OF assms(5)] by (simp add: user_mem_def add.assoc)
qed

lemma read_loop_spec:
  assumes "space_inv X (fst vm) (snd vm)" "sole_writer X (fst vm)" "images_exact (fst vm)" "\<And>b. cur \<le> b \<Longrightarrow> b < cur + left \<Longrightarrow> user b"
    "cur + left < usize_range"
  shows "\<exists>r vm'. user_read_loop env cur left copied vm = Some (r, vm') \<and> unseen X vm vm' \<and>
    (\<forall>bs. r = Ok bs \<longrightarrow> (\<exists>cs. bs = copied @ cs \<and> length cs = left \<and>
      (\<forall>i < left. user_mem (fst vm') (cells (snd vm')) (cur + i) = Some (cs ! i)))) \<and>
    ((\<forall>b. cur \<le> b \<and> b < cur + left \<longrightarrow> mapping b (fst vm) \<noteq> None) \<longrightarrow> (\<exists>bs. r = Ok bs) \<and> vm' = vm)"
  using assms
proof (induction left arbitrary: cur copied vm rule: less_induct)
  case (less left)
  obtain us st where vm: "vm = (us, st)" by force
  note s = less.prems(1,2) [unfolded vm fst_conv snd_conv] and ex = less.prems(3) [unfolded vm fst_conv]
  show ?case
  proof (cases "left = 0")
    case True
    then show ?thesis using unseen_refl [OF s] vm by (subst user_read_loop.simps) simp
  next
    case False
    have u: "user cur" using less.prems(4) [of cur] False by simp
    show ?thesis
    proof (rule ensure_access_spec [OF s u ex, of False])
      fix e vm' assume a: "ensure_access env cur False (us, st) = Some (Err e, vm')" "unseen X (us, st) vm' \<or> False \<and> (\<exists>x. e = Map x \<and> x \<noteq> NotMapped)"
        "False \<or> mapping cur us = None"
      then show ?thesis using vm False by (subst user_read_loop.simps) auto
    next
      fix vm1 m assume a: "ensure_access env cur False (us, st) = Some (Ok (), vm1)" "unseen X (us, st) vm1" "mapping cur (fst vm1) = Some m"
        "mapping cur us \<noteq> None \<Longrightarrow> \<not> False \<Longrightarrow> vm1 = (us, st)"
      obtain us1 st1 where vm1: "vm1 = (us1, st1)" by force
      note s1 = unseen_inv [OF a(2), unfolded vm1 fst_conv snd_conv] and m = a(3) [unfolded vm1 fst_conv]
      let ?n = "min left (PAGE_SIZE - cur mod PAGE_SIZE)" and ?p = "start_address (m_frame m) + cur mod PAGE_SIZE"
      let ?cs = "read_bytes ?p ?n (cells st1)"
      have off: "cur mod PAGE_SIZE < PAGE_SIZE" using page_size_pos by simp
      have n: "0 < ?n" "?n \<le> left" "cur mod PAGE_SIZE + ?n \<le> PAGE_SIZE" using False off by auto
      have add: "checked_add cur ?n = Some (cur + ?n)" using less.prems(5) n(2) by (simp add: checked_add_def)
      have run: "user_read_loop env cur left copied vm = user_read_loop env (cur + ?n) (left - ?n) (copied @ ?cs) vm1"
        using a(1) False translate_mapped [OF s1(1) u m] vm vm1 by (subst user_read_loop.simps) (simp add: Let_def add)
      have c: "contained X vm vm1" using unseen_contained [OF a(2)] vm by simp
      have "\<exists>r vm'. user_read_loop env (cur + ?n) (left - ?n) (copied @ ?cs) vm1 = Some (r, vm') \<and> unseen X vm1 vm' \<and>
          (\<forall>bs. r = Ok bs \<longrightarrow> (\<exists>cs. bs = (copied @ ?cs) @ cs \<and> length cs = left - ?n \<and>
            (\<forall>i < left - ?n. user_mem (fst vm') (cells (snd vm')) (cur + ?n + i) = Some (cs ! i)))) \<and>
          ((\<forall>b. cur + ?n \<le> b \<and> b < cur + ?n + (left - ?n) \<longrightarrow> mapping b (fst vm1) \<noteq> None) \<longrightarrow> (\<exists>bs. r = Ok bs) \<and> vm' = vm1)"
        by (rule less.IH [OF _ unseen_inv [OF a(2)]]) (use n contained_exact [OF c] less.prems(3-5) in auto)
      then obtain r vm' where r: "user_read_loop env (cur + ?n) (left - ?n) (copied @ ?cs) vm1 = Some (r, vm')" "unseen X vm1 vm'"
          "\<forall>bs. r = Ok bs \<longrightarrow> (\<exists>cs. bs = (copied @ ?cs) @ cs \<and> length cs = left - ?n \<and>
            (\<forall>i < left - ?n. user_mem (fst vm') (cells (snd vm')) (cur + ?n + i) = Some (cs ! i)))"
          "(\<forall>b. cur + ?n \<le> b \<and> b < cur + ?n + (left - ?n) \<longrightarrow> mapping b (fst vm1) \<noteq> None) \<longrightarrow> (\<exists>bs. r = Ok bs) \<and> vm' = vm1"
        by blast
      have "unseen X vm vm'" using unseen_trans [OF a(2) r(2)] vm by simp
      moreover have "\<exists>cs. bs = copied @ cs \<and> length cs = left \<and> (\<forall>i < left. user_mem (fst vm') (cells (snd vm')) (cur + i) = Some (cs ! i))"
        if rb: "r = Ok bs" for bs
      proof -
        obtain cs where cs: "bs = (copied @ ?cs) @ cs" "length cs = left - ?n"
            "\<forall>i < left - ?n. user_mem (fst vm') (cells (snd vm')) (cur + ?n + i) = Some (cs ! i)" using r(3) rb by blast
        have "user_mem (fst vm') (cells (snd vm')) (cur + i) = Some ((?cs @ cs) ! i)" if i: "i < left" for i
        proof (cases "i < ?n")
          case True
          have ui: "user (cur + i)" using less.prems(4) i by simp
          have "user_mem us1 (cells st1) (cur + i) = Some (?cs ! i)" by (rule read_page [OF s1(1) u m n(3) True ui])
          then show ?thesis using r(2) ui True vm1 by (simp add: unseen_def nth_append read_bytes_nth)
        next
          case F: False
          then have "cur + ?n + (i - ?n) = cur + i" "i - ?n < left - ?n" using i by linarith+
          then show ?thesis using cs(3) F by (metis nth_append read_bytes_nth(1))
        qed
        then show ?thesis using cs(1,2) n(2) by (intro exI [of _ "?cs @ cs"]) (simp add: read_bytes_nth)
      qed
      moreover have "(\<exists>bs. r = Ok bs) \<and> vm' = vm" if "\<forall>b. cur \<le> b \<and> b < cur + left \<longrightarrow> mapping b (fst vm) \<noteq> None"
      proof -
        have "vm1 = vm" using a(4) that False vm by simp
        then show ?thesis using r(4) that n(2) by simp
      qed
      ultimately show ?thesis using run r(1) by simp
    qed
  qed
qed

end

end
