(* ===== verification/User_Steps.thy ===== *)
theory User_Steps
  imports User_Buffers
begin

text \<open>
  The life of an address space: the system calls and the page faults of a process, and the
  accesses of the kernel to its memory, as steps. Not among them are a page fault or a write that
  fails for want of a page table, \<open>mprotect\<close> that asks for write access, which makes shared frames
  writable, the forms of \<open>mmap\<close> other than the anonymous one, fork and drop.
\<close>

definition tables_ok :: "(build_error, 'a) result \<Rightarrow> bool" where
  "tables_ok r \<longleftrightarrow> (\<forall>x. r = Err (Map x) \<longrightarrow> x = NotMapped)"

inductive space_step :: "'s vm_env \<Rightarrow> (usize \<Rightarrow> bool) \<Rightarrow> 's vm \<Rightarrow> 's vm \<Rightarrow> bool" for E user where
  step_fault: "user a \<Longrightarrow> page_fault E a code vm = Some (r, vm') \<Longrightarrow> tables_ok r \<Longrightarrow> space_step E user vm vm'"
| step_write: "\<forall>b. a \<le> b \<and> b < a + length data \<longrightarrow> user b \<Longrightarrow> a + length data < usize_range \<Longrightarrow>
    write_user E a data vm = Some (r, vm') \<Longrightarrow> tables_ok r \<Longrightarrow> space_step E user vm vm'"
| step_read: "\<forall>b. a \<le> b \<and> b < a + len \<longrightarrow> user b \<Longrightarrow> a + len < usize_range \<Longrightarrow>
    read_user E a len vm = Some (r, vm') \<Longrightarrow> space_step E user vm vm'"
| step_munmap: "munmap E a len vm = Some (r, vm') \<Longrightarrow> space_step E user vm vm'"
| step_brk: "brk E new_brk vm = Some (r, vm') \<Longrightarrow> space_step E user vm vm'"
| step_mmap: "mmap_anonymous E a len flags page_flags vm = Some (r, vm') \<Longrightarrow> space_step E user vm vm'"
| step_mprotect: "\<not> contains flags WRITE \<Longrightarrow> mprotect E a len flags vm = Some (r, vm') \<Longrightarrow> space_step E user vm vm'"

section \<open>The areas keep their images\<close>

abbreviation exact_areas :: "user_vma list \<Rightarrow> bool" where
  "exact_areas \<equiv> list_all (\<lambda>v. kind_exact (v_kind v))"

lemma adjusted_exact [simp]: "kind_exact (adjusted k d) = kind_exact k"
  by (cases k) simp_all

lemma slice_exact [simp]: "kind_exact (v_kind (slice_vma v s e)) = kind_exact (v_kind v)"
  by (simp add: slice_vma_def)

lemma coalesce_exact: "exact_areas vs \<Longrightarrow> exact_areas (coalesce_vmas vs)"
  unfolding coalesce_vmas_def by (rule coalesce_all) (simp_all add: extend_vma_def)

lemma remove_exact: "exact_areas vs \<Longrightarrow> exact_areas (remove_vma_range s e vs)"
  unfolding remove_vma_range_def by (rule coalesce_exact) (auto simp: list_all_concat list_all_iff remaining_pieces_def)

lemma flags_exact: "exact_areas vs \<Longrightarrow> exact_areas (update_vma_flags s e flags vs)"
  unfolding update_vma_flags_def by (rule coalesce_exact) (auto simp: list_all_concat list_all_iff flags_pieces_def)

lemma heap_end_exact: "exact_areas vs \<Longrightarrow> exact_areas (update_heap_vma_end e vs)"
  by (induction vs) auto

lemma record_exact:
  assumes "exact_areas vs" "kind_exact kind"
  shows "exact_areas (record_vma s e flags kind lazy vs)"
  unfolding record_vma_def Let_def merge_vma_neighbors_around_def
proof (rule merge_around_all)
  let ?i = "unwrap_either (binary_search_by_key s v_start vs)" and ?v = "\<lparr>v_start = s, v_end = e, v_flags = flags, v_kind = kind, v_lazy = lazy\<rparr>"
  show "exact_areas (insert_at ?i ?v vs)" using assms by (simp add: list_all_iff)
  show "?i < length (insert_at ?i ?v vs)" using binary_search_index [of s v_start vs] by (simp add: insert_at_def)
qed (simp add: extend_vma_def)

lemma align_up_less: "align_up a PAGE_SIZE < usize_range"
proof -
  have "int (x AND y) \<le> int x" for x y :: nat unfolding of_nat_and_eq by (rule AND_upper1) simp
  then have "align_up a PAGE_SIZE \<le> wsub (wadd a PAGE_SIZE) 1" by (simp add: align_up_def)
  moreover have "wsub (wadd a PAGE_SIZE) 1 < usize_range" by (simp add: wsub_def usize_range_def)
  ultimately show ?thesis by linarith
qed

section \<open>Changing the protection\<close>

lemma mapping_map:
  assumes "mappings_sorted us" "\<And>m. m_virt (g m) = m_virt m" "w < usize_range"
  shows "mappings_sorted (us\<lparr>us_mappings := map g (us_mappings us)\<rparr>)"
    "mapping w (us\<lparr>us_mappings := map g (us_mappings us)\<rparr>) = map_option g (mapping w us)"
proof -
  let ?us = "us\<lparr>us_mappings := map g (us_mappings us)\<rparr>"
  show so: "mappings_sorted ?us" using assms(1,2) by (simp add: mappings_sorted_def sorted_wrt_map)
  show "mapping w ?us = map_option g (mapping w us)"
  proof (cases "mapping w us")
    case None
    then show ?thesis using mapping_None [OF assms(1,3)] mapping_None [OF so assms(3)] assms(2) by auto
  next
    case (Some m)
    then have "m \<in> set (us_mappings us)" "m_virt m = page_of w" using mapping_Some [OF assms(1,3), of m] by simp_all
    then show ?thesis using mapping_Some [OF so assms(3), of "g m"] Some assms(2) by simp
  qed
qed

text \<open>The mappings of a range of addresses are consecutive.\<close>

lemma mapping_window:
  assumes "mappings_sorted us" "s \<le> e"
  defines "i \<equiv> partition_point (\<lambda>m. m_virt m < s) (us_mappings us)" and "j \<equiv> partition_point (\<lambda>m. m_virt m < e) (us_mappings us)"
  shows "j \<le> length (us_mappings us)"
    "k < length (us_mappings us) \<Longrightarrow> k \<in> set [i..<j] \<longleftrightarrow> s \<le> m_virt (us_mappings us ! k) \<and> m_virt (us_mappings us ! k) < e"
    "i \<noteq> j \<longleftrightarrow> (\<exists>m \<in> set (us_mappings us). s \<le> m_virt m \<and> m_virt m < e)"
proof -
  let ?ms = "us_mappings us"
  have mono: "m_virt (?ms ! k) < m_virt (?ms ! l)" if "k < l" "l < length ?ms" for k l
    using assms(1) that by (simp add: mappings_sorted_def sorted_wrt_iff_nth_less)
  have point: "partition_point (\<lambda>m. m_virt m < x) ?ms \<le> length ?ms" "k < partition_point (\<lambda>m. m_virt m < x) ?ms \<Longrightarrow> m_virt (?ms ! k) < x"
    "partition_point (\<lambda>m. m_virt m < x) ?ms \<le> k \<Longrightarrow> k < length ?ms \<Longrightarrow> x \<le> m_virt (?ms ! k)" for x k
    using partition_point_spec [of ?ms "\<lambda>m. m_virt m < x"] mono by (meson less_trans not_less)+
  note pi = point [where x = s, folded i_def] and pj = point [where x = e, folded j_def]
  show "j \<le> length ?ms" by (fact pj(1))
  have range: "k \<in> set [i..<j] \<longleftrightarrow> s \<le> m_virt (?ms ! k) \<and> m_virt (?ms ! k) < e" if "k < length ?ms" for k
    using pi(2,3) [of k] pj(2,3) [of k] that by (auto simp: not_less [symmetric])
  then show "k < length ?ms \<Longrightarrow> k \<in> set [i..<j] \<longleftrightarrow> s \<le> m_virt (?ms ! k) \<and> m_virt (?ms ! k) < e" .
  have le: "i \<le> j"
  proof (rule ccontr)
    assume "\<not> i \<le> j"
    then have "j < i" "j < length ?ms" using pi(1) by auto
    then show False using pi(2) [of j] pj(3) [of j] assms(2) by auto
  qed
  show "i \<noteq> j \<longleftrightarrow> (\<exists>m \<in> set ?ms. s \<le> m_virt m \<and> m_virt m < e)"
  proof
    assume "i \<noteq> j"
    then have "i < j" "i < length ?ms" using le pj(1) by auto
    then show "\<exists>m \<in> set ?ms. s \<le> m_virt m \<and> m_virt m < e" using range [of i] by (auto intro: nth_mem)
  next
    assume "\<exists>m \<in> set ?ms. s \<le> m_virt m \<and> m_virt m < e"
    then obtain k where "k < length ?ms" "s \<le> m_virt (?ms ! k)" "m_virt (?ms ! k) < e" by (metis in_set_conv_nth)
    then show "i \<noteq> j" using range [of k] by auto
  qed
qed

definition protected :: "usize \<Rightarrow> usize \<Rightarrow> map_flags \<Rightarrow> user_mapping \<Rightarrow> user_mapping" where
  "protected s e flags m = (if s \<le> m_virt m \<and> m_virt m < e then m\<lparr>m_flags := flags, m_cow := False\<rparr> else m)"

lemma protected_simps [simp]: "m_virt (protected s e flags m) = m_virt m" "m_frame (protected s e flags m) = m_frame m"
  "m_owned (protected s e flags m) = m_owned m" "holds f (protected s e flags m) = holds f m"
  by (simp_all add: protected_def holds_def)

context user_memory
begin

lemma protect_each:
  assumes "space_inv X us st" "\<And>i. i \<in> set xs \<Longrightarrow> i < length (us_mappings us)"
  shows "\<exists>us' st'. for_each (protect_mapping env flags) xs (us, st) = Some (Ok (), (us', st')) \<and> space_inv X us' st' \<and>
    same_but_mappings us us' \<and> frames st' = frames st \<and> same_contents (busy X us) (cells st) (cells st') \<and> busy X us' = busy X us \<and>
    length (us_mappings us') = length (us_mappings us) \<and>
    (\<forall>k < length (us_mappings us). us_mappings us' ! k =
      (if k \<in> set xs then (us_mappings us ! k)\<lparr>m_flags := flags, m_cow := False\<rparr> else us_mappings us ! k))"
  using assms
proof (induction xs arbitrary: us st)
  case (Cons i xs)
  have i: "i < length (us_mappings us)" using Cons.prems(2) by simp
  let ?m = "(us_mappings us ! i)\<lparr>m_flags := flags, m_cow := False\<rparr>"
  let ?us = "us\<lparr>us_mappings := (us_mappings us)[i := ?m]\<rparr>"
  obtain st1 where p: "protect A (us_root us) (m_virt (us_mappings us ! i)) flags st = Some (Ok (), st1)" "frames st1 = frames st"
      "spared (busy X us) st st1" "space_inv X ?us st1" by (rule protect_core [OF Cons.prems(1) i])
  have one: "protect_mapping env flags i (us, st) = Some (Ok (), (?us, st1))" using p(1) by (simp add: protect_mapping_def Let_def)
  have "refs ?us f = refs us f" for f using refs_update [OF i, of ?m f] by (simp add: holds_def)
  then have busy: "busy X ?us = busy X us" by (simp add: busy_def)
  have "\<And>j. j \<in> set xs \<Longrightarrow> j < length (us_mappings ?us)" using Cons.prems(2) by simp
  then obtain us' st' where r: "for_each (protect_mapping env flags) xs (?us, st1) = Some (Ok (), (us', st'))" "space_inv X us' st'"
      "same_but_mappings ?us us'" "frames st' = frames st1" "same_contents (busy X ?us) (cells st1) (cells st')" "busy X us' = busy X ?us"
      "length (us_mappings us') = length (us_mappings ?us)"
      "\<forall>k < length (us_mappings ?us). us_mappings us' ! k =
        (if k \<in> set xs then (us_mappings ?us ! k)\<lparr>m_flags := flags, m_cow := False\<rparr> else us_mappings ?us ! k)"
    using Cons.IH [OF p(4)] by blast
  have "us_mappings us' ! k = (if k \<in> set (i # xs) then (us_mappings us ! k)\<lparr>m_flags := flags, m_cow := False\<rparr> else us_mappings us ! k)"
    if "k < length (us_mappings us)" for k using r(8) that i by (cases "k = i") auto
  moreover have "same_contents (busy X us) (cells st) (cells st')"
    using same_contents_trans [OF spared_contents [OF p(3)]] r(5) busy by simp
  moreover have "same_but_mappings us us'" by (rule same_but_mappings_trans [OF _ r(3)]) simp
  moreover have "for_each (protect_mapping env flags) (i # xs) (us, st) = Some (Ok (), (us', st'))" using one r(1) by simp
  ultimately show ?case using p(2) r(2,4,6,7) busy by (intro exI [of _ us'] exI [of _ st']) simp
qed auto

lemma mprotect_spec:
  assumes s: "space_inv X us st" and a: "addr mod PAGE_SIZE = 0" "0 < len" and e: "checked_add addr (align_up len PAGE_SIZE) = Some e"
  obtains r us' st' where "mprotect env addr len flags (us, st) = Some (r, (us', st'))" "space_inv X us' st'"
    "us_mappings us' = map (protected addr e flags) (us_mappings us)" "frames st' = frames st"
    "same_contents (busy X us) (cells st) (cells st')" "us_vmas us' = us_vmas us \<or> us_vmas us' = update_vma_flags addr e flags (us_vmas us)"
    "r = (if (\<exists>m \<in> set (us_mappings us). addr \<le> m_virt m \<and> m_virt m < e) \<or> vma_range_overlaps addr e (us_vmas us)
      then Ok () else Err (Map NotMapped))"
    "r = Ok () \<Longrightarrow> us_vmas us' = update_vma_flags addr e flags (us_vmas us)"
proof -
  let ?ms = "us_mappings us"
  define i j where "i = partition_point (\<lambda>m. m_virt m < addr) ?ms" and "j = partition_point (\<lambda>m. m_virt m < e) ?ms"
  have le: "addr \<le> e" using e by simp
  have so: "mappings_sorted us" using s by (simp add: space_inv_def)
  note w = mapping_window [OF so le, folded i_def j_def]
  obtain us' st' where r: "for_each (protect_mapping env flags) [i..<j] (us, st) = Some (Ok (), (us', st'))" "space_inv X us' st'"
      "same_but_mappings us us'" "frames st' = frames st" "same_contents (busy X us) (cells st) (cells st')"
      "length (us_mappings us') = length ?ms"
      "\<forall>k < length ?ms. us_mappings us' ! k = (if k \<in> set [i..<j] then (?ms ! k)\<lparr>m_flags := flags, m_cow := False\<rparr> else ?ms ! k)"
    using protect_each [OF s, of "[i..<j]" flags] w(1) by auto
  have maps: "us_mappings us' = map (protected addr e flags) ?ms"
    by (rule nth_equalityI) (use r(6,7) w(2) in \<open>auto simp: protected_def\<close>)
  let ?c = "i \<noteq> j \<or> vma_range_overlaps addr e (us_vmas us)"
  let ?us = "if ?c then us'\<lparr>us_vmas := update_vma_flags addr e flags (us_vmas us')\<rparr> else us'"
  have run: "mprotect env addr len flags (us, st) = Some (if ?c then Ok () else Err (Map NotMapped), (?us, st'))"
    unfolding mprotect_def e option.case Let_def fst_conv i_def [symmetric] j_def [symmetric] using a r(1) by (simp add: is_aligned_page)
  have "space_inv X ?us st'" using r(2) space_inv_cong(1) [of ?us us'] by simp
  then show ?thesis
    by (rule that [OF run]) (use maps r(4,5) w(3) same_but_mappings_fields(1) [OF r(3)] in auto)
qed

lemma mprotect_returns:
  assumes "space_inv X (fst vm) (snd vm)"
  shows "mprotect env addr len flags vm \<noteq> None"
proof (cases "len = 0 \<or> \<not> is_aligned addr PAGE_SIZE \<or> checked_add addr (align_up len PAGE_SIZE) = None")
  case True
  then have "mprotect env addr len flags vm = Some (Err AddressOverflow, vm)"
    by (cases "checked_add addr (align_up len PAGE_SIZE)") (simp_all only: mprotect_def option.case if_True if_cancel, auto)
  then show ?thesis by simp
next
  case False
  then obtain e where e: "checked_add addr (align_up len PAGE_SIZE) = Some e" by blast
  have al: "addr mod PAGE_SIZE = 0" "0 < len" using False by (simp_all add: is_aligned_page)
  show ?thesis by (rule mprotect_spec [OF assms al e, of flags]) simp
qed

section \<open>Every step\<close>

definition sound :: "holders \<Rightarrow> user_space \<times> 's mm \<Rightarrow> bool" where
  "sound X vm \<longleftrightarrow> space_inv X (fst vm) (snd vm) \<and> sole_writer X (fst vm) \<and> images_exact (fst vm)"

definition confined :: "holders \<Rightarrow> user_space \<times> 's mm \<Rightarrow> user_space \<times> 's mm \<Rightarrow> bool" where
  "confined X vm vm' \<longleftrightarrow> sound X vm' \<and> same_contents {f. 0 < X f} (cells (snd vm)) (cells (snd vm'))"

lemma confined_refl: "sound X vm \<Longrightarrow> confined X vm vm"
  by (simp add: confined_def)

lemma confined_trans: "confined X vm vm1 \<Longrightarrow> confined X vm1 vm2 \<Longrightarrow> confined X vm vm2"
  unfolding confined_def by (meson same_contents_trans)

lemma contained_confined: "contained X vm vm' \<Longrightarrow> images_exact (fst vm) \<Longrightarrow> confined X vm vm'"
  using contained_exact [of X vm vm'] by (simp add: confined_def contained_def sound_def)

text \<open>Other areas and another heap, in which the images are exact.\<close>

lemma confined_areas:
  assumes "confined X vm (us, st)" "us_mappings us' = us_mappings us" "us_root us' = us_root us" "exact_areas (us_vmas us')"
  shows "confined X vm (us', st)"
  using assms space_inv_cong [OF assms(2,3)] by (simp add: confined_def sound_def sole_writer_def images_exact_def)

lemma pages_gone_confined:
  assumes s: "sound X vm" and g: "pages_gone X P vm vm'"
  shows "confined X vm vm'"
proof -
  obtain us st us' st' where vm: "vm = (us, st)" "vm' = (us', st')" by (metis prod.exhaust)
  have i: "space_inv X us st" "space_inv X us' st'" "sole_writer X us" and same: "same_but_mappings us us'"
    and refs: "\<And>f. refs us' f \<le> refs us f" using s g by (simp_all add: sound_def pages_gone_def vm)
  have "sole_writer X us'"
    unfolding sole_writer_def
  proof
    fix m assume m: "m \<in> set (us_mappings us')"
    have "m \<in> set (us_mappings us)"
      by (rule kept_mapping [OF i(1,2) m]) (use g in \<open>auto simp: pages_gone_def vm split: if_splits\<close>)
    then show "m_owned m \<and> (contains (m_flags m) WRITE \<and> \<not> m_cow m \<longrightarrow> refs us' (frame_index (m_frame m)) + X (frame_index (m_frame m)) \<le> 1)"
      using i(3) refs [of "frame_index (m_frame m)"] unfolding sole_writer_def by (meson add_right_mono le_trans)
  qed
  moreover have "same_contents {f. 0 < X f} (cells st) (cells st')"
    by (rule same_contents_mono [of "busy X us'"]) (use g in \<open>auto simp: pages_gone_def vm busy_def\<close>)
  ultimately show ?thesis
    using i(2) same_but_mappings_fields(1) [OF same] s by (simp add: confined_def sound_def images_exact_def vm)
qed

lemma munmap_confined:
  assumes "sound X vm"
  shows "\<exists>r vm'. munmap env addr len vm = Some (r, vm') \<and> confined X vm vm'"
proof (cases "len = 0 \<or> \<not> is_aligned addr PAGE_SIZE")
  case True
  then show ?thesis using assms confined_refl by (simp add: munmap_def)
next
  case False
  have "\<exists>vm1. for_each_ignoring (\<lambda>x. unmap_user_page env (wadd addr x)) (page_steps 0 (align_up len PAGE_SIZE)) vm =
      Some (Ok () :: (build_error, unit) result, vm1) \<and> pages_gone X ((\<lambda>x. page_of (wadd addr x)) ` set (page_steps 0 (align_up len PAGE_SIZE))) vm vm1"
    by (rule unmap_pages_spec) (use assms in \<open>simp_all add: sound_def wadd_less\<close>)
  then obtain us1 st1 where u: "for_each_ignoring (\<lambda>x. unmap_user_page env (wadd addr x)) (page_steps 0 (align_up len PAGE_SIZE)) vm =
      Some (Ok () :: (build_error, unit) result, (us1, st1))"
      "pages_gone X ((\<lambda>x. page_of (wadd addr x)) ` set (page_steps 0 (align_up len PAGE_SIZE))) vm (us1, st1)" by force
  note c = pages_gone_confined [OF assms u(2)]
  let ?us = "us1\<lparr>us_vmas := remove_vma_range addr (wadd addr (align_up len PAGE_SIZE)) (us_vmas us1)\<rparr>"
  have "munmap env addr len vm = Some (Ok (), (?us, st1))" using False u(1) by (simp add: munmap_def Let_def)
  moreover have "confined X vm (?us, st1)"
    by (rule confined_areas [OF c]) (use remove_exact c in \<open>simp_all add: confined_def sound_def images_exact_def\<close>)
  ultimately show ?thesis by blast
qed

lemma brk_confined:
  assumes "sound X vm"
  shows "\<exists>r vm'. brk env new_brk vm = Some (r, vm') \<and> confined X vm vm'"
proof (cases "new_brk = 0 \<or> new_brk < brk_start (fst vm) \<or> new_brk > brk_limit (fst vm)")
  case True
  then have "brk env new_brk vm = Some (Ok (brk_current (fst vm)), vm)" by (auto simp: brk_def)
  then show ?thesis using confined_refl [OF assms] by blast
next
  case False
  let ?old = "align_up (brk_current (fst vm)) PAGE_SIZE" and ?new = "align_up new_brk PAGE_SIZE"
  let ?m = "if ?new < ?old then for_each_ignoring (unmap_user_page env) (page_steps ?new ?old) vm
    else Some (Ok () :: (build_error, unit) result, vm)"
  have "\<exists>vm1. for_each_ignoring (\<lambda>x. unmap_user_page env x) (page_steps ?new ?old) vm = Some (Ok () :: (build_error, unit) result, vm1) \<and>
      pages_gone X (page_of ` set (page_steps ?new ?old)) vm vm1"
    by (rule unmap_pages_spec) (use assms align_up_less [of "brk_current (fst vm)"] in \<open>auto simp: sound_def page_steps_iff\<close>)
  then obtain us1 st1 where u: "?m = Some (Ok (), (us1, st1))" "confined X vm (us1, st1)"
    using pages_gone_confined [OF assms] confined_refl [OF assms] by (cases "?new < ?old"; cases vm) force+
  let ?us = "us1\<lparr>brk_current := new_brk, us_vmas := update_heap_vma_end new_brk (us_vmas us1)\<rparr>"
  have "brk env new_brk vm = ignoring ?m (\<lambda>(us, st). Some (Ok new_brk,
      (us\<lparr>brk_current := new_brk, us_vmas := update_heap_vma_end new_brk (us_vmas us)\<rparr>, st)))"
    using False by (simp add: brk_def Let_def)
  then have "brk env new_brk vm = Some (Ok new_brk, (?us, st1))" unfolding u(1) by simp
  moreover have "confined X vm (?us, st1)"
    by (rule confined_areas [OF u(2)]) (use heap_end_exact u(2) in \<open>simp_all add: confined_def sound_def images_exact_def\<close>)
  ultimately show ?thesis by blast
qed

lemma mmap_confined:
  assumes "sound X vm"
  shows "\<exists>r vm'. mmap_anonymous env addr len flags page_flags vm = Some (r, vm') \<and> confined X vm vm'"
proof (cases "len = 0 \<or> flags AND MAP_ANONYMOUS = 0")
  case True
  then show ?thesis using confined_refl [OF assms] by (auto simp: mmap_anonymous_def)
next
  case False
  let ?len = "align_up len PAGE_SIZE"
  obtain q us1 st1 where p: "prepare_mapping_base env addr ?len flags vm = Some (q, (us1, st1))" "confined X vm (us1, st1)"
  proof (cases "flags AND MAP_FIXED_NOREPLACE = 0 \<and> flags AND MAP_FIXED \<noteq> 0 \<and> is_aligned addr PAGE_SIZE")
    case True
    obtain x us1 st1 where "munmap env addr ?len vm = Some (x, (us1, st1))" "confined X vm (us1, st1)"
      using munmap_confined [OF assms, of addr ?len] by auto
    then show ?thesis using that True by (simp add: prepare_mapping_base_def)
  next
    case False
    then have "\<exists>q. prepare_mapping_base env addr ?len flags vm = Some (q, vm)" by (auto simp: prepare_mapping_base_def)
    then show ?thesis using that confined_refl [OF assms] by (cases vm) auto
  qed
  show ?thesis
  proof (cases q)
    case (Err e)
    then show ?thesis using False p by (simp add: mmap_anonymous_def mmap_with_def)
  next
    case (Ok base)
    let ?us = "record_area base (wadd base ?len) page_flags Anonymous True us1"
    have "mmap_anonymous env addr len flags page_flags vm = Some (Ok base, (?us, st1))"
      using False p(1) Ok by (simp add: mmap_anonymous_def mmap_with_def)
    moreover have "confined X vm (?us, st1)"
      by (rule confined_areas [OF p(2)])
        (use record_exact [of "us_vmas us1" Anonymous] p(2) in \<open>simp_all add: confined_def sound_def images_exact_def record_area_def\<close>)
    ultimately show ?thesis by blast
  qed
qed

lemma mprotect_confined:
  assumes s: "sound X vm" and w: "\<not> contains flags WRITE"
  shows "\<exists>r vm'. mprotect env addr len flags vm = Some (r, vm') \<and> confined X vm vm'"
proof -
  obtain us st where vm: "vm = (us, st)" by force
  note s' = s [unfolded sound_def vm fst_conv snd_conv]
  show ?thesis
  proof (cases "len = 0 \<or> \<not> is_aligned addr PAGE_SIZE \<or> checked_add addr (align_up len PAGE_SIZE) = None")
    case True
    then have "mprotect env addr len flags vm = Some (Err AddressOverflow, vm)"
      by (cases "checked_add addr (align_up len PAGE_SIZE)") (simp_all only: mprotect_def option.case if_True if_cancel, auto)
    then show ?thesis using confined_refl [OF s] by blast
  next
    case False
    then obtain e where e: "checked_add addr (align_up len PAGE_SIZE) = Some e" by blast
    have al: "addr mod PAGE_SIZE = 0" "0 < len" using False by (simp_all add: is_aligned_page)
    obtain r us' st' where p: "mprotect env addr len flags vm = Some (r, (us', st'))" "space_inv X us' st'" "us_mappings us' = map (protected addr e flags) (us_mappings us)"
        "same_contents (busy X us) (cells st) (cells st')" "us_vmas us' = us_vmas us \<or> us_vmas us' = update_vma_flags addr e flags (us_vmas us)"
      by (rule mprotect_spec [OF conjunct1 [OF s'] al e, of flags]) (use vm in auto)
    have "refs us' f = refs us f" for f by (simp add: refs_def p(3) filter_map comp_def)
    then have "sole_writer X us'"
      using s' w by (auto simp: sole_writer_def p(3)) (auto simp: protected_def split: if_splits)
    moreover have "same_contents {f. 0 < X f} (cells st) (cells st')" by (rule same_contents_mono [OF p(4)]) (auto simp: busy_def)
    moreover have "images_exact us'" using p(5) s' flags_exact by (auto simp: images_exact_def)
    ultimately have "confined X vm (us', st')" using p(2) vm by (simp add: confined_def sound_def)
    then show ?thesis using p(1) by blast
  qed
qed

theorem step_confined:
  assumes "space_step env user vm vm'" "sound X vm"
  shows "confined X vm vm'"
  using assms(1)
proof cases
  case (step_fault a code r)
  obtain us st where vm: "vm = (us, st)" by force
  note s = assms(2) [unfolded vm sound_def fst_conv snd_conv]
  obtain r' vm1 where "page_fault env a code (us, st) = Some (r', vm1)" "unseen X (us, st) vm1 \<or> (\<exists>x. r' = Err (Map x) \<and> x \<noteq> NotMapped)"
    using page_fault_spec [OF _ _ step_fault(1), of X us st code] s by blast
  then have "unseen X vm vm'" using step_fault(2,3) vm by (auto simp: tables_ok_def)
  then show ?thesis using contained_confined [OF unseen_contained] assms(2) by (simp add: sound_def)
next
  case (step_write a data r)
  obtain r' vm1 where "user_write_loop env a data 0 vm = Some (r', vm1)" "case r' of
      Ok n \<Rightarrow> n = 0 + length data \<and> wrote X a data vm vm1
    | Err e \<Rightarrow> (\<exists>x. e = Map x \<and> x \<noteq> NotMapped) \<or> contained X vm vm1"
    using write_loop_spec [of X vm a data 0] assms(2) step_write(1,2) unfolding sound_def by blast
  then have "contained X vm vm'" using step_write(3,4) by (auto simp: write_user_def tables_ok_def wrote_def split: result.splits)
  then show ?thesis using contained_confined assms(2) by (simp add: sound_def)
next
  case (step_read a len r)
  have "unseen X vm vm'"
    using read_loop_spec [of X vm a len "[]"] assms(2) step_read by (auto simp: sound_def read_user_def)
  then show ?thesis using contained_confined [OF unseen_contained] assms(2) by (simp add: sound_def)
next
  case (step_munmap a len r)
  then show ?thesis using munmap_confined [OF assms(2), of a len] by auto
next
  case (step_brk n r)
  then show ?thesis using brk_confined [OF assms(2), of n] by auto
next
  case (step_mmap a len flags pf r)
  then show ?thesis using mmap_confined [OF assms(2), of a len flags pf] by auto
next
  case (step_mprotect flags a len r)
  then show ?thesis using mprotect_confined [OF assms(2) step_mprotect(1), of a len] by auto
qed

theorem steps_confined: "(space_step env user)\<^sup>*\<^sup>* vm vm' \<Longrightarrow> sound X vm \<Longrightarrow> confined X vm vm'"
proof (induction rule: rtranclp_induct)
  case base
  then show ?case by (rule confined_refl)
next
  case (step vm1 vm2)
  have "confined X vm vm1" using step by blast
  moreover from this have "confined X vm1 vm2" using step_confined [OF step(2)] by (simp add: confined_def)
  ultimately show ?case by (rule confined_trans)
qed

end

end
