(* ===== verification/User_X86.thy ===== *)
theory User_X86
  imports User_Steps Paging_Properties
begin

text \<open>
  Address spaces over the x86-64 page tables and the buddy allocator. User addresses are those
  of the lower half, in which the pages of the last level are told apart by their number.
\<close>

definition user_half :: "usize \<Rightarrow> bool" where
  "user_half a \<longleftrightarrow> a < 2 ^ 47"

definition x86_env :: "usize \<Rightarrow> bool \<Rightarrow> buddy vm_env" where
  "x86_env cpuid recovered = \<lparr>e_arch = x86_64, e_alloc = buddy_alloc cpuid recovered, e_retain = buddy_retain, e_release = buddy_release cpuid,
     e_ref_count = buddy_ref_count, e_new_root = new_user_root (buddy_alloc cpuid recovered)\<rparr>"

lemma user_half_page: "user_half v \<Longrightarrow> x86_page 3 v = v div PAGE_SIZE"
proof -
  assume "user_half v"
  then have "take_bit 48 v = v" by (simp add: user_half_def take_bit_nat_eq_self)
  then show ?thesis by (simp add: x86_page_def LEVEL_SHIFTS_def drop_bit_eq_div PAGE_SIZE_def PAGE_SHIFT_def)
qed

interpretation x86_user: user_memory "x86_frames cpuid" allocated usable "buddy_alloc cpuid recovered"
  buddy_retain "buddy_release cpuid" buddy_ref_count x86_64 x86_addressable user_half 3 "new_user_root (buddy_alloc cpuid recovered)"
  for cpuid recovered
proof (unfold_locales, goal_cases)
  case 1 show ?case by (simp add: x86_fields x86_leaf_level_def)
next
  case 2 show ?case by (simp add: x86_fields x86_page_size_def PAGE_SIZES_def PAGE_SIZE_def PAGE_SHIFT_def)
next
  case 3 show ?case by (simp add: map_size_for_level_def x86_fields x86_page_size_def PAGE_SIZES_def)
next
  case (4 v w)
  then show ?case by (simp add: same_path_page user_half_page)
next
  case (5 v w)
  have "w = v div PAGE_SIZE * PAGE_SIZE + w mod PAGE_SIZE" using 5(2) by (metis div_mult_mod_eq)
  moreover have "v div PAGE_SIZE < 2 ^ 35" using 5(1) by (simp add: user_half_def PAGE_SIZE_def PAGE_SHIFT_def)
  moreover have "w mod PAGE_SIZE < PAGE_SIZE" using page_size_pos by simp
  ultimately show ?case by (simp add: user_half_def PAGE_SIZE_def PAGE_SHIFT_def)
next
  case (6 v)
  then show ?case by (simp add: user_half_def usize_range_def)
qed

lemma x86_user_env: "x86_user.env cpuid recovered = x86_env cpuid recovered"
  by (simp add: x86_user.env_def x86_env_def)

text \<open>
  The invariant of a process in memory, with the references that others hold: the allocator is
  sound, the page tables are a tree of frames that are neither free nor held, every reference is
  counted, the processor translates user addresses as the vector of mappings says, and the
  process can write to no frame that it shares.
\<close>

definition process_sound :: "usize \<Rightarrow> holders \<Rightarrow> buddy vm \<Rightarrow> bool" where
  "process_sound cpuid X vm \<longleftrightarrow> (case vm of (us, st) \<Rightarrow>
     x86_frames cpuid (frames st) \<and> busy X us \<inter> free_frames usable allocated (frames st) = {} \<and>
     space_ok x86_64 (free_frames usable allocated (frames st) \<union> busy X us) (cells st) (us_root us) \<and>
     books X us (allocated (frames st)) \<and>
     (\<forall>a. user_half a \<longrightarrow> translate x86_64 (cells st) (us_root us) a =
       map_option (\<lambda>m. (3, x86_make_leaf (m_frame m) 3 (m_flags m))) (mapping a us)) \<and>
     mappings_sorted us \<and>
     list_all (\<lambda>m. user_half (m_virt m) \<and> m_virt m mod PAGE_SIZE = 0 \<and> x86_addressable (m_frame m)) (us_mappings us) \<and>
     sole_writer X us \<and> images_exact us)"

lemma process_sound_eq: "process_sound cpuid X vm \<longleftrightarrow> x86_user.sound cpuid X vm"
  unfolding process_sound_def x86_user.sound_def x86_user.space_inv_def x86_user.agree_def x86_user.mapping_ok_def [abs_def]
    x86_user.leaf_of_def [abs_def] x86_buddy.healthy_def x86_fields
  by (cases vm) auto

end
