(* ===== verification/User_Sample.thy ===== *)
theory User_Sample
  imports User_X86 "HOL-Library.Code_Target_Nat"
begin

text \<open>A process on the small machine, on which the properties are applied.\<close>

section \<open>A small process\<close>

text \<open>A process with one lazy area of two pages, on the machine of four pages.\<close>

definition sample_area :: user_vma where
  "sample_area = \<lparr>v_start = 0x400000, v_end = 0x402000, v_flags = READ OR WRITE OR USER, v_kind = Anonymous, v_lazy = True\<rparr>"

definition sample_space :: user_space where
  "sample_space = \<lparr>us_layout = layout_current, us_root = sample_root, us_stack_base = 0, us_mappings = [], us_vmas = [sample_area],
     brk_start = 0, brk_current = 0, brk_limit = 0\<rparr>"

definition nobody :: holders where
  "nobody = (\<lambda>_. 0)"

definition sample_write where
  "sample_write = do {
     booted \<leftarrow> bootstrap 1 1 8 sample_map 1;
     s \<leftarrow> to_option booted;
     (r, _) \<leftarrow> write_user (x86_env 0 False) 0x400000 [42] (sample_space, sample_mm s);
     Some r
   }"

lemma sample_write: "sample_write = Some (Ok 1)"
  by code_simp

lemma sample_sound:
  assumes "buddy_ready 0 s" "usable s = {1 ..< 5}"
  shows "process_sound 0 nobody (sample_space, sample_mm s)"
proof -
  have m: "us_mappings sample_space = []" "us_root sample_space = sample_root" "us_vmas sample_space = [sample_area]"
    by (simp_all add: sample_space_def)
  have b: "busy nobody sample_space = {}" by (simp add: busy_def refs_def m nobody_def)
  have n: "mapping a sample_space = None" for a
    by (simp add: mapping_def mapping_index_def m binary_search_by_key_def binary_search_by_def)
  have "x86_buddy.healthy 0 {} (sample_mm s) sample_root" using x86_buddy.healthy_mono [OF sample_healthy [OF assms]] by simp
  moreover have "translate x86_64 (cells (sample_mm s)) sample_root a = None" for a
    by (simp add: translate_def sample_mm_def x86_fields x86.zero_absent [unfolded x86_fields] numeral_eq_Suc)
  ultimately show ?thesis
    by (simp add: process_sound_def x86_buddy.healthy_def b n m books_def mappings_sorted_def sole_writer_def images_exact_def sample_area_def)
qed

lemma sample_written:
  obtains s vm where "process_sound 0 nobody (sample_space, sample_mm s)"
    "write_user (x86_env 0 False) 0x400000 [42] (sample_space, sample_mm s) = Some (Ok 1, vm)"
proof -
  obtain s0 where s0: "bootstrap 1 1 8 sample_map 1 = Some (Ok s0)" "buddy_ready 0 s0" "usable s0 = {1 ..< 5}" by (rule sample_run)
  then obtain vm where "write_user (x86_env 0 False) 0x400000 [42] (sample_space, sample_mm s0) = Some (Ok 1, vm)"
    using sample_write by (auto simp: sample_write_def bind_eq_Some_conv split: option.splits)
  then show ?thesis using that sample_sound [OF s0(2,3)] by blast
qed

lemma sample_bytes:
  obtains us st where "process_sound 0 nobody (us, st)" "us_vmas us = [sample_area]" "mapping 0x400000 us \<noteq> None"
    "user_mem us (cells st) 0x400000 = Some 42"
proof -
  obtain s vm where w: "process_sound 0 nobody (sample_space, sample_mm s)"
    "write_user (x86_env 0 False) 0x400000 [42] (sample_space, sample_mm s) = Some (Ok 1, vm)" by (rule sample_written)
  have "x86_user.wrote 0 nobody 0x400000 [42] (sample_space, sample_mm s) vm"
    using x86_user.write_loop_spec [where cpuid = 0 and X = nobody and vm = "(sample_space, sample_mm s)" and cur = "0x400000" and left = "[42]" and recovered = False and copied = 0] w
    by (auto simp: write_user_def x86_user_env process_sound_eq x86_user.sound_def user_half_def usize_range_def)
  then have "x86_user.contained 0 nobody (sample_space, sample_mm s) vm" "user_mem (fst vm) (cells (snd vm)) 0x400000 = Some 42"
      "mapping 0x400000 (fst vm) \<noteq> None"
    by (auto simp: x86_user.wrote_def user_half_def)
  moreover from this have "process_sound 0 nobody vm" "us_vmas (fst vm) = [sample_area]"
    using x86_user.contained_confined [of 0 nobody] w(1) same_but_mappings_fields(1) [of sample_space "fst vm"]
    by (auto simp: process_sound_eq x86_user.sound_def x86_user.confined_def x86_user.contained_def sample_space_def)
  ultimately show ?thesis using that [of "fst vm" "snd vm"] by simp
qed

text \<open>The same process while somebody else holds a frame.\<close>

lemma sample_held:
  obtains st where "process_sound 0 (in_hand nobody 3) (sample_space, st)"
proof -
  obtain s0 s' where s0: "buddy_ready 0 s0" "usable s0 = {1 ..< 5}" "buddy_alloc 0 False s0 1 = Some (Ok \<lparr>start_address = 12288\<rparr>, s')"
    by (rule sample_run)
  note s = sample_sound [OF s0(1,2), unfolded process_sound_eq x86_user.sound_def fst_conv snd_conv]
  have f: "frame_index \<lparr>start_address = 12288\<rparr> = 3" by (simp add: frame_index_def drop_bit_eq_div PAGE_SHIFT_def)
  have a: "buddy_alloc 0 False (frames (sample_mm s0)) 1 = Some (Ok \<lparr>start_address = 12288\<rparr>, s')" using s0(3) by (simp add: sample_mm_def)
  have "x86_user.space_inv 0 (in_hand nobody 3) sample_space ((sample_mm s0)\<lparr>frames := s'\<rparr>)"
    by (rule x86_user.alloc_in_hand [where recovered = False, OF conjunct1 [OF s]]) (use a f in auto)
  then have "process_sound 0 (in_hand nobody 3) (sample_space, (sample_mm s0)\<lparr>frames := s'\<rparr>)"
    using s by (simp add: process_sound_eq x86_user.sound_def sole_writer_def sample_space_def)
  then show ?thesis by (rule that)
qed

end
