(* ===== verification/User_Properties.thy ===== *)
theory User_Properties
  imports User_Sample
begin

text \<open>
  What the kernel guarantees of the memory of a process on x86-64: the invariant over its life,
  that others are not affected, that page faults and the copies of pages go unseen, and what
  the system calls on memory do to the translation of the processor.
\<close>

section \<open>Properties\<close>





text \<open>
  C18: What the kernel writes to a buffer of a process, it reads back: when \<open>write\<close> returns a count,
  it has written the whole buffer, \<open>read\<close> of the same range succeeds, returns the bytes written and
  changes nothing; every other byte that the process could see before is as it was. Lazy pages
  and private copies of shared pages are made on the way.
\<close>

theorem write_read:
  assumes "process_sound cpuid X (us, st)" "\<And>b. a \<le> b \<Longrightarrow> b < a + length data \<Longrightarrow> user_half b" "a + length data < usize_range"
    "write_user (x86_env cpuid recovered) a data (us, st) = Some (Ok n, (us', st'))"
  shows "n = length data \<and> process_sound cpuid X (us', st') \<and>
    read_user (x86_env cpuid recovered) a (length data) (us', st') = Some (Ok data, (us', st')) \<and>
    (\<forall>b v. user_half b \<longrightarrow> \<not> (a \<le> b \<and> b < a + length data) \<longrightarrow> user_mem us (cells st) b = Some v \<longrightarrow> user_mem us' (cells st') b = Some v)"
proof -
  have s: "x86_user.space_inv cpuid X us st" "sole_writer X us" "images_exact us"
    using assms(1) by (simp_all add: process_sound_eq x86_user.sound_def)
  have w: "n = length data" "x86_user.wrote cpuid X a data (us, st) (us', st')"
    using x86_user.write_loop_spec [where cpuid = cpuid and X = X and vm = "(us, st)" and cur = a and left = data and recovered = recovered and copied = 0] s assms(2-4) by (auto simp: write_user_def x86_user_env)
  then have c: "x86_user.contained cpuid X (us, st) (us', st')" by (simp add: x86_user.wrote_def)
  then have s': "x86_user.space_inv cpuid X us' st'" "sole_writer X us'" "images_exact us'"
    using x86_user.contained_exact [OF c] s(3) by (simp_all add: x86_user.contained_def)
  have mem: "user_mem us' (cells st') (a + i) = Some (data ! i)" "mapping (a + i) us' \<noteq> None" if "i < length data" for i
    using w(2) assms(2) [of "a + i"] that by (simp_all add: x86_user.wrote_def)
  have m: "\<forall>b. a \<le> b \<and> b < a + length data \<longrightarrow> mapping b us' \<noteq> None"
    using mem(2) by (metis le_iff_add add_less_cancel_left)
  obtain bs where r: "user_read_loop (x86_env cpuid recovered) a (length data) [] (us', st') = Some (Ok bs, (us', st'))" "length bs = length data"
      "\<forall>i < length data. user_mem us' (cells st') (a + i) = Some (bs ! i)"
    using x86_user.read_loop_spec [where cpuid = cpuid and X = X and vm = "(us', st')" and cur = a and left = "length data" and recovered = recovered and copied = "[]"] s' assms(2,3) m by (force simp: x86_user_env)
  then have "bs = data" using mem(1) by (intro nth_equalityI) auto
  moreover have "process_sound cpuid X (us', st')" using s' by (simp add: process_sound_eq x86_user.sound_def)
  ultimately show ?thesis using r(1) w by (simp add: read_user_def x86_user.wrote_def)
qed

theorem write_read_witness:
  "\<exists>s us st. write_user (x86_env 0 False) 0x400000 [42] (sample_space, sample_mm s) = Some (Ok 1, (us, st)) \<and>
    read_user (x86_env 0 False) 0x400000 1 (us, st) = Some (Ok [42], (us, st))"
proof -
  obtain s us st where w: "process_sound 0 nobody (sample_space, sample_mm s)"
    "write_user (x86_env 0 False) 0x400000 [42] (sample_space, sample_mm s) = Some (Ok 1, (us, st))"
    by (rule sample_written) (metis prod.exhaust)
  then show ?thesis using write_read [OF w(1) _ _ w(2)] by (auto simp: user_half_def usize_range_def)
qed



text \<open>
  C20: \<open>munmap\<close> of whole pages succeeds and removes exactly the range: the processor translates no
  address of it any more and every other address as before, no area backs an address of it, and
  the mapped pages outside keep their contents.
\<close>

theorem munmap_exact:
  assumes "process_sound cpuid X (us, st)" "addr mod PAGE_SIZE = 0" "0 < len" "len + PAGE_SIZE \<le> usize_range"
    "addr + align_up len PAGE_SIZE < usize_range"
  shows "\<exists>us' st'. munmap (x86_env cpuid recovered) addr len (us, st) = Some (Ok (), (us', st')) \<and> process_sound cpuid X (us', st') \<and>
    (\<forall>a. user_half a \<longrightarrow> translate x86_64 (cells st') (us_root us') a =
      (if addr \<le> a \<and> a < addr + align_up len PAGE_SIZE then None else translate x86_64 (cells st) (us_root us) a)) \<and>
    (\<forall>a. user_half a \<and> \<not> (addr \<le> a \<and> a < addr + align_up len PAGE_SIZE) \<and> mapping a us \<noteq> None \<longrightarrow>
      user_mem us' (cells st') a = user_mem us (cells st) a) \<and>
    (list_all vma_ok (us_vmas us) \<longrightarrow> (\<forall>a. backing (us_vmas us') a =
      (if addr \<le> a \<and> a < addr + align_up len PAGE_SIZE then {} else backing (us_vmas us) a)))"
proof -
  let ?e = "addr + align_up len PAGE_SIZE"
  have s: "x86_user.space_inv cpuid X us st" "sole_writer X us" using assms(1) by (simp_all add: process_sound_eq x86_user.sound_def)
  obtain us' st' where m: "munmap (x86_env cpuid recovered) addr len (us, st) = Some (Ok (), (us', st'))" "x86_user.space_inv cpuid X us' st'"
      "\<And>w. user_half w \<Longrightarrow> mapping w us' = (if addr \<le> w \<and> w < ?e then None else mapping w us)"
      "us_vmas us' = remove_vma_range addr ?e (us_vmas us)" "same_contents (busy X us') (cells st) (cells st')"
    by (rule x86_user.munmap_spec [OF s(1) assms(2-5), where recovered = recovered]) (force simp: x86_user_env)
  have p: "process_sound cpuid X (us', st')"
    using x86_user.munmap_confined [of cpuid X "(us, st)" recovered addr len] assms(1) m(1)
    by (auto simp: process_sound_eq x86_user_env x86_user.confined_def)
  have agree: "x86_user.agree us (cells st)" "x86_user.agree us' (cells st')" using s(1) m(2) by (simp_all add: x86_user.space_inv_def)
  have "translate x86_64 (cells st') (us_root us') a = (if addr \<le> a \<and> a < ?e then None else translate x86_64 (cells st) (us_root us) a)"
    if "user_half a" for a using agree m(3) [OF that] that by (simp add: x86_user.agree_def)
  moreover have "user_mem us' (cells st') a = user_mem us (cells st) a"
    if a: "user_half a" "\<not> (addr \<le> a \<and> a < ?e)" "mapping a us = Some k" for a k
  proof -
    have k: "mapping a us' = Some k" using m(3) [OF a(1)] a(2,3) by simp
    have sw: "sole_writer X us'" using p by (simp add: process_sound_eq x86_user.sound_def)
    note kf = x86_user.mapping_frame [OF m(2) sw k a(1)]
    have "same_contents {frame_index (m_frame k)} (cells st) (cells st')" by (rule same_contents_mono [OF m(5)]) (use kf(6) in simp)
    from get_byte_frame [OF kf(5) this, of "a mod PAGE_SIZE"] show ?thesis using k a(3) page_size_pos by (simp add: user_mem_def)
  qed
  moreover have "backing (us_vmas us') a = (if addr \<le> a \<and> a < ?e then {} else backing (us_vmas us) a)" if "list_all vma_ok (us_vmas us)" for a
    unfolding m(4) by (rule remove_vma_range_spec(1) [OF that]) simp
  ultimately show ?thesis using m(1) p by (intro exI [of _ us'] exI [of _ st']) auto
qed

theorem munmap_exact_witness:
  "\<exists>us st us' st'. translate x86_64 (cells st) (us_root us) 0x400000 \<noteq> None \<and>
    munmap (x86_env 0 False) 0x400000 0x1000 (us, st) = Some (Ok (), (us', st')) \<and> translate x86_64 (cells st') (us_root us') 0x400000 = None"
proof -
  obtain us st where s: "process_sound 0 nobody (us, st)" "mapping 0x400000 us \<noteq> None" by (rule sample_bytes)
  have u: "user_half 0x400000" by (simp add: user_half_def)
  then have t: "translate x86_64 (cells st) (us_root us) 0x400000 \<noteq> None" using s by (auto simp: process_sound_def)
  have al: "align_up 0x1000 PAGE_SIZE = 0x1000" by code_simp
  show ?thesis
    using munmap_exact [OF s(1), of "0x400000" "0x1000" False] u t unfolding al by (force simp: PAGE_SIZE_def PAGE_SHIFT_def usize_range_def)
qed

text \<open>
  C21: \<open>mprotect\<close> of whole pages changes the flags of exactly the mapped pages of the range, in the
  vector and in the translation of the processor, and leaves their frames and all reference
  counts alone. A page that was shared until written to is no longer marked: with write access
  asked for, both holders of its frame see what is written.
\<close>

theorem mprotect_exact:
  assumes "process_sound cpuid X (us, st)" "addr mod PAGE_SIZE = 0" "0 < len" "len + PAGE_SIZE \<le> usize_range"
    "addr + align_up len PAGE_SIZE < usize_range"
  shows "\<exists>r us' st'. mprotect (x86_env cpuid recovered) addr len flags (us, st) = Some (r, (us', st')) \<and>
    us_mappings us' = map (protected addr (addr + align_up len PAGE_SIZE) flags) (us_mappings us) \<and> frames st' = frames st \<and>
    (\<forall>a. user_half a \<longrightarrow> translate x86_64 (cells st') (us_root us') a =
      (if addr \<le> a \<and> a < addr + align_up len PAGE_SIZE then map_option (\<lambda>m. (3, x86_make_leaf (m_frame m) 3 flags)) (mapping a us)
       else translate x86_64 (cells st) (us_root us) a))"
proof -
  let ?e = "addr + align_up len PAGE_SIZE"
  have s: "x86_user.space_inv cpuid X us st" using assms(1) by (simp add: process_sound_eq x86_user.sound_def)
  have e: "checked_add addr (align_up len PAGE_SIZE) = Some ?e" using assms(5) by simp
  obtain r us' st' where m: "mprotect (x86_env cpuid recovered) addr len flags (us, st) = Some (r, (us', st'))" "x86_user.space_inv cpuid X us' st'"
      "us_mappings us' = map (protected addr ?e flags) (us_mappings us)" "frames st' = frames st"
    by (rule x86_user.mprotect_spec [OF s assms(2,3) e, where recovered = recovered and flags = flags]) (force simp: x86_user_env)
  have agree: "x86_user.agree us (cells st)" "x86_user.agree us' (cells st')" "mappings_sorted us"
    using s m(2) by (simp_all add: x86_user.space_inv_def)
  have em: "?e mod PAGE_SIZE = 0" using assms(2) align_up_spec(2) [OF assms(3,4)] by (simp add: mod_add_eq [symmetric])
  have "translate x86_64 (cells st') (us_root us') a =
      (if addr \<le> a \<and> a < ?e then map_option (\<lambda>m. (3, x86_make_leaf (m_frame m) 3 flags)) (mapping a us)
       else translate x86_64 (cells st) (us_root us) a)" if a: "user_half a" for a
  proof -
    have ar: "a < usize_range" using a by (simp add: user_half_def usize_range_def)
    let ?g = "protected addr ?e flags"
    have "mapping a us' = mapping a (us\<lparr>us_mappings := map ?g (us_mappings us)\<rparr>)" using m(3) by (simp add: mapping_def mapping_index_def)
    then have k: "mapping a us' = map_option ?g (mapping a us)" using mapping_map(2) [OF agree(3) _ ar, of ?g] by simp
    have pg: "addr \<le> page_of a \<longleftrightarrow> addr \<le> a" "page_of a < ?e \<longleftrightarrow> a < ?e"
      using page_range [OF assms(2), of a] page_range [OF em, of a] by (simp_all add: not_le [symmetric])
    show ?thesis
    proof (cases "mapping a us")
      case None
      then show ?thesis using agree(1,2) a k by (simp add: x86_user.agree_def)
    next
      case (Some n)
      then have "m_virt n = page_of a" using mapping_Some [OF agree(3) ar, of n] by simp
      then show ?thesis
        using agree(1,2) a k Some pg by (auto simp: x86_user.agree_def x86_user.leaf_of_def x86_fields protected_def)
    qed
  qed
  then show ?thesis using m(1,3,4) by blast
qed

theorem mprotect_exact_witness:
  "\<exists>us st r us' st' f. translate x86_64 (cells st) (us_root us) 0x400000 \<noteq> None \<and>
    mprotect (x86_env 0 False) 0x400000 0x1000 (READ OR USER) (us, st) = Some (r, (us', st')) \<and>
    translate x86_64 (cells st') (us_root us') 0x400000 = Some (3, x86_make_leaf f 3 (READ OR USER))"
proof -
  obtain us st where s: "process_sound 0 nobody (us, st)" "mapping 0x400000 us \<noteq> None" by (rule sample_bytes)
  have u: "user_half 0x400000" by (simp add: user_half_def)
  then have t: "translate x86_64 (cells st) (us_root us) 0x400000 \<noteq> None" using s by (auto simp: process_sound_def)
  have al: "align_up 0x1000 PAGE_SIZE = 0x1000" by code_simp
  have p: "(0x400000 :: nat) mod PAGE_SIZE = 0" "(0x1000 :: nat) + PAGE_SIZE \<le> usize_range" "(0x400000 :: nat) + 0x1000 < usize_range"
    by (simp_all add: PAGE_SIZE_def PAGE_SHIFT_def usize_range_def)
  obtain r us' st' where "mprotect (x86_env 0 False) 0x400000 0x1000 (READ OR USER) (us, st) = Some (r, (us', st'))"
      "translate x86_64 (cells st') (us_root us') 0x400000 = map_option (\<lambda>m. (3, x86_make_leaf (m_frame m) 3 (READ OR USER))) (mapping 0x400000 us)"
    using mprotect_exact [OF s(1) p(1) _ p(2), of False "READ OR USER", unfolded al, OF _ p(3)] u by auto
  moreover obtain m where "mapping 0x400000 us = Some m" using s(2) by blast
  ultimately show ?thesis using t by (metis option.simps(9))
qed



end
