(* ===== verification/Mmap_Regions.thy ===== *)
theory Mmap_Regions
  imports Errno Range_Vectors
begin

text \<open>
  The regions a process has mapped, \<open>mmap_regions\<close> of \<open>KernelProcess\<close> in
  \<open>aether-kernel/src/process.rs\<close>: what the system calls remember of a mapping beside the areas
  of the address space. An open file is known by the address of its \<open>Arc\<close>.
\<close>

section \<open>Regions\<close>

datatype region_backing = RAnonymous | BufferedFile nat usize | SharedFile nat usize | DirectFile nat usize

record mmap_region =
  r_start :: usize
  r_end :: usize
  r_page_flags :: map_flags
  r_mmap_flags :: "64 word"
  r_backing :: region_backing

definition offsets_continue :: "mmap_region \<Rightarrow> nat \<Rightarrow> usize \<Rightarrow> nat \<Rightarrow> usize \<Rightarrow> bool" where
  "offsets_continue l lf lo rf ro \<longleftrightarrow> lf = rf \<and> ro - lo = r_end l - r_start l"

definition mmap_backing_is_mergeable :: "mmap_region \<Rightarrow> mmap_region \<Rightarrow> bool" where
  "mmap_backing_is_mergeable l r \<longleftrightarrow>
     r_end l = r_start r \<and> r_page_flags l = r_page_flags r \<and> r_mmap_flags l = r_mmap_flags r \<and>
     (case (r_backing l, r_backing r) of
        (RAnonymous, RAnonymous) \<Rightarrow> True
      | (BufferedFile lf lo, BufferedFile rf ro) \<Rightarrow> offsets_continue l lf lo rf ro
      | (SharedFile lf lo, SharedFile rf ro) \<Rightarrow> offsets_continue l lf lo rf ro
      | (DirectFile lf lo, DirectFile rf ro) \<Rightarrow> offsets_continue l lf lo rf ro
      | _ \<Rightarrow> False)"

definition extend_region :: "mmap_region \<Rightarrow> mmap_region \<Rightarrow> mmap_region" where
  "extend_region l r = l\<lparr>r_end := r_end r\<rparr>"

definition coalesce_mmap_regions :: "mmap_region list \<Rightarrow> mmap_region list" where
  "coalesce_mmap_regions = coalesce_by mmap_backing_is_mergeable extend_region"

definition merge_mmap_region_neighbors_around :: "mmap_region list \<Rightarrow> nat \<Rightarrow> mmap_region list" where
  "merge_mmap_region_neighbors_around = merge_around mmap_backing_is_mergeable extend_region"

text \<open>
  The argument of \<open>then_some\<close> is evaluated before the test: the index is \<open>index - 1\<close> also when
  \<open>index\<close> is 0, and indexing out of range panics, the outer \<open>None\<close>.
\<close>

definition covering_mmap_region :: "usize \<Rightarrow> usize \<Rightarrow> mmap_region list \<Rightarrow> mmap_region option option" where
  "covering_mmap_region s e rs =
     (let index = partition_point (\<lambda>r. r_start r \<le> s) rs
      in do {
        r \<leftarrow> at rs (wsub index 1);
        Some (if index > 0 \<and> e \<le> r_end r then Some r else None)
      })"

fun adjusted_mmap_backing :: "region_backing \<Rightarrow> usize \<Rightarrow> region_backing" where
  "adjusted_mmap_backing RAnonymous delta = RAnonymous"
| "adjusted_mmap_backing (BufferedFile file offset) delta = BufferedFile file (saturating_add offset delta)"
| "adjusted_mmap_backing (SharedFile file offset) delta = SharedFile file (saturating_add offset delta)"
| "adjusted_mmap_backing (DirectFile file offset) delta = DirectFile file (saturating_add offset delta)"

definition slice_mmap_region :: "usize \<Rightarrow> usize \<Rightarrow> mmap_region list \<Rightarrow> mmap_region option option" where
  "slice_mmap_region s e rs = do {
     covering \<leftarrow> covering_mmap_region s e rs;
     Some (map_option (\<lambda>r. \<lparr>r_start = s, r_end = e, r_page_flags = r_page_flags r, r_mmap_flags = r_mmap_flags r,
       r_backing = adjusted_mmap_backing (r_backing r) (s - r_start r)\<rparr>) covering)
   }"

definition insert_mmap_region :: "mmap_region \<Rightarrow> mmap_region list \<Rightarrow> mmap_region list" where
  "insert_mmap_region r rs =
     (let index = unwrap_either (binary_search_by_key (r_start r) r_start rs)
      in merge_mmap_region_neighbors_around (insert_at index r rs) index)"

text \<open>The part of a region from an address on.\<close>

definition region_from :: "mmap_region \<Rightarrow> usize \<Rightarrow> usize \<Rightarrow> mmap_region" where
  "region_from r s e = r\<lparr>r_start := s, r_end := e, r_backing := adjusted_mmap_backing (r_backing r) (s - r_start r)\<rparr>"

definition region_flags_pieces :: "usize \<Rightarrow> usize \<Rightarrow> map_flags \<Rightarrow> mmap_region \<Rightarrow> mmap_region list" where
  "region_flags_pieces s e flags r =
     (if r_end r \<le> s \<or> r_start r \<ge> e then [r]
      else (if s > r_start r then [r\<lparr>r_end := s\<rparr>] else [])
        @ [(region_from r (max (r_start r) s) (min (r_end r) e))\<lparr>r_page_flags := flags\<rparr>]
        @ (if e < r_end r then [region_from r e (r_end r)] else []))"

definition update_mmap_region_flags :: "usize \<Rightarrow> usize \<Rightarrow> map_flags \<Rightarrow> mmap_region list \<Rightarrow> mmap_region list" where
  "update_mmap_region_flags s e flags rs = coalesce_mmap_regions (concat (map (region_flags_pieces s e flags) rs))"

definition region_remains :: "usize \<Rightarrow> usize \<Rightarrow> mmap_region \<Rightarrow> mmap_region list" where
  "region_remains s e r =
     (if e \<le> r_start r \<or> s \<ge> r_end r then [r]
      else (if s > r_start r then [r\<lparr>r_end := s\<rparr>] else [])
        @ (if e < r_end r then [region_from r e (r_end r)] else []))"

definition remove_mmap_region_range :: "usize \<Rightarrow> usize \<Rightarrow> mmap_region list \<Rightarrow> mmap_region list" where
  "remove_mmap_region_range s e rs = coalesce_mmap_regions (concat (map (region_remains s e) rs))"

section \<open>What is mapped at an address\<close>

type_synonym region_view = "map_flags \<times> 64 word \<times> region_backing"

definition region_at :: "mmap_region \<Rightarrow> usize \<Rightarrow> region_view" where
  "region_at r a = (r_page_flags r, r_mmap_flags r, adjusted_mmap_backing (r_backing r) (a - r_start r))"

abbreviation regions_at :: "mmap_region list \<Rightarrow> usize \<Rightarrow> region_view set" where
  "regions_at \<equiv> cover r_start r_end region_at"

text \<open>Regions are never empty: neighbours with an empty first one could be merged wrongly.\<close>

definition region_ok :: "mmap_region \<Rightarrow> bool" where
  "region_ok r \<longleftrightarrow> r_start r < r_end r"

lemma adjusted_mmap_adjusted: "adjusted_mmap_backing (adjusted_mmap_backing b d) e = adjusted_mmap_backing b (d + e)"
  by (cases b) (auto simp: saturating_add_def)

lemma region_at_from: "r_start r \<le> s \<Longrightarrow> s \<le> a \<Longrightarrow> region_at (region_from r s e) a = region_at r a"
  by (simp add: region_at_def region_from_def adjusted_mmap_adjusted)

lemma within_region_from [simp]: "within r_start r_end (region_from r s e) a \<longleftrightarrow> s \<le> a \<and> a < e"
  "within r_start r_end ((region_from r s e)\<lparr>r_page_flags := flags\<rparr>) a \<longleftrightarrow> s \<le> a \<and> a < e"
  "within r_start r_end (r\<lparr>r_end := e\<rparr>) a \<longleftrightarrow> r_start r \<le> a \<and> a < e"
  by (simp_all add: within_def region_from_def)

lemma region_at_cut [simp]: "region_at (r\<lparr>r_end := e\<rparr>) a = region_at r a"
  by (simp add: region_at_def)

lemma mergeable_continues:
  assumes "mmap_backing_is_mergeable l r" "region_ok l" "r_start r \<le> a"
  shows "region_at l a = region_at r a"
proof -
  have len: "r_end l = r_start r" "r_start l < r_end l" using assms by (simp_all add: mmap_backing_is_mergeable_def region_ok_def)
  have "saturating_add lo (a - r_start l) = saturating_add ro (a - r_start r)" if "ro - lo = r_end l - r_start l" for lo ro :: usize
  proof -
    have "ro = lo + (r_start r - r_start l)" using that len by simp
    then have "lo + (a - r_start l) = ro + (a - r_start r)" using len assms(3) by simp
    then show ?thesis by (simp add: saturating_add_def)
  qed
  then show ?thesis
    using assms(1) by (auto simp: mmap_backing_is_mergeable_def region_at_def offsets_continue_def split: region_backing.splits)
qed

interpretation regions: range_vector r_start r_end region_at region_ok mmap_backing_is_mergeable extend_region
proof
  fix l r a assume m: "mmap_backing_is_mergeable l r" "region_ok l" "region_ok r"
  then have "r_end l = r_start r" by (simp add: mmap_backing_is_mergeable_def)
  then show "regions_at [extend_region l r] a = regions_at [l, r] a"
    using m mergeable_continues [OF m(1,2), of a] by (auto simp: region_ok_def within_def extend_region_def)
  show "region_ok (extend_region l r)" using m by (simp add: mmap_backing_is_mergeable_def region_ok_def extend_region_def)
qed

definition with_page_flags :: "map_flags \<Rightarrow> region_view \<Rightarrow> region_view" where
  "with_page_flags flags v = (flags, snd v)"

lemma region_remains_spec:
  assumes "region_ok r" "s \<le> e"
  shows "regions_at (region_remains s e r) a = (\<lambda>b. b) ` {b \<in> regions_at [r] a. \<not> (s \<le> a \<and> a < e)}"
    "list_all region_ok (region_remains s e r)"
  using assms by (auto simp: region_remains_def region_at_from region_ok_def)
    (auto simp: within_def region_from_def)

lemma region_flags_pieces_spec:
  assumes "region_ok r" "s < e"
  shows "regions_at (region_flags_pieces s e flags r) a =
      (if s \<le> a \<and> a < e then with_page_flags flags else (\<lambda>b. b)) ` {b \<in> regions_at [r] a. True}"
    "list_all region_ok (region_flags_pieces s e flags r)"
proof -
  have mid: "region_at ((region_from r m e')\<lparr>r_page_flags := flags\<rparr>) a = with_page_flags flags (region_at r a)"
    if "r_start r \<le> m" "m \<le> a" for m e'
    using region_at_from [OF that, of e'] by (simp add: region_at_def region_from_def with_page_flags_def)
  show "regions_at (region_flags_pieces s e flags r) a =
      (if s \<le> a \<and> a < e then with_page_flags flags else (\<lambda>b. b)) ` {b \<in> regions_at [r] a. True}"
    using assms by (auto simp: region_flags_pieces_def region_at_from mid) (auto simp: within_def)
  show "list_all region_ok (region_flags_pieces s e flags r)"
    using assms by (auto simp: region_flags_pieces_def region_ok_def region_from_def)
qed

lemma remove_mmap_region_range_spec:
  assumes "list_all region_ok rs" "s \<le> e"
  shows "regions_at (remove_mmap_region_range s e rs) a = (if s \<le> a \<and> a < e then {} else regions_at rs a)"
    "list_all region_ok (remove_mmap_region_range s e rs)"
  using regions.rewrite_cover [OF assms(1), of "region_remains s e" a "\<lambda>b. b" "\<lambda>b. \<not> (s \<le> a \<and> a < e)"]
    region_remains_spec [OF _ assms(2)]
  by (auto simp: remove_mmap_region_range_def coalesce_mmap_regions_def)

lemma update_mmap_region_flags_spec:
  assumes "list_all region_ok rs" "s < e"
  shows "regions_at (update_mmap_region_flags s e flags rs) a =
      (if s \<le> a \<and> a < e then with_page_flags flags ` regions_at rs a else regions_at rs a)"
    "list_all region_ok (update_mmap_region_flags s e flags rs)"
  using regions.rewrite_cover [OF assms(1), of "region_flags_pieces s e flags" a
      "if s \<le> a \<and> a < e then with_page_flags flags else (\<lambda>b. b)" "\<lambda>b. True"]
    region_flags_pieces_spec [OF _ assms(2)]
  by (auto simp: update_mmap_region_flags_def coalesce_mmap_regions_def)

lemma insert_mmap_region_spec:
  assumes "list_all region_ok rs" "region_ok r"
  shows "regions_at (insert_mmap_region r rs) a = regions_at (r # rs) a" "list_all region_ok (insert_mmap_region r rs)"
  using regions.insert_cover [OF assms binary_search_index]
  by (simp_all add: insert_mmap_region_def merge_mmap_region_neighbors_around_def Let_def del: cover_simps)

section \<open>Finding the region of a range\<close>

definition regions_sorted :: "mmap_region list \<Rightarrow> bool" where
  "regions_sorted rs \<longleftrightarrow> sorted_wrt (\<lambda>r q. r_start r \<le> r_start q) rs \<and> length rs < usize_range"

lemma covering_spec:
  assumes "regions_sorted rs"
  shows "covering_mmap_region s e rs =
    (let before = filter (\<lambda>r. r_start r \<le> s) rs
     in if before = [] then None else Some (if e \<le> r_end (last before) then Some (last before) else None))"
proof -
  define n where "n = partition_point (\<lambda>r. r_start r \<le> s) rs"
  have le: "r_start (rs ! i) \<le> s" if "i < j" "j < length rs" "r_start (rs ! j) \<le> s" for i j
    using assms that by (auto simp: regions_sorted_def sorted_wrt_iff_nth_less intro: le_trans)
  have p: "n \<le> length rs" "\<And>j. j < n \<Longrightarrow> r_start (rs ! j) \<le> s" "\<And>j. n \<le> j \<Longrightarrow> j < length rs \<Longrightarrow> \<not> r_start (rs ! j) \<le> s"
    unfolding n_def using partition_point_spec [of rs "\<lambda>r. r_start r \<le> s"] le by blast+
  have "filter (\<lambda>r. r_start r \<le> s) (take n rs) = take n rs" "filter (\<lambda>r. r_start r \<le> s) (drop n rs) = []"
    using p by (auto simp: filter_id_conv filter_empty_conv in_set_conv_nth not_le)
  then have f: "filter (\<lambda>r. r_start r \<le> s) rs = take n rs"
    by (metis append_Nil2 append_take_drop_id filter_append)
  show ?thesis
  proof (cases n)
    case 0
    have "wsub 0 1 = usize_range - 1" by (simp add: wsub_def usize_range_def)
    moreover have "\<not> usize_range - 1 < length rs" using assms unfolding regions_sorted_def by linarith
    ultimately have "at rs (wsub 0 1) = None" by (simp add: at_def)
    then show ?thesis using 0 f by (simp add: covering_mmap_region_def n_def [symmetric] Let_def)
  next
    case (Suc m)
    have m: "m < length rs" using p(1) Suc by simp
    have "wsub n 1 = m" using Suc m assms by (subst wsub_exact) (simp_all add: regions_sorted_def)
    then have "at rs (wsub n 1) = Some (rs ! m)" using m by (simp add: at_def)
    moreover have t: "take n rs = take m rs @ [rs ! m]" using Suc m by (simp add: take_Suc_conv_app_nth)
    ultimately show ?thesis using Suc unfolding f t covering_mmap_region_def n_def [symmetric] by (simp add: Let_def)
  qed
qed

end
