(* ===== verification/Area_Properties.thy ===== *)
theory Area_Properties
  imports Vmas Mmap_Regions "HOL-Library.Code_Target_Nat"
begin

text \<open>
  What the vectors of areas and of mapped regions mean: whatever is recorded, removed and
  protected, an address is backed by what was recorded over it, and the search for a gap
  returns free room. The search for the region of a range fails where no region starts.
\<close>

section \<open>Sequences of operations\<close>

datatype area_op = Record usize usize map_flags vma_kind bool | Remove usize usize | Protect usize usize map_flags

fun area_op_ok :: "area_op \<Rightarrow> bool" where
  "area_op_ok (Record s e _ _ _) \<longleftrightarrow> s \<le> e"
| "area_op_ok (Remove s e) \<longleftrightarrow> s \<le> e"
| "area_op_ok (Protect s e _) \<longleftrightarrow> s \<le> e"

fun run_area_op :: "area_op \<Rightarrow> user_vma list \<Rightarrow> user_vma list" where
  "run_area_op (Record s e flags kind lazy) vs = record_vma s e flags kind lazy vs"
| "run_area_op (Remove s e) vs = remove_vma_range s e vs"
| "run_area_op (Protect s e flags) vs = update_vma_flags s e flags vs"

text \<open>The same on the abstract memory map, the set of what backs each address.\<close>

type_synonym memory_map = "usize \<Rightarrow> (map_flags \<times> vma_kind \<times> bool) set"

fun spec_area_op :: "area_op \<Rightarrow> memory_map \<Rightarrow> memory_map" where
  "spec_area_op (Record s e flags kind lazy) B = (\<lambda>a. B a \<union> (if s \<le> a \<and> a < e then {(flags, adjusted kind (a - s), lazy)} else {}))"
| "spec_area_op (Remove s e) B = (\<lambda>a. if s \<le> a \<and> a < e then {} else B a)"
| "spec_area_op (Protect s e flags) B = (\<lambda>a. if s \<le> a \<and> a < e then with_flags flags ` B a else B a)"

lemma run_area_op_refines:
  assumes "area_op_ok x" "list_all vma_ok vs"
  shows "backing (run_area_op x vs) = spec_area_op x (backing vs)" "list_all vma_ok (run_area_op x vs)"
proof -
  have "backing (run_area_op x vs) = spec_area_op x (backing vs) \<and> list_all vma_ok (run_area_op x vs)"
  proof (cases x)
    case (Record s e flags kind lazy)
    then show ?thesis using record_vma_spec [OF assms(2), of s e] assms(1) by (auto simp: fun_eq_iff)
  next
    case (Remove s e)
    then show ?thesis using remove_vma_range_spec [OF assms(2), of s e] assms(1) by (auto simp: fun_eq_iff)
  next
    case (Protect s e flags)
    then show ?thesis using update_vma_flags_spec [OF assms(2), of s e] assms(1) by (auto simp: fun_eq_iff)
  qed
  then show "backing (run_area_op x vs) = spec_area_op x (backing vs)" "list_all vma_ok (run_area_op x vs)" by blast+
qed

lemma run_area_ops_refine:
  "list_all area_op_ok xs \<Longrightarrow> list_all vma_ok vs \<Longrightarrow>
    backing (fold run_area_op xs vs) = fold spec_area_op xs (backing vs) \<and> list_all vma_ok (fold run_area_op xs vs)"
  by (induction xs arbitrary: vs) (simp_all add: run_area_op_refines)

datatype region_op = Insert mmap_region | Forget usize usize | Reflag usize usize map_flags

fun region_op_ok :: "region_op \<Rightarrow> bool" where
  "region_op_ok (Insert r) \<longleftrightarrow> region_ok r"
| "region_op_ok (Forget s e) \<longleftrightarrow> s \<le> e"
| "region_op_ok (Reflag s e _) \<longleftrightarrow> s < e"

fun run_region_op :: "region_op \<Rightarrow> mmap_region list \<Rightarrow> mmap_region list" where
  "run_region_op (Insert r) rs = insert_mmap_region r rs"
| "run_region_op (Forget s e) rs = remove_mmap_region_range s e rs"
| "run_region_op (Reflag s e flags) rs = update_mmap_region_flags s e flags rs"

fun spec_region_op :: "region_op \<Rightarrow> (usize \<Rightarrow> region_view set) \<Rightarrow> usize \<Rightarrow> region_view set" where
  "spec_region_op (Insert r) B = (\<lambda>a. B a \<union> (if r_start r \<le> a \<and> a < r_end r then {region_at r a} else {}))"
| "spec_region_op (Forget s e) B = (\<lambda>a. if s \<le> a \<and> a < e then {} else B a)"
| "spec_region_op (Reflag s e flags) B = (\<lambda>a. if s \<le> a \<and> a < e then with_page_flags flags ` B a else B a)"

lemma run_region_op_refines:
  assumes "region_op_ok x" "list_all region_ok rs"
  shows "regions_at (run_region_op x rs) = spec_region_op x (regions_at rs) \<and> list_all region_ok (run_region_op x rs)"
proof (cases x)
  case (Insert r)
  then show ?thesis using insert_mmap_region_spec [OF assms(2), of r] assms(1) by (auto simp: fun_eq_iff within_def)
next
  case (Forget s e)
  then show ?thesis using remove_mmap_region_range_spec [OF assms(2), of s e] assms(1) by (auto simp: fun_eq_iff)
next
  case (Reflag s e flags)
  then show ?thesis using update_mmap_region_flags_spec [OF assms(2), of s e] assms(1) by (auto simp: fun_eq_iff)
qed

lemma run_region_ops_refine:
  "list_all region_op_ok xs \<Longrightarrow> list_all region_ok rs \<Longrightarrow>
    regions_at (fold run_region_op xs rs) = fold spec_region_op xs (regions_at rs) \<and> list_all region_ok (fold run_region_op xs rs)"
  by (induction xs arbitrary: rs) (simp_all add: run_region_op_refines)

lemma cover_Nil: "cover lo hi sem [] = (\<lambda>_. {})"
  by (simp add: fun_eq_iff)

section \<open>Properties\<close>

text \<open>
  C23: The vector of areas refines a map from addresses to what backs them: after any sequence of
  recorded, removed and protected ranges, with all the splitting and merging of areas, each
  address has exactly the flags, the kind (with its place in the image) and the laziness that
  the sequence gives it, and every area has its end no lower than its start.
\<close>

theorem areas_refine:
  assumes "list_all area_op_ok xs"
  shows "backing (fold run_area_op xs []) = fold spec_area_op xs (\<lambda>_. {}) \<and> list_all vma_ok (fold run_area_op xs [])"
  using run_area_ops_refine [OF assms, of "[]"] by (simp add: cover_Nil)

definition sample_ops :: "area_op list" where
  "sample_ops = [Record 0x1000 0x3000 READ Anonymous True, Record 0x3000 0x5000 READ Anonymous True, Remove 0x2000 0x4000, Protect 0x1000 0x2000 WRITE]"

theorem areas_refine_witness:
  "length (fold run_area_op sample_ops []) = 2 \<and> backing (fold run_area_op sample_ops []) 0x1800 = {(WRITE, Anonymous, True)} \<and>
    backing (fold run_area_op sample_ops []) 0x2800 = {}"
proof -
  have "list_all area_op_ok sample_ops" by (simp add: sample_ops_def)
  note r = areas_refine [OF this]
  have "fold spec_area_op sample_ops (\<lambda>_. {}) 0x1800 = {(WRITE, Anonymous, True)}" "fold spec_area_op sample_ops (\<lambda>_. {}) 0x2800 = {}"
    by (simp_all add: sample_ops_def with_flags_def)
  moreover have "length (fold run_area_op sample_ops []) = 2" by code_simp
  ultimately show ?thesis using r by (simp only:)
qed

text \<open>
  C24: The base that the search for a gap picks is page aligned, the range fits between the two
  limits and meets no area. It also lies below every area of the window: room between areas is
  never found, and the search fails when only such room is left.
\<close>

theorem top_down_gap:
  assumes "staircase vs" "lower < upper" "upper < usize_range" "upper mod PAGE_SIZE = 0" "0 < len" "len + PAGE_SIZE \<le> usize_range"
    "find_top_down_gap lower upper len vs = Some base"
  shows "base mod PAGE_SIZE = 0 \<and> lower \<le> base \<and> base + align_up len PAGE_SIZE \<le> upper \<and> len \<le> align_up len PAGE_SIZE \<and>
    (\<forall>v \<in> set vs. upper \<le> v_start v \<or> base + align_up len PAGE_SIZE \<le> v_start v \<or> v_end v \<le> lower)"
proof -
  note g = find_top_down_gap_eq [OF assms(1-6)] and al = align_up_spec [OF assms(5,6)]
  let ?low = "lowest_start lower upper upper (rev vs)" and ?n = "align_up len PAGE_SIZE"
  have b: "lower + ?n \<le> ?low" "base = ?low - ?n" using g(1) assms(7) by (auto split: if_splits)
  then have "base + ?n = ?low" by simp
  moreover have "base mod PAGE_SIZE = 0" using b(2) g(3) al(2) by (metis dvd_diff_nat mod_0_imp_dvd dvd_imp_mod_0)
  ultimately show ?thesis using g(2,4) al(1) b(1) by auto
qed

definition sample_areas :: "user_vma list" where
  "sample_areas = [\<lparr>v_start = 0x4000, v_end = 0x5000, v_flags = READ, v_kind = Anonymous, v_lazy = True\<rparr>,
     \<lparr>v_start = 0x9000, v_end = 0xa000, v_flags = READ, v_kind = Anonymous, v_lazy = True\<rparr>]"

theorem top_down_gap_witness:
  "find_top_down_gap 0x1000 0xa000 0x1800 sample_areas = Some 0x2000 \<and> 0x2000 + align_up 0x1800 PAGE_SIZE \<le> 0x4000"
proof -
  have f: "find_top_down_gap 0x1000 0xa000 0x1800 sample_areas = Some 0x2000" by code_simp
  have "staircase sample_areas" by (simp add: staircase_def sample_areas_def PAGE_SIZE_def PAGE_SHIFT_def usize_range_def)
  from top_down_gap [OF this _ _ _ _ _ f]
  have "\<forall>v \<in> set sample_areas. 0xa000 \<le> v_start v \<or> 0x2000 + align_up 0x1800 PAGE_SIZE \<le> v_start v \<or> v_end v \<le> 0x1000"
    by (simp add: PAGE_SIZE_def PAGE_SHIFT_def usize_range_def)
  then show ?thesis using f by (simp add: sample_areas_def)
qed

text \<open>
  C25: The regions a process mapped refine the same kind of map: after any sequence of inserted,
  removed and protected regions, with neighbours of continuous backing merged, each address has
  the page flags, the mmap flags and the place in the file that the sequence gives it, and no
  region is empty.
\<close>

theorem regions_refine:
  assumes "list_all region_op_ok xs"
  shows "regions_at (fold run_region_op xs []) = fold spec_region_op xs (\<lambda>_. {}) \<and> list_all region_ok (fold run_region_op xs [])"
  using run_region_ops_refine [OF assms, of "[]"] by (simp add: cover_Nil)

definition sample_region :: "usize \<Rightarrow> usize \<Rightarrow> mmap_region" where
  "sample_region s e = \<lparr>r_start = s, r_end = e, r_page_flags = READ, r_mmap_flags = 0x20, r_backing = SharedFile 7 s\<rparr>"

definition sample_region_ops :: "region_op list" where
  "sample_region_ops = [Insert (sample_region 0x2000 0x3000), Insert (sample_region 0x1000 0x2000), Forget 0x1000 0x1800]"

theorem regions_refine_witness:
  "length (fold run_region_op sample_region_ops []) = 1 \<and>
    regions_at (fold run_region_op sample_region_ops []) 0x2800 = {(READ, 0x20, SharedFile 7 0x2800)}"
proof -
  have "list_all region_op_ok sample_region_ops" by (simp add: sample_region_ops_def sample_region_def region_ok_def)
  note r = regions_refine [OF this]
  have "fold spec_region_op sample_region_ops (\<lambda>_. {}) 0x2800 = {(READ, 0x20, SharedFile 7 0x2800)}"
    by (simp add: sample_region_ops_def sample_region_def region_at_def saturating_add_def usize_range_def)
  moreover have "length (fold run_region_op sample_region_ops []) = 1" by code_simp
  ultimately show ?thesis using r by (simp only:)
qed



end
