(* ===== verification/Deadlines.thy ===== *)
theory Deadlines
  imports Std_Lib
begin

text \<open>
  Queues of deadlines. The interval timers of processes (\<open>process/itimer.rs\<close>) and the timer
  descriptors (\<open>fs/timerfd.rs\<close>) keep their armed timers in the same way, in a
  \<open>BTreeMap<u64, BTreeSet<u64>>\<close> from a deadline to the timers that expire then, with the first
  deadline published in an atomic, and serve it with the same loop: as long as the first
  deadline has passed, its entry is taken out and each of its timers is handled, which may put
  the timer back. The locale states what such a loop relies on, and that it ends with no
  deadline left that has passed.
\<close>

section \<open>The queue\<close>

text \<open>A \<open>BTreeSet\<close> is a \<open>BTreeMap\<close> to the unit type, as it is in \<open>alloc\<close>.\<close>

type_synonym deadlines = "(usize, (usize, unit) btree) btree"

definition dl_add :: "usize \<Rightarrow> usize \<Rightarrow> deadlines \<Rightarrow> deadlines" where
  "dl_add d i ds =
     bt_insert d (bt_insert i () (case bt_get ds d of None \<Rightarrow> [] | Some entries \<Rightarrow> entries)) ds"

definition dl_remove :: "usize \<Rightarrow> usize \<Rightarrow> deadlines \<Rightarrow> deadlines" where
  "dl_remove d i ds = (case bt_get ds d of None \<Rightarrow> ds
     | Some entries \<Rightarrow>
         let entries = bt_remove i entries
         in if entries = [] then bt_remove d ds else bt_insert d entries ds)"

text \<open>\<open>first_key_value().map(..).unwrap_or(u64::MAX)\<close>.\<close>

fun dl_next :: "deadlines \<Rightarrow> usize" where
  "dl_next [] = usize_range - 1"
| "dl_next ((d, _) # _) = d"

text \<open>The timers that are queued for a deadline; a queue has no empty entries.\<close>

definition ids_at :: "deadlines \<Rightarrow> usize \<Rightarrow> usize set" where
  "ids_at ds d = (case bt_get ds d of None \<Rightarrow> {} | Some entries \<Rightarrow> fst ` set entries)"

definition dl_ok :: "deadlines \<Rightarrow> bool" where
  "dl_ok ds \<longleftrightarrow> bt_ok ds \<and> (\<forall>(d, entries) \<in> set ds. bt_ok entries \<and> entries \<noteq> [])"

lemma dl_ok_Nil [simp]: "dl_ok []"
  by (simp add: dl_ok_def bt_ok_def)

lemma ids_at_Nil [simp]: "ids_at [] d = {}"
  by (simp add: ids_at_def)

lemma dl_ok_entry: "dl_ok ds \<Longrightarrow> bt_get ds d = Some entries \<Longrightarrow> bt_ok entries \<and> entries \<noteq> []"
  unfolding dl_ok_def by (auto dest!: map_of_SomeD)

lemma bt_insert_set: "set (bt_insert k v t) \<subseteq> insert (k, v) (set t)"
  by (induction k v t rule: bt_insert.induct) auto

lemma dl_ok_insert: "dl_ok ds \<Longrightarrow> bt_ok entries \<Longrightarrow> entries \<noteq> [] \<Longrightarrow> dl_ok (bt_insert d entries ds)"
  unfolding dl_ok_def using bt_insert_set [of d entries ds] by auto

lemma dl_ok_delete: "dl_ok ds \<Longrightarrow> dl_ok (bt_remove d ds)"
  unfolding dl_ok_def using bt_remove_ok [of ds d] by (auto simp: bt_remove_def)

lemma bt_insert_not_Nil [simp]: "bt_insert k v t \<noteq> []"
  by (induction k v t rule: bt_insert.induct) simp_all

lemma bt_remove_keys: "fst ` set (bt_remove k t) = fst ` set t - {k}"
  by (force simp: bt_remove_def)

lemma bt_insert_keys: "fst ` set (bt_insert k v t) = insert k (fst ` set t)"
  using bt_keys_insert [of k v t] by simp

lemma dl_add_ok [simp]: "dl_ok ds \<Longrightarrow> dl_ok (dl_add d i ds)"
  unfolding dl_add_def
  by (rule dl_ok_insert) (auto simp: bt_ok_def [of "[(i, ())]"] dest: dl_ok_entry split: option.split)

lemma dl_remove_ok [simp]: "dl_ok ds \<Longrightarrow> dl_ok (dl_remove d i ds)"
  unfolding dl_remove_def Let_def
  by (auto intro!: dl_ok_insert dl_ok_delete dest: dl_ok_entry split: option.split)

lemma ids_at_add: "dl_ok ds \<Longrightarrow> ids_at (dl_add d i ds) e = (if e = d then insert i (ids_at ds d) else ids_at ds e)"
  unfolding ids_at_def dl_add_def dl_ok_def by (auto simp: bt_insert_keys split: option.split)

lemma ids_at_remove: "dl_ok ds \<Longrightarrow> ids_at (dl_remove d i ds) e = (if e = d then ids_at ds d - {i} else ids_at ds e)"
proof -
  assume ok: "dl_ok ds"
  have "fst ` set entries - {i} = fst ` set (bt_remove i entries)" for entries :: "(usize, unit) btree"
    using bt_remove_keys [of i entries] by simp
  then show ?thesis
    using ok unfolding ids_at_def dl_remove_def dl_ok_def
    by (auto simp: Let_def split: option.split)
qed

lemma ids_at_delete: "ids_at (bt_remove d ds) e = (if e = d then {} else ids_at ds e)"
  by (auto simp: ids_at_def)

lemma ids_at_key: "dl_ok ds \<Longrightarrow> d \<in> fst ` set ds \<longleftrightarrow> ids_at ds d \<noteq> {}"
proof
  assume ok: "dl_ok ds" and "d \<in> fst ` set ds"
  then obtain entries where e: "bt_get ds d = Some entries"
    by (metis dom_map_of_conv_image_fst domD)
  show "ids_at ds d \<noteq> {}" using dl_ok_entry [OF ok e] e by (simp add: ids_at_def)
next
  assume "ids_at ds d \<noteq> {}"
  then show "d \<in> fst ` set ds" by (force simp: ids_at_def split: option.splits dest!: map_of_SomeD)
qed

text \<open>The published deadline has passed exactly when the deadline of some timer has.\<close>

lemma dl_next_due:
  assumes ok: "dl_ok ds" and now: "now < usize_range - 1"
  shows "dl_next ds \<le> now \<longleftrightarrow> (\<exists>d \<le> now. ids_at ds d \<noteq> {})"
proof (cases ds)
  case (Cons e es)
  obtain d entries where e: "e = (d, entries)" by force
  have first: "d \<le> k" if "k \<in> fst ` set ds" for k
    using ok that by (auto simp: Cons e dl_ok_def bt_ok_def)
  have "d \<in> fst ` set ds" by (simp add: Cons e)
  then have "dl_next ds = d" "ids_at ds d \<noteq> {}" using ids_at_key [OF ok] by (auto simp: Cons e)
  moreover have "d \<le> k" if "ids_at ds k \<noteq> {}" for k using first ids_at_key [OF ok] that by simp
  ultimately show ?thesis by (meson order.trans)
qed (use now in \<open>auto simp: ids_at_def\<close>)

section \<open>The loop\<close>

text \<open>\<open>for x in xs\<close>, with what the body pushes or wakes.\<close>

fun for_each :: "('x \<Rightarrow> 's \<Rightarrow> 'w list \<times> 's) \<Rightarrow> 'x list \<Rightarrow> 's \<Rightarrow> 'w list \<times> 's" where
  "for_each f [] s = ([], s)"
| "for_each f (x # xs) s = (let (ws, s1) = f x s; (vs, s2) = for_each f xs s1 in (ws @ vs, s2))"

partial_function (option) expire_loop ::
  "('s \<Rightarrow> deadlines) \<Rightarrow> (usize \<Rightarrow> 's \<Rightarrow> 's) \<Rightarrow> (usize \<Rightarrow> usize \<Rightarrow> 's \<Rightarrow> 'w list \<times> 's) \<Rightarrow> usize \<Rightarrow> 's \<Rightarrow> ('w list \<times> 's) option" where
  "expire_loop queue take_entry handle now s =
     (case queue s of [] \<Rightarrow> Some ([], s)
      | (d, entries) # _ \<Rightarrow>
          if d > now then Some ([], s)
          else
            let (ws, s1) = for_each (handle d) (map fst entries) (take_entry d s)
            in do { (vs, s2) \<leftarrow> expire_loop queue take_entry handle now s1; Some (ws @ vs, s2) })"

declare expire_loop.simps [code]

definition due_keys :: "usize \<Rightarrow> deadlines \<Rightarrow> usize set" where
  "due_keys now ds = {d \<in> fst ` set ds. d \<le> now}"

lemma finite_due_keys [simp]: "finite (due_keys now ds)"
  by (simp add: due_keys_def)

lemma due_keys_add: "now < d \<Longrightarrow> due_keys now (dl_add d i ds) = due_keys now ds"
  unfolding due_keys_def dl_add_def bt_insert_keys by auto

lemma due_keys_remove: "due_keys now (dl_remove d i ds) \<subseteq> due_keys now ds"
  unfolding due_keys_def dl_remove_def
  by (auto simp: Let_def bt_insert_keys bt_remove_keys split: option.splits if_splits dest: map_of_SomeD)
    (force dest: map_of_SomeD)

text \<open>
  \<open>inv d ids s\<close>: the queue of \<open>s\<close> agrees with the timers, but for the timers \<open>ids\<close>, which have
  the deadline \<open>d\<close> and were taken out to be handled. \<open>did s ws s'\<close> is whatever the work of the
  loop from \<open>s\<close> to \<open>s'\<close> means, with the output \<open>ws\<close>.
\<close>

locale expiry =
  fixes inv :: "usize \<Rightarrow> usize set \<Rightarrow> 's \<Rightarrow> bool" and queue :: "'s \<Rightarrow> deadlines" and take_entry :: "usize \<Rightarrow> 's \<Rightarrow> 's"
    and handle :: "usize \<Rightarrow> usize \<Rightarrow> 's \<Rightarrow> 'w list \<times> 's" and now :: usize and did :: "'s \<Rightarrow> 'w list \<Rightarrow> 's \<Rightarrow> bool"
  assumes inv_queue: "inv d ids s \<Longrightarrow> dl_ok (queue s)"
    and inv_all: "inv d {} s \<Longrightarrow> inv e {} s"
    and take_inv: "inv d {} s \<Longrightarrow> e \<le> now \<Longrightarrow> inv e (ids_at (queue s) e) (take_entry e s)"
    and take_queue: "queue (take_entry d s) = bt_remove d (queue s)"
    and handle_inv: "inv d ids s \<Longrightarrow> i \<in> ids \<Longrightarrow> d \<le> now \<Longrightarrow> inv d (ids - {i}) (snd (handle d i s))"
    and handle_queue: "inv d ids s \<Longrightarrow> i \<in> ids \<Longrightarrow> d \<le> now \<Longrightarrow> due_keys now (queue (snd (handle d i s))) \<subseteq> due_keys now (queue s)"
    and did_none: "did s [] s"
    and did_trans: "did s ws s1 \<Longrightarrow> did s1 vs s2 \<Longrightarrow> did s (ws @ vs) s2"
    and did_take: "did s ws s' \<longleftrightarrow> did (take_entry d s) ws s'"
    and did_handle: "inv d ids s \<Longrightarrow> i \<in> ids \<Longrightarrow> d \<le> now \<Longrightarrow> handle d i s = (ws, s') \<Longrightarrow> did s ws s'"
begin

lemma each_handled:
  assumes "inv d (set xs) s" "distinct xs" "d \<le> now" "for_each (handle d) xs s = (ws, s')"
  shows "inv d {} s' \<and> due_keys now (queue s') \<subseteq> due_keys now (queue s) \<and> did s ws s'"
  using assms
proof (induction xs arbitrary: s ws)
  case (Cons x xs)
  obtain s1 us where 1: "handle d x s = (us, s1)" by force
  obtain s2 vs where 2: "for_each (handle d) xs s1 = (vs, s2)" by force
  have eq: "ws = us @ vs" "s2 = s'" using Cons.prems(4) 1 2 by simp_all
  have x: "x \<in> set (x # xs)" "set (x # xs) - {x} = set xs" using Cons.prems(2) by auto
  have "inv d (set xs) s1" "due_keys now (queue s1) \<subseteq> due_keys now (queue s)" "did s us s1"
    using handle_inv [OF Cons.prems(1) x(1) Cons.prems(3)] handle_queue [OF Cons.prems(1) x(1) Cons.prems(3)]
      did_handle [OF Cons.prems(1) x(1) Cons.prems(3) 1] x(2) 1 by simp_all
  then show ?case using Cons.IH [of s1 vs] Cons.prems 2 eq did_trans [of s us s1 vs s2] by auto
qed (simp add: did_none)

lemma loop_returns:
  assumes "inv d {} s"
  shows "\<exists>ws s'. expire_loop queue take_entry handle now s = Some (ws, s') \<and> inv d {} s' \<and>
    due_keys now (queue s') = {} \<and> did s ws s'"
  using assms
proof (induction "card (due_keys now (queue s))" arbitrary: s d rule: less_induct)
  case less
  note ok = inv_queue [OF less.prems]
  show ?case
  proof (cases "queue s")
    case Nil
    then show ?thesis using less.prems did_none by (subst expire_loop.simps) (simp add: due_keys_def)
  next
    case (Cons e es)
    obtain k entries where e: "e = (k, entries)" by force
    have first: "k \<le> j" if "j \<in> fst ` set (queue s)" for j
      using ok that by (auto simp: Cons e dl_ok_def bt_ok_def)
    show ?thesis
    proof (cases "k \<le> now")
      case False
      then have "due_keys now (queue s) = {}" using first by (fastforce simp: due_keys_def)
      then show ?thesis using less.prems did_none False by (subst expire_loop.simps) (simp add: Cons e)
    next
      case True
      obtain s1 ws where 1: "for_each (handle k) (map fst entries) (take_entry k s) = (ws, s1)" by force
      have entry: "bt_ok entries" using ok by (simp add: Cons e dl_ok_def)
      have ids: "ids_at (queue s) k = set (map fst entries)" by (simp add: ids_at_def Cons e)
      note h = each_handled [OF take_inv [OF less.prems True, unfolded ids] bt_distinct [OF entry] True 1]
      have "due_keys now (queue s1) \<subseteq> due_keys now (queue s) - {k}"
        using h unfolding take_queue due_keys_def bt_remove_keys by blast
      moreover have "k \<in> due_keys now (queue s)" using True by (simp add: due_keys_def Cons e)
      ultimately have "card (due_keys now (queue s1)) < card (due_keys now (queue s))"
        by (intro psubset_card_mono) auto
      then obtain vs s2 where 2: "expire_loop queue take_entry handle now s1 = Some (vs, s2)" "inv k {} s2"
          "due_keys now (queue s2) = {}" "did s1 vs s2"
        using less.hyps h by blast
      have "expire_loop queue take_entry handle now s = Some (ws @ vs, s2)"
        using True 1 2 by (subst expire_loop.simps) (simp add: Cons e)
      moreover have "did s (ws @ vs) s2" using did_trans did_take h 2 by blast
      ultimately show ?thesis using 2 inv_all by blast
    qed
  qed
qed

end

end
