(* ===== verification/Itimer.thy ===== *)
theory Itimer
  imports Deadlines Signals
begin

text \<open>
  The interval timers of processes, \<open>aether-kernel/src/process/itimer.rs\<close>: the registry of
  timers by thread group, the queue of their deadlines, the published first deadline, and the
  expiry that queues \<open>SIGALRM\<close>. The time is an argument, as it is in the code.
\<close>

section \<open>The registry\<close>

record real_timer_state =
  rt_deadline_nanos :: "usize option"
  rt_interval_nanos :: usize

text \<open>The registry under its lock, and the atomic \<open>NEXT_REAL_TIMER_DEADLINE\<close>.\<close>

record real_timer_registry =
  rt_timers :: "(usize, real_timer_state) btree"
  rt_deadlines :: deadlines
  rt_next :: usize

definition rt_empty :: real_timer_registry where
  "rt_empty = \<lparr>rt_timers = [], rt_deadlines = [], rt_next = usize_range - 1\<rparr>"

definition publish_next_deadline :: "real_timer_registry \<Rightarrow> real_timer_registry" where
  "publish_next_deadline s = s\<lparr>rt_next := dl_next (rt_deadlines s)\<rparr>"

definition rt_remove_deadline :: "usize \<Rightarrow> usize \<Rightarrow> real_timer_registry \<Rightarrow> real_timer_registry" where
  "rt_remove_deadline tgid d s = s\<lparr>rt_deadlines := dl_remove d tgid (rt_deadlines s)\<rparr>"

definition rt_add_deadline :: "usize \<Rightarrow> usize \<Rightarrow> real_timer_registry \<Rightarrow> real_timer_registry" where
  "rt_add_deadline tgid d s = s\<lparr>rt_deadlines := dl_add d tgid (rt_deadlines s)\<rparr>"

definition rt_next_deadline :: "real_timer_registry \<Rightarrow> usize option" where
  "rt_next_deadline s = (if rt_next s = usize_range - 1 then None else Some (rt_next s))"

definition rt_deadline_due :: "usize \<Rightarrow> real_timer_registry \<Rightarrow> bool" where
  "rt_deadline_due current s = (case rt_next_deadline s of None \<Rightarrow> False | Some d \<Rightarrow> d \<le> current)"

definition rt_remaining :: "usize \<Rightarrow> real_timer_state \<Rightarrow> usize" where
  "rt_remaining now t = (case rt_deadline_nanos t of None \<Rightarrow> 0 | Some d \<Rightarrow> d - now)"

definition read_real_timer :: "usize \<Rightarrow> usize \<Rightarrow> real_timer_registry \<Rightarrow> usize \<times> usize" where
  "read_real_timer tgid now s = (case bt_get (rt_timers s) tgid of None \<Rightarrow> (0, 0)
     | Some t \<Rightarrow> (rt_remaining now t, rt_interval_nanos t))"

text \<open>Takes the deadline of a timer, if it has one, out of the queue.\<close>

definition rt_unqueue :: "usize \<Rightarrow> real_timer_state option \<Rightarrow> real_timer_registry \<Rightarrow> real_timer_registry" where
  "rt_unqueue tgid old s = (case old of None \<Rightarrow> s
     | Some t \<Rightarrow> (case rt_deadline_nanos t of None \<Rightarrow> s | Some d \<Rightarrow> rt_remove_deadline tgid d s))"

definition set_real_timer ::
  "usize \<Rightarrow> usize \<Rightarrow> usize \<Rightarrow> usize \<Rightarrow> real_timer_registry \<Rightarrow> (usize \<times> usize) \<times> real_timer_registry" where
  "set_real_timer tgid now v interval s =
     (let old = bt_get (rt_timers s) tgid;
          s1 = rt_unqueue tgid old s;
          new = \<lparr>rt_deadline_nanos = (if v \<noteq> 0 then Some (saturating_add now v) else None), rt_interval_nanos = interval\<rparr>;
          s2 = (if rt_deadline_nanos new = None \<and> rt_interval_nanos new = 0
                then s1\<lparr>rt_timers := bt_remove tgid (rt_timers s1)\<rparr>
                else
                  let s2 = (case rt_deadline_nanos new of None \<Rightarrow> s1 | Some d \<Rightarrow> rt_add_deadline tgid d s1)
                  in s2\<lparr>rt_timers := bt_insert tgid new (rt_timers s2)\<rparr>)
      in ((case old of None \<Rightarrow> (0, 0) | Some t \<Rightarrow> (rt_remaining now t, rt_interval_nanos t)), publish_next_deadline s2))"

definition thread_group_reaped :: "usize \<Rightarrow> real_timer_registry \<Rightarrow> real_timer_registry" where
  "thread_group_reaped tgid s =
     (let old = bt_get (rt_timers s) tgid;
          s1 = s\<lparr>rt_timers := bt_remove tgid (rt_timers s)\<rparr>
      in publish_next_deadline (rt_unqueue tgid old s1))"

section \<open>Expiry\<close>

text \<open>The next deadline is computed in 128 bits, where nothing wraps, and cut to 64.\<close>

definition rt_following :: "usize \<Rightarrow> usize \<Rightarrow> usize \<Rightarrow> usize" where
  "rt_following current d interval = min (d + ((current - d) div interval + 1) * interval) (usize_range - 1)"

definition rt_take_entry :: "usize \<Rightarrow> real_timer_registry \<Rightarrow> real_timer_registry" where
  "rt_take_entry d s = s\<lparr>rt_deadlines := bt_remove d (rt_deadlines s)\<rparr>"

text \<open>The body of the loop over the thread groups of an entry.\<close>

definition rt_expire_one ::
  "usize \<Rightarrow> usize \<Rightarrow> usize \<Rightarrow> real_timer_registry \<Rightarrow> (usize \<times> signal_info) list \<times> real_timer_registry" where
  "rt_expire_one current d tgid s = (case bt_get (rt_timers s) tgid of None \<Rightarrow> ([], s)
     | Some t \<Rightarrow>
         if rt_deadline_nanos t \<noteq> Some d then ([], s)
         else
           let s1 = (if rt_interval_nanos t = 0 then s\<lparr>rt_timers := bt_remove tgid (rt_timers s)\<rparr>
                     else
                       let following = rt_following current d (rt_interval_nanos t)
                       in rt_add_deadline tgid following (s\<lparr>rt_timers := bt_insert tgid
                            \<lparr>rt_deadline_nanos = Some following, rt_interval_nanos = rt_interval_nanos t\<rparr> (rt_timers s)\<rparr>))
           in ([(tgid, kernel_info SIGALRM 0)], s1))"

definition take_expired :: "usize \<Rightarrow> real_timer_registry \<Rightarrow> ((usize \<times> signal_info) list \<times> real_timer_registry) option" where
  "take_expired current s =
     do { (expired, s1) \<leftarrow> expire_loop rt_deadlines rt_take_entry (rt_expire_one current) current s;
          Some (expired, publish_next_deadline s1) }"

section \<open>The invariant\<close>

text \<open>The queue holds exactly the armed timers, but for those that the loop has in hand.\<close>

definition rt_armed :: "real_timer_registry \<Rightarrow> usize \<Rightarrow> usize \<Rightarrow> bool" where
  "rt_armed s i d \<longleftrightarrow> (\<exists>t. bt_get (rt_timers s) i = Some t \<and> rt_deadline_nanos t = Some d)"

definition rt_queued :: "usize \<Rightarrow> usize set \<Rightarrow> real_timer_registry \<Rightarrow> bool" where
  "rt_queued d ids s \<longleftrightarrow> bt_ok (rt_timers s) \<and> dl_ok (rt_deadlines s) \<and>
     (\<forall>e. ids_at (rt_deadlines s) e = {i. rt_armed s i e \<and> i \<notin> ids}) \<and> (\<forall>i \<in> ids. rt_armed s i d)"

definition rt_inv :: "real_timer_registry \<Rightarrow> bool" where
  "rt_inv s \<longleftrightarrow> rt_queued 0 {} s \<and> rt_next s = dl_next (rt_deadlines s)"

lemma rt_armed_update:
  "rt_armed (s\<lparr>rt_deadlines := ds\<rparr>) = rt_armed s"
  "rt_armed (s\<lparr>rt_next := n\<rparr>) = rt_armed s"
  "rt_armed (s\<lparr>rt_timers := bt_remove i (rt_timers s)\<rparr>) j d \<longleftrightarrow> j \<noteq> i \<and> rt_armed s j d"
  "bt_ok (rt_timers s) \<Longrightarrow>
     rt_armed (s\<lparr>rt_timers := bt_insert i t (rt_timers s)\<rparr>) j d \<longleftrightarrow> (if j = i then rt_deadline_nanos t = Some d else rt_armed s j d)"
  by (auto simp: rt_armed_def fun_eq_iff)

lemma rt_armed_unique: "rt_armed s i d \<Longrightarrow> rt_armed s i e \<Longrightarrow> d = e"
  by (auto simp: rt_armed_def)

lemma rt_queued_none: "rt_queued d {} s \<longleftrightarrow> rt_queued e {} s"
  by (simp add: rt_queued_def)

lemma rt_queued_publish [simp]: "rt_queued d ids (publish_next_deadline s) \<longleftrightarrow> rt_queued d ids s"
  by (simp add: rt_queued_def publish_next_deadline_def rt_armed_update)

lemma rt_inv_publish: "rt_queued d {} s \<Longrightarrow> rt_inv (publish_next_deadline s)"
  using rt_queued_none [of d s 0] by (simp add: rt_inv_def) (simp add: publish_next_deadline_def)

text \<open>A timer out of the queue and out of the registry can be put in with any deadline.\<close>

definition rt_without :: "usize \<Rightarrow> real_timer_registry \<Rightarrow> bool" where
  "rt_without i s \<longleftrightarrow> bt_ok (rt_timers s) \<and> dl_ok (rt_deadlines s) \<and>
     (\<forall>e. ids_at (rt_deadlines s) e = {j. rt_armed s j e \<and> j \<noteq> i})"

lemma rt_unqueue_without:
  assumes "rt_queued d {} s" "old = bt_get (rt_timers s) i"
  shows "rt_without i (rt_unqueue i old s)" "rt_timers (rt_unqueue i old s) = rt_timers s"
proof -
  have "rt_armed s i e \<longleftrightarrow> (\<exists>t. old = Some t \<and> rt_deadline_nanos t = Some e)" for e
    using assms(2) by (simp add: rt_armed_def)
  then show "rt_without i (rt_unqueue i old s)"
    using assms(1) unfolding rt_queued_def rt_without_def
    by (auto simp: rt_unqueue_def rt_remove_deadline_def rt_armed_update ids_at_remove split: option.split)
qed (simp add: rt_unqueue_def rt_remove_deadline_def split: option.split)

lemma rt_without_removed: "rt_without i s \<Longrightarrow> rt_queued d {} (s\<lparr>rt_timers := bt_remove i (rt_timers s)\<rparr>)"
  by (auto simp: rt_without_def rt_queued_def rt_armed_update)

lemma rt_without_inserted:
  assumes "rt_without i s"
  shows "rt_queued e {} (let s2 = (case rt_deadline_nanos t of None \<Rightarrow> s | Some d \<Rightarrow> rt_add_deadline i d s)
    in s2\<lparr>rt_timers := bt_insert i t (rt_timers s2)\<rparr>)"
proof (cases "rt_deadline_nanos t")
  case None
  then show ?thesis using assms by (auto simp: rt_without_def rt_queued_def rt_armed_update)
next
  case (Some d)
  have "rt_armed (rt_add_deadline i d s\<lparr>rt_timers := bt_insert i t (rt_timers s)\<rparr>) j k \<longleftrightarrow> (if j = i then k = d else rt_armed s j k)" for j k
    using assms Some by (auto simp: rt_add_deadline_def rt_armed_def rt_without_def)
  moreover have "rt_timers (rt_add_deadline i d s) = rt_timers s" "rt_deadlines (rt_add_deadline i d s) = dl_add d i (rt_deadlines s)"
    by (simp_all add: rt_add_deadline_def)
  ultimately show ?thesis using assms Some unfolding rt_without_def rt_queued_def by (auto simp: ids_at_add)
qed

lemma rt_empty_inv [simp]: "rt_inv rt_empty"
  by (simp add: rt_inv_def rt_queued_def rt_empty_def rt_armed_def bt_ok_def)

lemma set_real_timer_inv:
  assumes "rt_inv s"
  shows "rt_inv (snd (set_real_timer i now v interval s))"
proof -
  have q: "rt_queued 0 {} s" using assms by (simp add: rt_inv_def)
  note w = rt_unqueue_without(1) [OF q refl, of i]
  show ?thesis
    using rt_without_removed [OF w, of 0] rt_without_inserted [OF w, of 0 "\<lparr>rt_deadline_nanos = None, rt_interval_nanos = interval\<rparr>"]
      rt_without_inserted [OF w, of 0 "\<lparr>rt_deadline_nanos = Some (saturating_add now v), rt_interval_nanos = interval\<rparr>"]
    by (simp add: set_real_timer_def Let_def rt_inv_publish [of 0])
qed

lemma thread_group_reaped_inv: "rt_inv s \<Longrightarrow> rt_inv (thread_group_reaped i s)"
proof -
  assume "rt_inv s"
  then have q: "rt_queued 0 {} s" by (simp add: rt_inv_def)
  let ?old = "bt_get (rt_timers s) i"
  have "rt_unqueue i ?old (s\<lparr>rt_timers := bt_remove i (rt_timers s)\<rparr>) =
      rt_unqueue i ?old s\<lparr>rt_timers := bt_remove i (rt_timers (rt_unqueue i ?old s))\<rparr>"
    by (simp add: rt_unqueue_def rt_remove_deadline_def split: option.split)
  then show ?thesis
    using rt_without_removed [OF rt_unqueue_without(1) [OF q refl]]
    by (simp add: thread_group_reaped_def Let_def rt_inv_publish [of 0])
qed

section \<open>What expiry does\<close>

text \<open>What becomes of a timer that has expired, and what one pass means for each timer.\<close>

definition rt_due :: "usize \<Rightarrow> real_timer_state option \<Rightarrow> bool" where
  "rt_due current t \<longleftrightarrow> (\<exists>d \<le> current. Option.bind t rt_deadline_nanos = Some d)"

fun rt_renewed :: "usize \<Rightarrow> real_timer_state option \<Rightarrow> real_timer_state option" where
  "rt_renewed current None = None"
| "rt_renewed current (Some t) = (if rt_interval_nanos t = 0 then None
     else Some \<lparr>rt_deadline_nanos = map_option (\<lambda>d. rt_following current d (rt_interval_nanos t)) (rt_deadline_nanos t),
                rt_interval_nanos = rt_interval_nanos t\<rparr>)"

definition alarms :: "usize \<Rightarrow> (usize \<times> signal_info) list \<Rightarrow> (usize \<times> signal_info) list" where
  "alarms i ws = filter (\<lambda>w. fst w = i) ws"

definition rt_did_to :: "usize \<Rightarrow> usize \<Rightarrow> real_timer_state option \<Rightarrow> (usize \<times> signal_info) list \<Rightarrow> real_timer_state option \<Rightarrow> bool" where
  "rt_did_to current i t ws t' \<longleftrightarrow> t' = t \<and> alarms i ws = [] \<or>
     rt_due current t \<and> \<not> rt_due current t' \<and> t' = rt_renewed current t \<and> alarms i ws = [(i, kernel_info SIGALRM 0)]"

definition rt_did :: "usize \<Rightarrow> real_timer_registry \<Rightarrow> (usize \<times> signal_info) list \<Rightarrow> real_timer_registry \<Rightarrow> bool" where
  "rt_did current s ws s' \<longleftrightarrow> (\<forall>i. rt_did_to current i (bt_get (rt_timers s) i) ws (bt_get (rt_timers s') i))"

lemma rt_following_late:
  assumes "d \<le> current" "current < usize_range - 1" "0 < interval"
  shows "current < rt_following current d interval"
proof -
  have "current - d < ((current - d) div interval + 1) * interval"
    using assms(3) by (metis Suc_eq_plus1 dividend_less_div_times mult.commute mult_Suc_right add.commute)
  then show ?thesis using assms by (auto simp: rt_following_def)
qed

lemma rt_did_to_trans: "rt_did_to current i t ws t1 \<Longrightarrow> rt_did_to current i t1 vs t2 \<Longrightarrow> rt_did_to current i t (ws @ vs) t2"
  by (auto simp: rt_did_to_def alarms_def)

lemma rt_did_trans: "rt_did current s ws s1 \<Longrightarrow> rt_did current s1 vs s2 \<Longrightarrow> rt_did current s (ws @ vs) s2"
  unfolding rt_did_def using rt_did_to_trans by blast

lemma rt_take_queued:
  "rt_queued d {} s \<Longrightarrow> rt_queued e (ids_at (rt_deadlines s) e) (rt_take_entry e s)"
  unfolding rt_queued_def rt_take_entry_def by (auto simp: rt_armed_update ids_at_delete intro: dl_ok_delete dest: rt_armed_unique)

definition rt_put_back :: "usize \<Rightarrow> usize \<Rightarrow> usize \<Rightarrow> real_timer_state \<Rightarrow> real_timer_registry \<Rightarrow> real_timer_registry" where
  "rt_put_back current d i t s =
     (let following = rt_following current d (rt_interval_nanos t)
      in s\<lparr>rt_timers := bt_insert i \<lparr>rt_deadline_nanos = Some following, rt_interval_nanos = rt_interval_nanos t\<rparr> (rt_timers s),
           rt_deadlines := dl_add following i (rt_deadlines s)\<rparr>)"

lemma rt_expire_oneE:
  assumes "rt_queued d ids s" "i \<in> ids"
  obtains (once) t where "bt_get (rt_timers s) i = Some t" "rt_deadline_nanos t = Some d" "rt_interval_nanos t = 0"
    "rt_expire_one current d i s = ([(i, kernel_info SIGALRM 0)], s\<lparr>rt_timers := bt_remove i (rt_timers s)\<rparr>)"
  | (again) t where "bt_get (rt_timers s) i = Some t" "rt_deadline_nanos t = Some d" "0 < rt_interval_nanos t"
    "rt_expire_one current d i s = ([(i, kernel_info SIGALRM 0)], rt_put_back current d i t s)"
proof -
  obtain t where t: "bt_get (rt_timers s) i = Some t" "rt_deadline_nanos t = Some d"
    using assms by (auto simp: rt_queued_def rt_armed_def)
  show thesis
    using once [OF t] again [OF t] t by (auto simp: rt_expire_one_def rt_add_deadline_def rt_put_back_def Let_def split: if_splits)
qed

lemma rt_expire_one_queued:
  assumes q: "rt_queued d ids s" and i: "i \<in> ids"
  shows "rt_queued d (ids - {i}) (snd (rt_expire_one current d i s))"
  using q i
proof (cases rule: rt_expire_oneE [OF q i, where current = current, case_names once again])
  case (once t)
  then show ?thesis using q i unfolding rt_queued_def by (auto simp: rt_armed_update)
next
  case (again t)
  let ?s = "rt_put_back current d i t s" and ?e = "rt_following current d (rt_interval_nanos t)"
  have "rt_armed ?s j e \<longleftrightarrow> (if j = i then e = ?e else rt_armed s j e)" for j e
    using q by (auto simp: rt_put_back_def rt_armed_def rt_queued_def Let_def)
  moreover have "rt_deadlines ?s = dl_add ?e i (rt_deadlines s)" "bt_ok (rt_timers s) \<Longrightarrow> bt_ok (rt_timers ?s)"
    by (simp_all add: rt_put_back_def Let_def)
  ultimately show ?thesis using q i again(4) unfolding rt_queued_def by (auto simp: ids_at_add)
qed

lemma rt_expire_one_did:
  assumes q: "rt_queued d ids s" and i: "i \<in> ids"
    and d: "d \<le> current" "current < usize_range - 1" and e: "rt_expire_one current d i s = (ws, s')"
  shows "rt_did current s ws s'"
  using q i
proof (cases rule: rt_expire_oneE [OF q i, where current = current, case_names once again])
  case (once t)
  have "alarms j ws = (if j = i then [(i, kernel_info SIGALRM 0)] else [])" for j
    using once(4) e by (simp add: alarms_def)
  moreover have "bt_get (rt_timers s') = (bt_get (rt_timers s))(i := None)" using once(4) e by auto
  ultimately show ?thesis using once d by (simp add: rt_did_def rt_did_to_def rt_due_def)
next
  case (again t)
  have "alarms j ws = (if j = i then [(i, kernel_info SIGALRM 0)] else [])" for j
    using again(4) e by (simp add: alarms_def)
  moreover have "bt_get (rt_timers s') = (bt_get (rt_timers s))(i \<mapsto>
      \<lparr>rt_deadline_nanos = Some (rt_following current d (rt_interval_nanos t)), rt_interval_nanos = rt_interval_nanos t\<rparr>)"
    using again(4) e q by (auto simp: rt_put_back_def Let_def rt_queued_def)
  ultimately show ?thesis
    using again d rt_following_late [OF d again(3)] by (simp add: rt_did_def rt_did_to_def rt_due_def)
qed

lemma rt_expire_one_queue:
  assumes q: "rt_queued d ids s" and i: "i \<in> ids" and d: "d \<le> current" "current < usize_range - 1"
  shows "due_keys current (rt_deadlines (snd (rt_expire_one current d i s))) \<subseteq> due_keys current (rt_deadlines s)"
  using q i
  by (cases rule: rt_expire_oneE [OF q i, where current = current, case_names once again])
    (simp_all add: rt_put_back_def Let_def due_keys_add rt_following_late [OF d])

interpretation real: expiry "\<lambda>d ids s. rt_queued d ids s \<and> current < usize_range - 1" rt_deadlines rt_take_entry
  "rt_expire_one current" current "rt_did current" for current
proof unfold_locales
  show "rt_did current s [] s" for s by (simp add: rt_did_def rt_did_to_def alarms_def)
  show "rt_did current s ws s' = rt_did current (rt_take_entry d s) ws s'" for s ws s' d
    by (simp add: rt_did_def rt_take_entry_def)
  show "rt_deadlines (rt_take_entry d s) = bt_remove d (rt_deadlines s)" for d s by (simp add: rt_take_entry_def)
  show "rt_queued d ids s \<and> current < usize_range - 1 \<Longrightarrow> dl_ok (rt_deadlines s)" for d ids s by (simp add: rt_queued_def)
  show "rt_queued d {} s \<and> current < usize_range - 1 \<Longrightarrow> rt_queued e {} s \<and> current < usize_range - 1" for d e s
    using rt_queued_none by blast
  show "rt_did current s ws s1 \<Longrightarrow> rt_did current s1 vs s2 \<Longrightarrow> rt_did current s (ws @ vs) s2" for s ws s1 vs s2
    by (rule rt_did_trans)
qed (auto intro: rt_take_queued rt_expire_one_queued rt_expire_one_did dest: rt_expire_one_queue [THEN subsetD])

text \<open>A pass returns, with the invariant and with no timer left that has expired.\<close>

lemma take_expired_returns:
  assumes "rt_inv s" "current < usize_range - 1"
  shows "\<exists>ws s'. take_expired current s = Some (ws, s') \<and> rt_inv s' \<and> rt_did current s ws s' \<and>
    (\<forall>i. \<not> rt_due current (bt_get (rt_timers s') i))"
proof -
  obtain ws s' where e: "expire_loop rt_deadlines rt_take_entry (rt_expire_one current) current s = Some (ws, s')"
      "rt_queued 0 {} s'" "due_keys current (rt_deadlines s') = {}" "rt_did current s ws s'"
    using real.loop_returns [of 0 s current] assms by (auto simp: rt_inv_def)
  have "\<not> rt_due current (bt_get (rt_timers s') i)" for i
  proof
    assume "rt_due current (bt_get (rt_timers s') i)"
    then obtain d where d: "d \<le> current" "rt_armed s' i d"
      by (cases "bt_get (rt_timers s') i") (auto simp: rt_due_def rt_armed_def)
    then have "i \<in> ids_at (rt_deadlines s') d" using e(2) by (simp add: rt_queued_def)
    then have "d \<in> due_keys current (rt_deadlines s')"
      using ids_at_key [of "rt_deadlines s'" d] e(2) d(1) by (auto simp: due_keys_def rt_queued_def)
    then show False using e(3) by simp
  qed
  moreover have "rt_did current s ws (publish_next_deadline s')" "rt_timers (publish_next_deadline s') = rt_timers s'"
    using e(4) by (simp_all add: rt_did_def publish_next_deadline_def)
  ultimately show ?thesis using e rt_inv_publish [OF e(2)] by (simp add: take_expired_def)
qed

text \<open>The test of the run loop: a pass is due exactly when the timer of some process is.\<close>

lemma rt_deadline_due_iff:
  assumes "rt_inv s" "current < usize_range - 1"
  shows "rt_deadline_due current s \<longleftrightarrow> (\<exists>i. rt_due current (bt_get (rt_timers s) i))"
proof -
  have due: "rt_due current (bt_get (rt_timers s) i) \<longleftrightarrow> (\<exists>d \<le> current. rt_armed s i d)" for i
    by (cases "bt_get (rt_timers s) i") (auto simp: rt_due_def rt_armed_def)
  have ok: "dl_ok (rt_deadlines s)" "\<And>d. ids_at (rt_deadlines s) d = {i. rt_armed s i d}"
    using assms by (simp_all add: rt_inv_def rt_queued_def)
  have "rt_deadline_due current s \<longleftrightarrow> dl_next (rt_deadlines s) \<le> current"
    using assms by (auto simp: rt_deadline_due_def rt_next_deadline_def rt_inv_def)
  then show ?thesis unfolding due dl_next_due [OF ok(1) assms(2)] ok(2) by blast
qed

lemma alarm_iff_due:
  assumes "rt_did current s ws s'" "\<forall>i. \<not> rt_due current (bt_get (rt_timers s') i)"
  shows "alarms i ws = (if rt_due current (bt_get (rt_timers s) i) then [(i, kernel_info SIGALRM 0)] else [])"
    and "bt_get (rt_timers s') i = (if rt_due current (bt_get (rt_timers s) i)
      then rt_renewed current (bt_get (rt_timers s) i) else bt_get (rt_timers s) i)"
  using assms(1) [unfolded rt_did_def rt_did_to_def, rule_format, of i] assms(2) [rule_format, of i] by (auto split: if_splits)

section \<open>Runs\<close>

inductive rt_reachable :: "real_timer_registry \<Rightarrow> bool" where
  rt_start: "rt_reachable rt_empty"
| rt_set: "rt_reachable s \<Longrightarrow> rt_reachable (snd (set_real_timer tgid now v interval s))"
| rt_reaped: "rt_reachable s \<Longrightarrow> rt_reachable (thread_group_reaped tgid s)"
| rt_expired: "rt_reachable s \<Longrightarrow> current < usize_range - 1 \<Longrightarrow> take_expired current s = Some (ws, s') \<Longrightarrow> rt_reachable s'"

lemma rt_reachable_inv: "rt_reachable s \<Longrightarrow> rt_inv s"
proof (induction rule: rt_reachable.induct)
  case (rt_expired s current ws s')
  then show ?case using take_expired_returns [OF rt_expired.IH rt_expired.hyps(2)] by auto
qed (simp_all add: set_real_timer_inv thread_group_reaped_inv)

end
