(* ===== verification/Timerfd.thy ===== *)
theory Timerfd
  imports Deadlines Wait_Queue Errno
begin

text \<open>
  Timer descriptors, \<open>aether-kernel/src/fs/timerfd.rs\<close>: the files, the registry with a queue of
  deadlines for each class of clocks, the published next deadlines, and the pass that wakes the
  waiters of expired timers. The readings of the clocks are arguments. The registry reaches a
  file through a weak reference that is gone once the file is dropped; here it holds the file.
\<close>

unbundle bit_operations_syntax

section \<open>Times\<close>

definition saturating_mul :: "usize \<Rightarrow> usize \<Rightarrow> usize" where
  "saturating_mul a b = min (a * b) (usize_range - 1)"

text \<open>\<open>i64\<close> values are words read as signed.\<close>

record linux_timespec =
  tv_sec :: "64 word"
  tv_nsec :: "64 word"

definition timespec_validate :: "linux_timespec \<Rightarrow> (sys_err, linux_timespec) result" where
  "timespec_validate t =
     (if sint (tv_sec t) < 0 \<or> \<not> (0 \<le> sint (tv_nsec t) \<and> sint (tv_nsec t) < 1000000000) then Err (Base EInval) else Ok t)"

definition timespec_total_nanos :: "linux_timespec \<Rightarrow> (sys_err, usize) result" where
  "timespec_total_nanos t = (case timespec_validate t of Err e \<Rightarrow> Err e
     | Ok _ \<Rightarrow> Ok (saturating_add (saturating_mul (unat (tv_sec t)) 1000000000) (unat (tv_nsec t))))"

definition ns_to_timespec :: "usize \<Rightarrow> linux_timespec" where
  "ns_to_timespec total_ns = \<lparr>tv_sec = of_nat (total_ns div 1000000000), tv_nsec = of_nat (total_ns mod 1000000000)\<rparr>"

record linux_itimer_spec =
  it_interval :: linux_timespec
  it_value :: linux_timespec

text \<open>What \<open>read_from\<close> makes of the bytes of user memory, and the bytes that \<open>write_to\<close> stores there.\<close>

definition itimer_spec_from :: "byte list \<Rightarrow> (sys_err, linux_itimer_spec) result" where
  "itimer_spec_from bytes =
     (if length bytes \<noteq> 32 then Err (Base EFault)
      else
        case timespec_validate \<lparr>tv_sec = of_le_bytes (take 8 bytes), tv_nsec = of_le_bytes (take 8 (drop 8 bytes))\<rparr> of
          Err e \<Rightarrow> Err e
        | Ok interval \<Rightarrow>
            (case timespec_validate \<lparr>tv_sec = of_le_bytes (take 8 (drop 16 bytes)), tv_nsec = of_le_bytes (take 8 (drop 24 bytes))\<rparr> of
               Err e \<Rightarrow> Err e
             | Ok v \<Rightarrow> Ok \<lparr>it_interval = interval, it_value = v\<rparr>))"

definition itimer_spec_bytes :: "linux_itimer_spec \<Rightarrow> byte list" where
  "itimer_spec_bytes s = le_bytes 8 (tv_sec (it_interval s)) @ le_bytes 8 (tv_nsec (it_interval s)) @
     le_bytes 8 (tv_sec (it_value s)) @ le_bytes 8 (tv_nsec (it_value s))"

definition interval_ns :: "linux_itimer_spec \<Rightarrow> (sys_err, usize) result" where
  "interval_ns s = timespec_total_nanos (it_interval s)"

definition value_ns :: "linux_itimer_spec \<Rightarrow> (sys_err, usize) result" where
  "value_ns s = timespec_total_nanos (it_value s)"

section \<open>Clocks\<close>

datatype timerfd_clock = Realtime | Monotonic | Boottime | RealtimeAlarm | BoottimeAlarm

datatype dl_class = MonotonicClass | RealtimeClass

fun deadline_class :: "timerfd_clock \<Rightarrow> dl_class" where
  "deadline_class Realtime = RealtimeClass"
| "deadline_class RealtimeAlarm = RealtimeClass"
| "deadline_class Monotonic = MonotonicClass"
| "deadline_class Boottime = MonotonicClass"
| "deadline_class BoottimeAlarm = MonotonicClass"

text \<open>One reading of the clocks of the machine: \<open>monotonic_nanos\<close> and \<open>realtime_nanos\<close>.\<close>

record clocks =
  ck_monotonic :: usize
  ck_seconds :: "64 word"
  ck_nanos :: "32 word"

definition realtime_ns :: "clocks \<Rightarrow> usize" where
  "realtime_ns ck = saturating_add (saturating_mul (unat (ck_seconds ck)) 1000000000) (unat (ck_nanos ck))"

fun class_now :: "clocks \<Rightarrow> dl_class \<Rightarrow> usize" where
  "class_now ck MonotonicClass = ck_monotonic ck"
| "class_now ck RealtimeClass = realtime_ns ck"

definition current_time_ns :: "clocks \<Rightarrow> timerfd_clock \<Rightarrow> usize" where
  "current_time_ns ck clock = class_now ck (deadline_class clock)"

definition parse_timerfd_clock :: "32 word \<Rightarrow> (sys_err, timerfd_clock) result" where
  "parse_timerfd_clock clock_id =
     (let n = scast clock_id :: 64 word
      in if n = 0 then Ok Realtime else if n = 1 then Ok Monotonic else if n = 7 then Ok Boottime
         else if n = 8 then Ok RealtimeAlarm else if n = 9 then Ok BoottimeAlarm else Err (Base EInval))"

definition TFD_TIMER_ABSTIME :: "64 word" where
  "TFD_TIMER_ABSTIME = 0x1"

definition TFD_TIMER_CANCEL_ON_SET :: "64 word" where
  "TFD_TIMER_CANCEL_ON_SET = 0x2"

section \<open>Files and the registry\<close>

record timerfd_state =
  ts_interval :: usize
  ts_expires :: usize
  ts_ticks :: usize
  ts_cancel_on_set :: bool

record timerfd_file =
  tf_id :: usize
  tf_clock :: timerfd_clock
  tf_inner :: timerfd_state
  tf_version :: usize
  tf_waiters :: wait_queue

record timerfd_registry =
  tr_next_id :: usize
  tr_timers :: "(usize, timerfd_file) btree"
  tr_monotonic :: deadlines
  tr_realtime :: deadlines
  next_monotonic_deadline :: usize
  next_realtime_deadline :: usize

definition registry_new :: timerfd_registry where
  "registry_new = \<lparr>tr_next_id = 1, tr_timers = [], tr_monotonic = [], tr_realtime = [],
     next_monotonic_deadline = usize_range - 1, next_realtime_deadline = usize_range - 1\<rparr>"

fun deadlines_of :: "dl_class \<Rightarrow> timerfd_registry \<Rightarrow> deadlines" where
  "deadlines_of MonotonicClass w = tr_monotonic w"
| "deadlines_of RealtimeClass w = tr_realtime w"

fun set_deadlines :: "dl_class \<Rightarrow> deadlines \<Rightarrow> timerfd_registry \<Rightarrow> timerfd_registry" where
  "set_deadlines MonotonicClass ds w = w\<lparr>tr_monotonic := ds\<rparr>"
| "set_deadlines RealtimeClass ds w = w\<lparr>tr_realtime := ds\<rparr>"

definition refresh_next_deadlines :: "timerfd_registry \<Rightarrow> timerfd_registry" where
  "refresh_next_deadlines w =
     w\<lparr>next_monotonic_deadline := dl_next (tr_monotonic w), next_realtime_deadline := dl_next (tr_realtime w)\<rparr>"

definition insert_deadline :: "dl_class \<Rightarrow> usize \<Rightarrow> usize \<Rightarrow> timerfd_registry \<Rightarrow> timerfd_registry" where
  "insert_deadline c d i w = refresh_next_deadlines (set_deadlines c (dl_add d i (deadlines_of c w)) w)"

definition remove_deadline :: "dl_class \<Rightarrow> usize \<Rightarrow> usize \<Rightarrow> timerfd_registry \<Rightarrow> timerfd_registry" where
  "remove_deadline c d i w = refresh_next_deadlines (set_deadlines c (dl_remove d i (deadlines_of c w)) w)"

definition allocate_id :: "timerfd_registry \<Rightarrow> usize \<times> timerfd_registry" where
  "allocate_id w = (tr_next_id w, w\<lparr>tr_next_id := saturating_add (tr_next_id w) 1\<rparr>)"

text \<open>Stores a file back; also \<open>insert_timer\<close>.\<close>

definition put_timer :: "timerfd_file \<Rightarrow> timerfd_registry \<Rightarrow> timerfd_registry" where
  "put_timer f w = w\<lparr>tr_timers := bt_insert (tf_id f) f (tr_timers w)\<rparr>"

definition remove_timer :: "usize \<Rightarrow> timerfd_registry \<Rightarrow> timerfd_registry" where
  "remove_timer i w = w\<lparr>tr_timers := bt_remove i (tr_timers w)\<rparr>"

definition timerfd_create :: "timerfd_clock \<Rightarrow> timerfd_registry \<Rightarrow> usize \<times> timerfd_registry" where
  "timerfd_create clock w =
     (let (i, w1) = allocate_id w
      in (i, put_timer \<lparr>tf_id = i, tf_clock = clock,
           tf_inner = \<lparr>ts_interval = 0, ts_expires = 0, ts_ticks = 0, ts_cancel_on_set = False\<rparr>,
           tf_version = 1, tf_waiters = wq_new\<rparr> w1))"

definition tf_bump :: "timerfd_file \<Rightarrow> timerfd_file" where
  "tf_bump f = f\<lparr>tf_version := wadd (tf_version f) 1\<rparr>"

definition tf_notify :: "poll_events \<Rightarrow> timerfd_file \<Rightarrow> wakes \<times> timerfd_file" where
  "tf_notify e f = (let (ws, q) = wq_notify e (tf_waiters f) in (ws, f\<lparr>tf_waiters := q\<rparr>))"

section \<open>Operations\<close>

definition refresh_due_locked ::
  "usize \<Rightarrow> timerfd_clock \<Rightarrow> timerfd_state \<Rightarrow> usize \<Rightarrow> timerfd_registry \<Rightarrow> bool \<times> timerfd_state \<times> timerfd_registry" where
  "refresh_due_locked i clock s now w =
     (if ts_expires s = 0 \<or> now < ts_expires s then (False, s, w)
      else
        let c = deadline_class clock; w1 = remove_deadline c (ts_expires s) i w
        in if ts_interval s = 0 then (True, s\<lparr>ts_ticks := saturating_add (ts_ticks s) 1, ts_expires := 0\<rparr>, w1)
           else
             let delta = now - ts_expires s;
                 periods = wadd (delta div ts_interval s) 1;
                 s1 = s\<lparr>ts_ticks := saturating_add (ts_ticks s) periods,
                        ts_expires := saturating_add (ts_expires s) (saturating_mul periods (ts_interval s))\<rparr>
             in (True, s1, insert_deadline c (ts_expires s1) i w1))"

text \<open>The operations of a file find it by its number; there is no operation on a dropped file.\<close>

definition refresh_due :: "clocks \<Rightarrow> usize \<Rightarrow> timerfd_registry \<Rightarrow> (bool \<times> timerfd_registry) option" where
  "refresh_due ck i w = do {
     f \<leftarrow> bt_get (tr_timers w) i;
     let (due, s, w1) = refresh_due_locked (tf_id f) (tf_clock f) (tf_inner f) (current_time_ns ck (tf_clock f)) w;
     Some (due, put_timer (f\<lparr>tf_inner := s\<rparr>) w1) }"

definition tf_spec :: "usize \<Rightarrow> timerfd_state \<Rightarrow> linux_itimer_spec" where
  "tf_spec now s = \<lparr>it_interval = ns_to_timespec (ts_interval s), it_value = ns_to_timespec (ts_expires s - now)\<rparr>"

definition get_time :: "clocks \<Rightarrow> usize \<Rightarrow> timerfd_registry \<Rightarrow> (linux_itimer_spec \<times> timerfd_registry) option" where
  "get_time ck i w = do {
     f \<leftarrow> bt_get (tr_timers w) i;
     let now = current_time_ns ck (tf_clock f);
     let (_, s, w1) = refresh_due_locked (tf_id f) (tf_clock f) (tf_inner f) now w;
     Some (tf_spec now s, put_timer (f\<lparr>tf_inner := s\<rparr>) w1) }"

text \<open>The part of \<open>set_time\<close> under the locks.\<close>

definition set_time_locked ::
  "usize \<Rightarrow> timerfd_clock \<Rightarrow> usize \<Rightarrow> usize \<Rightarrow> usize \<Rightarrow> bool \<Rightarrow> bool \<Rightarrow> timerfd_state \<Rightarrow> timerfd_registry \<Rightarrow>
     linux_itimer_spec \<times> timerfd_state \<times> timerfd_registry" where
  "set_time_locked i clock now interval v absolute cancel_on_set s0 w0 =
     (let c = deadline_class clock;
          (_, s1, w1) = refresh_due_locked i clock s0 now w0;
          old = tf_spec now s1;
          w2 = (if ts_expires s1 \<noteq> 0 then remove_deadline c (ts_expires s1) i w1 else w1);
          s2 = \<lparr>ts_interval = interval,
                ts_expires = (if v = 0 then 0 else if absolute then v else saturating_add now v),
                ts_ticks = 0, ts_cancel_on_set = cancel_on_set\<rparr>
      in if ts_expires s2 \<noteq> 0 then
           if ts_expires s2 \<le> now then (old, snd (refresh_due_locked i clock s2 now w2))
           else (old, s2, insert_deadline c (ts_expires s2) i w2)
         else (old, s2, w2))"

definition set_time ::
  "clocks \<Rightarrow> usize \<Rightarrow> 64 word \<Rightarrow> linux_itimer_spec \<Rightarrow> timerfd_registry \<Rightarrow>
     ((sys_err, linux_itimer_spec) result \<times> wakes \<times> timerfd_registry) option" where
  "set_time ck i flags spec w = do {
     f \<leftarrow> bt_get (tr_timers w) i;
     Some (case interval_ns spec of Err e \<Rightarrow> (Err e, [], w)
       | Ok interval \<Rightarrow> (case value_ns spec of Err e \<Rightarrow> (Err e, [], w)
       | Ok v \<Rightarrow>
           let absolute = (flags AND TFD_TIMER_ABSTIME \<noteq> 0);
               cancel_on_set = (flags AND TFD_TIMER_CANCEL_ON_SET \<noteq> 0)
           in if cancel_on_set \<and> (\<not> absolute \<or> tf_clock f \<notin> {Realtime, RealtimeAlarm}) then (Err (Base EInval), [], w)
              else
                let now = current_time_ns ck (tf_clock f);
                    (old, s, w1) = set_time_locked (tf_id f) (tf_clock f) now interval v absolute cancel_on_set (tf_inner f) w;
                    f1 = tf_bump (f\<lparr>tf_inner := s\<rparr>);
                    (ws, f2) = (if ts_ticks s \<noteq> 0 then tf_notify POLL_READ f1 else ([], f1))
                in (Ok old, ws, put_timer f2 w1))) }"

definition timerfd_drop :: "usize \<Rightarrow> timerfd_registry \<Rightarrow> timerfd_registry option" where
  "timerfd_drop i w = do {
     f \<leftarrow> bt_get (tr_timers w) i;
     let w1 = (if ts_expires (tf_inner f) \<noteq> 0
       then remove_deadline (deadline_class (tf_clock f)) (ts_expires (tf_inner f)) (tf_id f) w else w);
     Some (refresh_next_deadlines (remove_timer (tf_id f) w1)) }"

definition timerfd_read :: "clocks \<Rightarrow> usize \<Rightarrow> usize \<Rightarrow> timerfd_registry \<Rightarrow> ((fs_error, byte list) result \<times> timerfd_registry) option" where
  "timerfd_read ck i len w =
     (if len < 8 then do { f \<leftarrow> bt_get (tr_timers w) i; Some (Err InvalidInput, w) }
      else do {
        (_, w1) \<leftarrow> refresh_due ck i w;
        f \<leftarrow> bt_get (tr_timers w1) i;
        let s = tf_inner f;
        Some (if ts_ticks s = 0 then (Err WouldBlock, w1)
              else (Ok (le_bytes 8 (of_nat (ts_ticks s) :: 64 word)), put_timer (tf_bump (f\<lparr>tf_inner := s\<lparr>ts_ticks := 0\<rparr>\<rparr>)) w1)) })"

definition timerfd_poll :: "clocks \<Rightarrow> usize \<Rightarrow> poll_events \<Rightarrow> timerfd_registry \<Rightarrow> (poll_events \<times> timerfd_registry) option" where
  "timerfd_poll ck i events w = do {
     (_, w1) \<leftarrow> refresh_due ck i w;
     f \<leftarrow> bt_get (tr_timers w1) i;
     Some (if ts_ticks (tf_inner f) \<noteq> 0 \<and> ev_contains events POLL_READ then POLL_READ else 0, w1) }"

definition timerfd_wait_token :: "usize \<Rightarrow> timerfd_registry \<Rightarrow> usize option" where
  "timerfd_wait_token i w = map_option tf_version (bt_get (tr_timers w) i)"

definition timerfd_register_waiter :: "usize \<Rightarrow> poll_events \<Rightarrow> listener \<Rightarrow> timerfd_registry \<Rightarrow> (usize \<times> timerfd_registry) option" where
  "timerfd_register_waiter i events l w = do {
     f \<leftarrow> bt_get (tr_timers w) i;
     let (k, q) = wq_register events l (tf_waiters f);
     Some (k, put_timer (f\<lparr>tf_waiters := q\<rparr>) w) }"

definition timerfd_unregister_waiter :: "usize \<Rightarrow> usize \<Rightarrow> timerfd_registry \<Rightarrow> timerfd_registry option" where
  "timerfd_unregister_waiter i k w = do {
     f \<leftarrow> bt_get (tr_timers w) i;
     Some (put_timer (f\<lparr>tf_waiters := snd (wq_unregister k (tf_waiters f))\<rparr>) w) }"

section \<open>The pass over expired timers\<close>

definition timerfd_deadline_due :: "clocks \<Rightarrow> timerfd_registry \<Rightarrow> bool" where
  "timerfd_deadline_due ck w \<longleftrightarrow>
     (if next_monotonic_deadline w \<le> ck_monotonic ck then True else next_realtime_deadline w \<le> realtime_ns ck)"

definition next_wakeup_deadline :: "clocks \<Rightarrow> timerfd_registry \<Rightarrow> usize option" where
  "next_wakeup_deadline ck w =
     (let monotonic = next_monotonic_deadline w; realtime = next_realtime_deadline w;
          monotonic_deadline = (if monotonic \<noteq> usize_range - 1 then Some monotonic else None);
          realtime_deadline = (if realtime = usize_range - 1 then None
            else Some (if realtime \<le> realtime_ns ck then ck_monotonic ck
                       else saturating_add (ck_monotonic ck) (realtime - realtime_ns ck)))
      in case (monotonic_deadline, realtime_deadline) of
           (Some left, Some right) \<Rightarrow> Some (min left right)
         | (Some v, None) \<Rightarrow> Some v
         | (None, Some v) \<Rightarrow> Some v
         | (None, None) \<Rightarrow> None)"

definition take_deadline :: "dl_class \<Rightarrow> usize \<Rightarrow> timerfd_registry \<Rightarrow> timerfd_registry" where
  "take_deadline c d w = refresh_next_deadlines (set_deadlines c (bt_remove d (deadlines_of c w)) w)"

text \<open>The body of the loop over the timers of an entry; the deadline of the entry is not used there.\<close>

definition wake_one :: "usize \<Rightarrow> usize \<Rightarrow> usize \<Rightarrow> timerfd_registry \<Rightarrow> wakes \<times> timerfd_registry" where
  "wake_one now d i w = (case bt_get (tr_timers w) i of None \<Rightarrow> ([], w)
     | Some f \<Rightarrow>
         let was_readable = (ts_ticks (tf_inner f) \<noteq> 0);
             (changed, s, w1) = refresh_due_locked (tf_id f) (tf_clock f) (tf_inner f) now w;
             f1 = f\<lparr>tf_inner := s\<rparr>;
             (ws, f2) = (if changed \<and> \<not> was_readable \<and> ts_ticks s \<noteq> 0 then tf_notify POLL_READ (tf_bump f1) else ([], f1))
         in (ws, put_timer f2 w1))"

definition wake_expired_class :: "dl_class \<Rightarrow> usize \<Rightarrow> timerfd_registry \<Rightarrow> (wakes \<times> timerfd_registry) option" where
  "wake_expired_class c now w = do {
     (ws, w1) \<leftarrow> expire_loop (deadlines_of c) (take_deadline c) (wake_one now) now w;
     Some (ws, refresh_next_deadlines w1) }"

definition wake_expired_timers :: "clocks \<Rightarrow> timerfd_registry \<Rightarrow> (wakes \<times> timerfd_registry) option" where
  "wake_expired_timers ck w = do {
     (ws, w1) \<leftarrow> wake_expired_class MonotonicClass (ck_monotonic ck) w;
     (vs, w2) \<leftarrow> wake_expired_class RealtimeClass (realtime_ns ck) w1;
     Some (ws @ vs, w2) }"

end
