(* ===== verification/Timerfd_Queues.thy ===== *)
theory Timerfd_Queues
  imports Timerfd
begin

text \<open>
  The invariant of the timer descriptors: the queues of deadlines hold exactly the armed timers
  of their class, and the published deadlines are the first of the queues. Every operation
  keeps it.
\<close>

section \<open>Updates of the registry\<close>

lemma deadlines_of_set [simp]: "deadlines_of c (set_deadlines c' ds w) = (if c = c' then ds else deadlines_of c w)"
  by (cases c; cases c') simp_all

lemma set_deadlines_frame [simp]:
  "tr_timers (set_deadlines c ds w) = tr_timers w" "tr_next_id (set_deadlines c ds w) = tr_next_id w"
  by (cases c; simp)+

lemma refresh_next_frame [simp]:
  "tr_timers (refresh_next_deadlines w) = tr_timers w" "tr_next_id (refresh_next_deadlines w) = tr_next_id w"
  "deadlines_of c (refresh_next_deadlines w) = deadlines_of c w"
  by (cases c; simp add: refresh_next_deadlines_def)+

lemma put_timer_frame [simp]:
  "tr_timers (put_timer f w) = bt_insert (tf_id f) f (tr_timers w)" "tr_next_id (put_timer f w) = tr_next_id w"
  "deadlines_of c (put_timer f w) = deadlines_of c w"
  by (cases c; simp add: put_timer_def)+

lemma set_deadlines_put: "set_deadlines c ds (put_timer f w) = put_timer f (set_deadlines c ds w)"
  by (cases c) (simp_all add: put_timer_def)

lemma refresh_next_put: "refresh_next_deadlines (put_timer f w) = put_timer f (refresh_next_deadlines w)"
  by (simp add: refresh_next_deadlines_def put_timer_def)

lemma remove_deadline_put: "remove_deadline c d i (put_timer f w) = put_timer f (remove_deadline c d i w)"
  by (simp add: remove_deadline_def set_deadlines_put refresh_next_put)

lemma bt_insert_again [simp]: "bt_insert k v (bt_insert k u t) = bt_insert k v t"
  by (induction k u t rule: bt_insert.induct) auto

lemma put_timer_again [simp]: "tf_id f = tf_id g \<Longrightarrow> put_timer g (put_timer f w) = put_timer g w"
  by (simp add: put_timer_def)

lemma deadline_frame [simp]:
  "tr_timers (remove_deadline c d i w) = tr_timers w" "tr_next_id (remove_deadline c d i w) = tr_next_id w"
  "tr_timers (insert_deadline c d i w) = tr_timers w" "tr_next_id (insert_deadline c d i w) = tr_next_id w"
  "deadlines_of c' (remove_deadline c d i w) = (if c' = c then dl_remove d i (deadlines_of c w) else deadlines_of c' w)"
  "deadlines_of c' (insert_deadline c d i w) = (if c' = c then dl_add d i (deadlines_of c w) else deadlines_of c' w)"
  by (simp_all add: remove_deadline_def insert_deadline_def)

section \<open>What a look at a timer does\<close>

definition tf_idle :: "usize \<Rightarrow> timerfd_state \<Rightarrow> bool" where
  "tf_idle now s \<longleftrightarrow> ts_expires s = 0 \<or> now < ts_expires s"

definition tf_advance :: "usize \<Rightarrow> timerfd_state \<Rightarrow> timerfd_state" where
  "tf_advance now s =
     (if tf_idle now s then s
      else if ts_interval s = 0 then s\<lparr>ts_ticks := saturating_add (ts_ticks s) 1, ts_expires := 0\<rparr>
      else
        let periods = wadd ((now - ts_expires s) div ts_interval s) 1
        in s\<lparr>ts_ticks := saturating_add (ts_ticks s) periods,
             ts_expires := saturating_add (ts_expires s) (saturating_mul periods (ts_interval s))\<rparr>)"

definition tf_rearm :: "dl_class \<Rightarrow> usize \<Rightarrow> usize \<Rightarrow> timerfd_registry \<Rightarrow> timerfd_registry" where
  "tf_rearm c d i w = (if d = 0 then w else insert_deadline c d i w)"

lemma saturating_add_zero [simp]: "saturating_add a b = 0 \<longleftrightarrow> a = 0 \<and> b = 0"
  by (auto simp: saturating_add_def usize_range_def min_def)

lemma saturating_add_pos: "0 < saturating_add a b \<longleftrightarrow> 0 < a \<or> 0 < b"
  using saturating_add_zero [of a b] by (simp only: neq0_conv [symmetric]) simp

lemma refresh_eq:
  "refresh_due_locked i clock s now w =
     (if tf_idle now s then (False, s, w)
      else (True, tf_advance now s, tf_rearm (deadline_class clock) (ts_expires (tf_advance now s)) i
        (remove_deadline (deadline_class clock) (ts_expires s) i w)))"
  by (auto simp: refresh_due_locked_def tf_idle_def tf_advance_def tf_rearm_def Let_def)

lemma tf_rearm_frame [simp]:
  "tr_timers (tf_rearm c d i w) = tr_timers w" "tr_next_id (tf_rearm c d i w) = tr_next_id w"
  by (simp_all add: tf_rearm_def)

lemma tf_idle_advance: "tf_idle now s \<Longrightarrow> tf_advance now s = s"
  by (simp add: tf_advance_def)

lemma tf_advance_interval [simp]: "ts_interval (tf_advance now s) = ts_interval s"
  by (simp add: tf_advance_def Let_def)

section \<open>The invariant\<close>

definition tr_ok :: "timerfd_registry \<Rightarrow> bool" where
  "tr_ok w \<longleftrightarrow> bt_ok (tr_timers w) \<and> (\<forall>c. dl_ok (deadlines_of c w)) \<and>
     (\<forall>i f. bt_get (tr_timers w) i = Some f \<longrightarrow> tf_id f = i \<and> wq_ok (tf_waiters f) \<and> i < tr_next_id w) \<and>
     next_monotonic_deadline w = dl_next (tr_monotonic w) \<and> next_realtime_deadline w = dl_next (tr_realtime w)"

definition tf_armed :: "dl_class \<Rightarrow> timerfd_registry \<Rightarrow> usize \<Rightarrow> usize \<Rightarrow> bool" where
  "tf_armed c w i d \<longleftrightarrow> d \<noteq> 0 \<and>
     (\<exists>f. bt_get (tr_timers w) i = Some f \<and> deadline_class (tf_clock f) = c \<and> ts_expires (tf_inner f) = d)"

text \<open>The queues agree with the timers, but for the timers \<open>ids\<close>, which are in no queue.\<close>

definition tf_queued :: "usize set \<Rightarrow> timerfd_registry \<Rightarrow> bool" where
  "tf_queued ids w \<longleftrightarrow> tr_ok w \<and> (\<forall>c d. ids_at (deadlines_of c w) d = {i. tf_armed c w i d \<and> i \<notin> ids})"

lemma tf_armed_frame:
  "tr_timers w' = tr_timers w \<Longrightarrow> tf_armed c w' = tf_armed c w"
  by (simp add: tf_armed_def fun_eq_iff)

lemma tf_armed_deadline [simp]:
  "tf_armed c (remove_deadline c' d i w) = tf_armed c w" "tf_armed c (insert_deadline c' d i w) = tf_armed c w"
  "tf_armed c (refresh_next_deadlines w) = tf_armed c w" "tf_armed c (take_deadline c' d w) = tf_armed c w"
  by (rule tf_armed_frame; simp add: take_deadline_def)+

lemma tr_ok_timer: "tr_ok w \<Longrightarrow> bt_get (tr_timers w) i = Some f \<Longrightarrow> tf_id f = i \<and> wq_ok (tf_waiters f) \<and> i < tr_next_id w"
  by (simp add: tr_ok_def)

lemma tr_ok_queue:
  assumes "tr_ok w" "dl_ok ds"
  shows "tr_ok (refresh_next_deadlines (set_deadlines c ds w))"
proof -
  have "dl_ok (deadlines_of c' (refresh_next_deadlines (set_deadlines c ds w)))" for c'
    using assms by (auto simp: tr_ok_def)
  moreover have "next_monotonic_deadline (refresh_next_deadlines v) = dl_next (tr_monotonic (refresh_next_deadlines v))"
    "next_realtime_deadline (refresh_next_deadlines v) = dl_next (tr_realtime (refresh_next_deadlines v))" for v
    by (simp_all add: refresh_next_deadlines_def)
  ultimately show ?thesis using assms unfolding tr_ok_def by simp
qed

lemma tr_ok_dl [simp]: "tr_ok w \<Longrightarrow> dl_ok (deadlines_of c w)"
  by (simp add: tr_ok_def)

lemma tr_ok_deadline [simp]:
  assumes "tr_ok w"
  shows "tr_ok (remove_deadline c d i w)" "tr_ok (insert_deadline c d i w)" "tr_ok (take_deadline c d w)"
  unfolding remove_deadline_def insert_deadline_def take_deadline_def
  using assms by (simp_all add: tr_ok_queue dl_ok_delete)

lemma tr_ok_refresh [simp]: "tr_ok w \<Longrightarrow> refresh_next_deadlines w = w"
  by (simp add: tr_ok_def refresh_next_deadlines_def)

lemma tr_ok_put:
  assumes "tr_ok w" "tf_id f < tr_next_id w" "wq_ok (tf_waiters f)"
  shows "tr_ok (put_timer f w)"
proof -
  have "bt_ok (tr_timers w)" using assms(1) by (simp add: tr_ok_def)
  moreover have "next_monotonic_deadline (put_timer f w) = next_monotonic_deadline w" "tr_monotonic (put_timer f w) = tr_monotonic w"
    "next_realtime_deadline (put_timer f w) = next_realtime_deadline w" "tr_realtime (put_timer f w) = tr_realtime w"
    by (simp_all add: put_timer_def)
  ultimately show ?thesis using assms unfolding tr_ok_def by simp
qed

lemma tf_queued_ok: "tf_queued ids w \<Longrightarrow> tr_ok w"
  by (simp add: tf_queued_def)

lemma tf_queued_ids: "tf_queued ids w \<Longrightarrow> ids_at (deadlines_of c w) d = {i. tf_armed c w i d \<and> i \<notin> ids}"
  by (simp add: tf_queued_def)

lemma tf_queuedI:
  assumes "tr_ok w" "\<And>c d i. i \<in> ids_at (deadlines_of c w) d \<longleftrightarrow> tf_armed c w i d \<and> i \<notin> ids"
  shows "tf_queued ids w"
  using assms by (auto simp: tf_queued_def)

text \<open>Taking a timer out of its queue, and out of a queue that it is not in.\<close>

lemma tf_queued_remove:
  assumes "tf_queued ids w" "bt_get (tr_timers w) i = Some f"
  shows "tf_queued (insert i ids) (remove_deadline (deadline_class (tf_clock f)) (ts_expires (tf_inner f)) i w)"
proof (rule tf_queuedI)
  show "tr_ok (remove_deadline (deadline_class (tf_clock f)) (ts_expires (tf_inner f)) i w)"
    using assms(1) by (simp add: tf_queued_ok)
  have "tf_armed c w i d \<Longrightarrow> c = deadline_class (tf_clock f) \<and> d = ts_expires (tf_inner f)" for c d
    using assms(2) by (simp add: tf_armed_def)
  then show "j \<in> ids_at (deadlines_of c (remove_deadline (deadline_class (tf_clock f)) (ts_expires (tf_inner f)) i w)) d \<longleftrightarrow>
      tf_armed c (remove_deadline (deadline_class (tf_clock f)) (ts_expires (tf_inner f)) i w) j d \<and> j \<notin> insert i ids" for c d j
    using tf_queued_ok [OF assms(1)] by (auto simp: ids_at_remove tf_queued_ids [OF assms(1)])
qed

lemma tf_queued_taken:
  assumes "tf_queued ids w" "i \<in> ids"
  shows "tf_queued ids (remove_deadline c d i w)"
  by (rule tf_queuedI)
    (use assms(2) tf_queued_ok [OF assms(1)] in \<open>auto simp: ids_at_remove tf_queued_ids [OF assms(1)]\<close>)

text \<open>Putting a timer back with whatever deadline it now has.\<close>

lemma tf_armed_put:
  "bt_ok (tr_timers w) \<Longrightarrow> tf_armed c (put_timer g w) j d \<longleftrightarrow>
     (if j = tf_id g then d \<noteq> 0 \<and> c = deadline_class (tf_clock g) \<and> d = ts_expires (tf_inner g) else tf_armed c w j d)"
  by (auto simp: tf_armed_def)

lemma tf_queued_put_back:
  assumes q: "tf_queued ids w" and i: "tf_id g \<in> ids" and g: "tf_id g < tr_next_id w" "wq_ok (tf_waiters g)"
  shows "tf_queued (ids - {tf_id g}) (put_timer g (tf_rearm (deadline_class (tf_clock g)) (ts_expires (tf_inner g)) (tf_id g) w))"
    (is "tf_queued _ (put_timer g ?w)")
proof (rule tf_queuedI)
  have ok: "tr_ok ?w" using tf_queued_ok [OF q] by (simp add: tf_rearm_def)
  show "tr_ok (put_timer g ?w)" using g by (intro tr_ok_put [OF ok]) simp_all
  have "bt_ok (tr_timers ?w)" using ok by (simp add: tr_ok_def)
  moreover have "tf_armed c ?w = tf_armed c w" for c by (rule tf_armed_frame) simp
  ultimately show "j \<in> ids_at (deadlines_of c (put_timer g ?w)) d \<longleftrightarrow> tf_armed c (put_timer g ?w) j d \<and> j \<notin> ids - {tf_id g}" for c d j
    using tf_queued_ok [OF q] i by (auto simp: tf_armed_put ids_at_add tf_queued_ids [OF q] tf_rearm_def)
qed

lemma tf_queued_put:
  assumes q: "tf_queued ids w" and f: "bt_get (tr_timers w) (tf_id g) = Some f"
    and g: "tf_clock g = tf_clock f" "ts_expires (tf_inner g) = ts_expires (tf_inner f)" "wq_ok (tf_waiters g)"
  shows "tf_queued ids (put_timer g w)"
proof (rule tf_queuedI)
  note ok = tf_queued_ok [OF q]
  show "tr_ok (put_timer g w)" using tr_ok_timer [OF ok f] g by (intro tr_ok_put [OF ok]) simp_all
  have "bt_ok (tr_timers w)" using ok by (simp add: tr_ok_def)
  moreover have "tf_armed c w (tf_id g) d \<longleftrightarrow> d \<noteq> 0 \<and> c = deadline_class (tf_clock g) \<and> d = ts_expires (tf_inner g)" for c d
    using f g by (auto simp: tf_armed_def)
  ultimately show "j \<in> ids_at (deadlines_of c (put_timer g w)) d \<longleftrightarrow> tf_armed c (put_timer g w) j d \<and> j \<notin> ids" for c d j
    by (auto simp: tf_armed_put tf_queued_ids [OF q])
qed

section \<open>Operations keep it\<close>

lemma refresh_frame:
  "refresh_due_locked i clock s now w = (due, s', w') \<Longrightarrow> tr_timers w' = tr_timers w \<and> tr_next_id w' = tr_next_id w"
  by (auto simp: refresh_eq split: if_splits)

lemma refresh_queued:
  assumes q: "tf_queued ids w" and f: "bt_get (tr_timers w) i = Some f"
    and r: "refresh_due_locked i (tf_clock f) (tf_inner f) now w = (due, s, w1)"
    and g: "tf_id g = i" "tf_clock g = tf_clock f" "tf_inner g = s" "wq_ok (tf_waiters g)"
  shows "tf_queued (if due then ids - {i} else ids) (put_timer g w1)"
proof (cases "tf_idle now (tf_inner f)")
  case True
  then show ?thesis using tf_queued_put [OF q, of g f] f r g by (auto simp: refresh_eq)
next
  case False
  let ?c = "deadline_class (tf_clock f)"
  have eq: "due" "s = tf_advance now (tf_inner f)" "w1 = tf_rearm ?c (ts_expires s) i (remove_deadline ?c (ts_expires (tf_inner f)) i w)"
    using r False by (auto simp: refresh_eq)
  have "i < tr_next_id w" using tr_ok_timer [OF tf_queued_ok [OF q] f] by simp
  then show ?thesis
    using tf_queued_put_back [OF tf_queued_remove [OF q f], of g] g eq by (simp add: insert_Diff_if)
qed

lemma set_time_queued:
  assumes q: "tf_queued {} w" and f: "bt_get (tr_timers w) i = Some f"
    and r: "set_time_locked i (tf_clock f) now interval v absolute cancel (tf_inner f) w = (old, s, w')"
    and g: "tf_id g = i" "tf_clock g = tf_clock f" "tf_inner g = s" "wq_ok (tf_waiters g)"
  shows "tf_queued {} (put_timer g w')"
proof -
  let ?c = "deadline_class (tf_clock f)"
  obtain due s1 w1 where r1: "refresh_due_locked i (tf_clock f) (tf_inner f) now w = (due, s1, w1)" by (metis prod_cases3)
  let ?f = "f\<lparr>tf_inner := s1\<rparr>"
  note fi = tr_ok_timer [OF tf_queued_ok [OF q] f]
  have q1: "tf_queued {} (put_timer ?f w1)" using refresh_queued [OF q f r1, of ?f] fi by (simp split: if_splits)
  have ok: "bt_ok (tr_timers w1)" using refresh_frame [OF r1] q by (simp add: tf_queued_def tr_ok_def)
  then have f1: "bt_get (tr_timers (put_timer ?f w1)) i = Some ?f" using fi by simp
  define w2 where "w2 = (if ts_expires s1 \<noteq> 0 then remove_deadline ?c (ts_expires s1) i w1 else w1)"
  have q2: "tf_queued {i} (put_timer ?f w2)"
  proof (cases "ts_expires s1 = 0")
    case False
    then show ?thesis using tf_queued_remove [OF q1 f1] by (simp add: w2_def remove_deadline_put)
  next
    case True
    then have "\<not> tf_armed c (put_timer ?f w1) i d" for c d using f1 by (auto simp: tf_armed_def)
    then have "tf_queued {i} (put_timer ?f w1)" using q1 unfolding tf_queued_def by auto
    then show ?thesis using True by (simp add: w2_def)
  qed
  have n: "tf_id g < tr_next_id (put_timer ?f v)" if "tr_next_id v = tr_next_id w2" for v
    using fi g refresh_frame [OF r1] that by (auto simp: w2_def)
  have again: "tf_queued {} (put_timer g (tf_rearm ?c (ts_expires s) i v))" if "tf_queued {i} (put_timer ?f v)" "tr_next_id v = tr_next_id w2" for v
  proof -
    have "put_timer g (tf_rearm ?c (ts_expires s) i (put_timer ?f v)) = put_timer g (tf_rearm ?c (ts_expires s) i v)"
      using fi g by (simp add: tf_rearm_def insert_deadline_def set_deadlines_put refresh_next_put)
    then show ?thesis using tf_queued_put_back [OF that(1), of g] n [OF that(2)] g by simp
  qed
  have q3: "tf_queued {i} (put_timer ?f (remove_deadline ?c d i w2))" for d
    using tf_queued_taken [OF q2, of i] by (simp add: remove_deadline_put)
  show ?thesis
    using r again [OF q2 refl] again [OF q3] unfolding set_time_locked_def Let_def r1 prod.case w2_def [symmetric]
    by (auto simp: tf_rearm_def refresh_eq tf_idle_def split: if_splits)
qed

end
