(* ===== verification/Timerfd_Expiry.thy ===== *)
theory Timerfd_Expiry
  imports Timerfd_Queues
begin

text \<open>
  The pass over the expired timer descriptors: it returns, brings every timer up to date, wakes
  who waits for it, and leaves no timer that has expired. The states that the operations reach
  satisfy the invariant.
\<close>

section \<open>One timer\<close>

definition tf_due :: "dl_class \<Rightarrow> usize \<Rightarrow> timerfd_file \<Rightarrow> bool" where
  "tf_due c now f \<longleftrightarrow> deadline_class (tf_clock f) = c \<and> \<not> tf_idle now (tf_inner f)"

text \<open>What a pass makes of a timer that has expired, and whom it wakes.\<close>

definition tf_passed :: "usize \<Rightarrow> timerfd_file \<Rightarrow> timerfd_file" where
  "tf_passed now f = (let f1 = f\<lparr>tf_inner := tf_advance now (tf_inner f)\<rparr>
     in if ts_ticks (tf_inner f) = 0 then snd (tf_notify POLL_READ (tf_bump f1)) else f1)"

definition tf_wakes :: "timerfd_file \<Rightarrow> wakes" where
  "tf_wakes f = (if ts_ticks (tf_inner f) = 0 then wq_matching POLL_READ (tf_waiters f) else [])"

lemma tf_passed_frame [simp]:
  "tf_id (tf_passed now f) = tf_id f" "tf_clock (tf_passed now f) = tf_clock f"
  "tf_inner (tf_passed now f) = tf_advance now (tf_inner f)" "wq_ok (tf_waiters f) \<Longrightarrow> wq_ok (tf_waiters (tf_passed now f))"
  "registrations (tf_waiters (tf_passed now f)) = registrations (tf_waiters f)"
  by (simp_all add: tf_passed_def tf_notify_def tf_bump_def wq_notify_def wq_ok_def Let_def)

lemma periods_exact:
  assumes "now < usize_range - 1"
  shows "wadd ((now - e) div n) 1 = (now - e) div n + 1"
proof -
  have "(now - e) div n \<le> now - e" by simp
  then have "(now - e) div n + 1 < usize_range" using assms by linarith
  then show ?thesis by (rule wadd_exact)
qed

lemma periods_late: "0 < n \<Longrightarrow> m < (m div n + 1) * (n :: nat)"
  by (metis Suc_eq_plus1 dividend_less_div_times mult.commute mult_Suc_right add.commute)

lemma tf_advance_idle:
  assumes now: "now < usize_range - 1"
  shows "tf_idle now (tf_advance now s)"
proof (cases "tf_idle now s \<or> ts_interval s = 0")
  case True
  then show ?thesis by (auto simp: tf_advance_def tf_idle_def)
next
  case False
  then have "now - ts_expires s < ((now - ts_expires s) div ts_interval s + 1) * ts_interval s"
    by (intro periods_late) simp
  moreover have "ts_expires s \<le> now" using False by (auto simp: tf_idle_def)
  ultimately have "now < saturating_add (ts_expires s) (saturating_mul ((now - ts_expires s) div ts_interval s + 1) (ts_interval s))"
    using now by (auto simp: saturating_add_def saturating_mul_def)
  then show ?thesis using False periods_exact [OF now] by (simp add: tf_advance_def tf_idle_def Let_def)
qed

lemma tf_advance_ticks: "now < usize_range - 1 \<Longrightarrow> \<not> tf_idle now s \<Longrightarrow> ts_ticks (tf_advance now s) \<noteq> 0"
  using periods_exact [of now "ts_expires s" "ts_interval s"] by (auto simp: tf_advance_def Let_def saturating_add_pos)

lemma tf_passed_not_due: "now < usize_range - 1 \<Longrightarrow> \<not> tf_due c now (tf_passed now f)"
  by (simp add: tf_due_def tf_advance_idle)

lemma wake_one_eq:
  assumes "bt_get (tr_timers w) i = Some f" "tf_id f = i" "\<not> tf_idle now (tf_inner f)" "now < usize_range - 1"
  shows "wake_one now d i w = (tf_wakes f, put_timer (tf_passed now f)
    (snd (snd (refresh_due_locked i (tf_clock f) (tf_inner f) now w))))"
  using assms tf_advance_ticks [of now "tf_inner f"]
  by (simp add: wake_one_def refresh_eq tf_wakes_def tf_passed_def tf_notify_def wq_notify_def tf_bump_def Let_def)

section \<open>The pass\<close>

definition tf_did :: "dl_class \<Rightarrow> usize \<Rightarrow> timerfd_registry \<Rightarrow> wakes \<Rightarrow> timerfd_registry \<Rightarrow> bool" where
  "tf_did c now w ws w' \<longleftrightarrow>
     (\<forall>i. bt_get (tr_timers w') i = bt_get (tr_timers w) i \<or>
        (\<exists>f. bt_get (tr_timers w) i = Some f \<and> tf_due c now f \<and> \<not> tf_due c now (tf_passed now f) \<and>
             bt_get (tr_timers w') i = Some (tf_passed now f) \<and> set (tf_wakes f) \<subseteq> set ws)) \<and>
     (\<forall>x \<in> set ws. \<exists>i f. bt_get (tr_timers w) i = Some f \<and> tf_due c now f \<and> x \<in> set (tf_wakes f))"

lemma tf_did_file: "tf_did c now w ws w' \<Longrightarrow> bt_get (tr_timers w') i = bt_get (tr_timers w) i \<or>
    (\<exists>f. bt_get (tr_timers w) i = Some f \<and> tf_due c now f \<and> \<not> tf_due c now (tf_passed now f) \<and>
         bt_get (tr_timers w') i = Some (tf_passed now f) \<and> set (tf_wakes f) \<subseteq> set ws)"
  by (simp add: tf_did_def)

lemma tf_did_unseen: "tf_did c now w ws w' \<Longrightarrow> bt_get (tr_timers w') i = Some f \<Longrightarrow> tf_due c now f \<Longrightarrow> bt_get (tr_timers w) i = Some f"
  using tf_did_file [of c now w ws w' i] by auto

lemma tf_did_trans:
  assumes 1: "tf_did c now w ws w1" and 2: "tf_did c now w1 vs w2"
  shows "tf_did c now w (ws @ vs) w2"
proof -
  have "bt_get (tr_timers w2) i = bt_get (tr_timers w) i \<or>
      (\<exists>f. bt_get (tr_timers w) i = Some f \<and> tf_due c now f \<and> \<not> tf_due c now (tf_passed now f) \<and>
           bt_get (tr_timers w2) i = Some (tf_passed now f) \<and> set (tf_wakes f) \<subseteq> set (ws @ vs))" for i
  proof (cases "bt_get (tr_timers w1) i = bt_get (tr_timers w) i")
    case True
    then show ?thesis using tf_did_file [OF 2, of i] by (metis set_append sup.coboundedI2)
  next
    case False
    then obtain f where "bt_get (tr_timers w) i = Some f" "tf_due c now f" "\<not> tf_due c now (tf_passed now f)"
        "bt_get (tr_timers w1) i = Some (tf_passed now f)" "set (tf_wakes f) \<subseteq> set ws"
      using tf_did_file [OF 1, of i] by blast
    then show ?thesis using tf_did_file [OF 2, of i] by auto
  qed
  moreover have "\<exists>i f. bt_get (tr_timers w) i = Some f \<and> tf_due c now f \<and> x \<in> set (tf_wakes f)" if x: "x \<in> set (ws @ vs)" for x
  proof (cases "x \<in> set ws")
    case True
    then show ?thesis using 1 by (simp add: tf_did_def)
  next
    case False
    then show ?thesis using x 2 tf_did_unseen [OF 1] unfolding tf_did_def by fastforce
  qed
  ultimately show ?thesis unfolding tf_did_def by blast
qed

lemma tf_armed_unique: "tf_armed c w i d \<Longrightarrow> tf_armed c' w i d' \<Longrightarrow> c' = c \<and> d' = d"
  by (auto simp: tf_armed_def)

lemma take_deadline_queue [simp]:
  "deadlines_of c' (take_deadline c d w) = (if c' = c then bt_remove d (deadlines_of c w) else deadlines_of c' w)"
  "tr_timers (take_deadline c d w) = tr_timers w"
  by (simp_all add: take_deadline_def)

lemma take_deadline_queued:
  assumes q: "tf_queued {} w"
  shows "tf_queued (ids_at (deadlines_of c w) e) (take_deadline c e w)"
    and "i \<in> ids_at (deadlines_of c w) e \<Longrightarrow> tf_armed c (take_deadline c e w) i e"
proof -
  show "tf_queued (ids_at (deadlines_of c w) e) (take_deadline c e w)"
    by (rule tf_queuedI) (use tf_queued_ok [OF q] in \<open>auto simp: ids_at_delete tf_queued_ids [OF q] dest: tf_armed_unique\<close>)
qed (simp add: tf_queued_ids [OF q])

text \<open>A timer that the loop has in hand.\<close>

lemma tf_in_hand:
  assumes "tf_queued ids w" "tf_armed c w i d" "d \<le> now"
  obtains f where "bt_get (tr_timers w) i = Some f" "tf_id f = i" "wq_ok (tf_waiters f)" "deadline_class (tf_clock f) = c"
    "ts_expires (tf_inner f) = d" "\<not> tf_idle now (tf_inner f)"
  using assms tr_ok_timer [OF tf_queued_ok [OF assms(1)], of i] by (auto simp: tf_armed_def tf_idle_def)

lemma wake_one_queued:
  assumes q: "tf_queued ids w" and a: "tf_armed c w i d" and d: "d \<le> now" and now: "now < usize_range - 1"
  shows "tf_queued (ids - {i}) (snd (wake_one now d i w))"
proof (rule tf_in_hand [OF q a d])
  fix f assume f: "bt_get (tr_timers w) i = Some f" "tf_id f = i" "wq_ok (tf_waiters f)" "\<not> tf_idle now (tf_inner f)"
  then show ?thesis
    using refresh_queued [OF q f(1), of now True "tf_advance now (tf_inner f)" _ "tf_passed now f"] now
    by (simp add: wake_one_eq refresh_eq)
qed

lemma wake_one_timers:
  assumes q: "tf_queued ids w" and a: "tf_armed c w i d" and d: "d \<le> now" and now: "now < usize_range - 1"
  obtains f where "bt_get (tr_timers w) i = Some f" "tf_due c now f" "fst (wake_one now d i w) = tf_wakes f"
    "bt_get (tr_timers (snd (wake_one now d i w))) = (bt_get (tr_timers w))(i \<mapsto> tf_passed now f)"
proof (rule tf_in_hand [OF q a d])
  fix f assume f: "bt_get (tr_timers w) i = Some f" "tf_id f = i" "deadline_class (tf_clock f) = c" "\<not> tf_idle now (tf_inner f)"
  have "bt_ok (tr_timers w)" using q by (simp add: tf_queued_def tr_ok_def)
  then show thesis using that [OF f(1)] f now by (simp add: wake_one_eq tf_due_def refresh_eq)
qed

lemma wake_one_did:
  assumes q: "tf_queued ids w" and a: "tf_armed c w i d" and d: "d \<le> now" and now: "now < usize_range - 1"
    and r: "wake_one now d i w = (ws, w')"
  shows "tf_did c now w ws w'"
proof (rule wake_one_timers [OF q a d now])
  fix f assume "bt_get (tr_timers w) i = Some f" "tf_due c now f" "fst (wake_one now d i w) = tf_wakes f"
    "bt_get (tr_timers (snd (wake_one now d i w))) = (bt_get (tr_timers w))(i \<mapsto> tf_passed now f)"
  then show ?thesis using r tf_passed_not_due [OF now, of c f] unfolding tf_did_def by auto
qed

lemma wake_one_queue:
  assumes q: "tf_queued ids w" and a: "tf_armed c w i d" and d: "d \<le> now" and now: "now < usize_range - 1"
  shows "due_keys now (deadlines_of c (snd (wake_one now d i w))) \<subseteq> due_keys now (deadlines_of c w)"
proof (rule tf_in_hand [OF q a d])
  fix f assume f: "bt_get (tr_timers w) i = Some f" "tf_id f = i" "deadline_class (tf_clock f) = c" "\<not> tf_idle now (tf_inner f)"
  let ?e = "ts_expires (tf_advance now (tf_inner f))"
  have "?e = 0 \<or> now < ?e" using tf_advance_idle [OF now] by (simp add: tf_idle_def)
  then show ?thesis
    using f now due_keys_remove [of now "ts_expires (tf_inner f)" i "deadlines_of c w"] by (auto simp: wake_one_eq refresh_eq tf_rearm_def due_keys_add)
qed

interpretation timerfds: expiry "\<lambda>d ids w. tf_queued ids w \<and> (\<forall>i \<in> ids. tf_armed c w i d) \<and> now < usize_range - 1"
  "deadlines_of c" "take_deadline c" "wake_one now" now "tf_did c now" for c now
proof unfold_locales
  fix d e ids w i
  assume inv: "tf_queued ids w \<and> (\<forall>i \<in> ids. tf_armed c w i d) \<and> now < usize_range - 1" and i: "i \<in> ids" and d: "d \<le> now"
  then have q: "tf_queued ids w" and a: "tf_armed c w i d" and now: "now < usize_range - 1" by simp_all
  have "tf_armed c (snd (wake_one now d i w)) j d" if "j \<in> ids - {i}" for j
    by (rule wake_one_timers [OF q a d now]) (use inv that in \<open>auto simp: tf_armed_def\<close>)
  then show "tf_queued (ids - {i}) (snd (wake_one now d i w)) \<and> (\<forall>j \<in> ids - {i}. tf_armed c (snd (wake_one now d i w)) j d) \<and> now < usize_range - 1"
    using wake_one_queued [OF q a d now] now by blast
  show "due_keys now (deadlines_of c (snd (wake_one now d i w))) \<subseteq> due_keys now (deadlines_of c w)"
    by (rule wake_one_queue [OF q a d now])
  show "tf_did c now w ws w'" if "wake_one now d i w = (ws, w')" for ws w'
    by (rule wake_one_did [OF q a d now that])
next
  show "tf_did c now w ws w1 \<Longrightarrow> tf_did c now w1 vs w2 \<Longrightarrow> tf_did c now w (ws @ vs) w2" for w ws w1 vs w2
    by (rule tf_did_trans)
qed (auto simp: tf_did_def tf_queued_ok tf_queued_ids intro: take_deadline_queued)

lemma wake_expired_class_returns:
  assumes q: "tf_queued {} w" and now: "now < usize_range - 1"
  shows "\<exists>ws w'. wake_expired_class c now w = Some (ws, w') \<and> tf_queued {} w' \<and> tf_did c now w ws w' \<and>
    (\<forall>i f. bt_get (tr_timers w') i = Some f \<longrightarrow> \<not> tf_due c now f)"
proof -
  obtain ws w' where e: "expire_loop (deadlines_of c) (take_deadline c) (wake_one now) now w = Some (ws, w')"
      "tf_queued {} w'" "due_keys now (deadlines_of c w') = {}" "tf_did c now w ws w'"
    using timerfds.loop_returns [where d = 0 and s = w and c = c and now = now] assms by auto
  have "\<not> tf_due c now f" if f: "bt_get (tr_timers w') i = Some f" for i f
  proof
    assume due: "tf_due c now f"
    let ?d = "ts_expires (tf_inner f)"
    have "?d \<le> now" "tf_armed c w' i ?d" using f due by (auto simp: tf_due_def tf_idle_def tf_armed_def)
    then have "?d \<in> due_keys now (deadlines_of c w')"
      using ids_at_key [of "deadlines_of c w'" ?d] tf_queued_ids [OF e(2), of c ?d] tf_queued_ok [OF e(2)]
      by (auto simp: due_keys_def)
    then show False using e(3) by simp
  qed
  then show ?thesis using e tf_queued_ok [OF e(2)] by (simp add: wake_expired_class_def)
qed

end
