(* ===== verification/Timerfd_Runs.thy ===== *)
theory Timerfd_Runs
  imports Timerfd_Expiry
begin

text \<open>
  The operations on timer descriptors as steps: every state that they reach satisfies the
  invariant. The pass over both classes of clocks, the published deadlines, and the number of
  expirations that a timer counts.
\<close>

section \<open>Every operation keeps the invariant\<close>

lemma tf_queued_unarmed:
  assumes q: "tf_queued {} w" and f: "bt_get (tr_timers w) i = Some f" "ts_expires (tf_inner f) = 0"
  shows "tf_queued {i} w"
proof (rule tf_queuedI [OF tf_queued_ok [OF q]])
  have "\<not> tf_armed c w i d" for c d using f by (auto simp: tf_armed_def)
  then show "j \<in> ids_at (deadlines_of c w) d \<longleftrightarrow> tf_armed c w j d \<and> j \<notin> {i}" for c d j
    by (auto simp: tf_queued_ids [OF q])
qed

lemma create_queued:
  assumes q: "tf_queued {} w" and n: "tr_next_id w < usize_range - 1"
  shows "tf_queued {} (snd (timerfd_create clock w))"
proof -
  let ?i = "tr_next_id w"
  define v where "v = w\<lparr>tr_next_id := saturating_add ?i 1\<rparr>"
  define f where "f = \<lparr>tf_id = ?i, tf_clock = clock, tf_inner = \<lparr>ts_interval = 0, ts_expires = 0, ts_ticks = 0, ts_cancel_on_set = False\<rparr>,
    tf_version = 1, tf_waiters = wq_new\<rparr>"
  note ok = tf_queued_ok [OF q]
  have "saturating_add ?i 1 = Suc ?i" using n by (simp add: saturating_add_def)
  then have v: "tr_next_id v = Suc ?i" "tr_timers v = tr_timers w" "next_monotonic_deadline v = next_monotonic_deadline w"
    "next_realtime_deadline v = next_realtime_deadline w" "tr_monotonic v = tr_monotonic w" "tr_realtime v = tr_realtime w"
    by (simp_all add: v_def)
  have dl: "deadlines_of c v = deadlines_of c w" for c by (cases c) (simp_all add: v)
  have armed: "tf_armed c v = tf_armed c w" for c by (rule tf_armed_frame) (rule v)
  have "tr_ok v" using ok unfolding tr_ok_def dl v by (auto simp: less_Suc_eq)
  then have "tr_ok (put_timer f v)" by (rule tr_ok_put) (simp_all add: v f_def)
  moreover have "\<not> tf_armed c w ?i d" for c d
    using tr_ok_timer [OF ok, of ?i] by (auto simp: tf_armed_def)
  moreover have "bt_ok (tr_timers v)" using ok by (simp add: tr_ok_def v)
  moreover have "tf_id f = ?i" "ts_expires (tf_inner f) = 0" by (simp_all add: f_def)
  ultimately have "tf_queued {} (put_timer f v)"
    by (intro tf_queuedI) (auto simp: tf_armed_put dl armed tf_queued_ids [OF q])
  then show ?thesis by (simp add: timerfd_create_def allocate_id_def v_def f_def)
qed

lemma refresh_due_queued:
  assumes q: "tf_queued {} w" and r: "refresh_due ck i w = Some (due, w')"
  obtains f where "bt_get (tr_timers w) i = Some f" "tf_queued {} w'"
    "bt_get (tr_timers w') = (bt_get (tr_timers w))(i \<mapsto> f\<lparr>tf_inner := tf_advance (current_time_ns ck (tf_clock f)) (tf_inner f)\<rparr>)"
proof -
  obtain f where f: "bt_get (tr_timers w) i = Some f" using r by (cases "bt_get (tr_timers w) i") (simp_all add: refresh_due_def)
  let ?now = "current_time_ns ck (tf_clock f)"
  obtain due' s w1 where e: "refresh_due_locked i (tf_clock f) (tf_inner f) ?now w = (due', s, w1)" by (metis prod_cases3)
  note fi = tr_ok_timer [OF tf_queued_ok [OF q] f]
  have w': "w' = put_timer (f\<lparr>tf_inner := s\<rparr>) w1" using r f e fi by (simp add: refresh_due_def)
  have "tf_queued {} w'"
    using refresh_queued [OF q f e, of "f\<lparr>tf_inner := s\<rparr>"] fi w' by (simp split: if_splits)
  moreover have "s = tf_advance ?now (tf_inner f)" using e by (auto simp: refresh_eq tf_idle_advance split: if_splits)
  moreover have "bt_ok (tr_timers w)" using q by (simp add: tf_queued_def tr_ok_def)
  ultimately show thesis using that [OF f] w' refresh_frame [OF e] fi by simp
qed

lemma get_time_refresh: "get_time ck i w = Some (spec, w') \<Longrightarrow> \<exists>due. refresh_due ck i w = Some (due, w')"
  by (cases "bt_get (tr_timers w) i") (auto simp: get_time_def refresh_due_def Let_def split: prod.splits)

lemma poll_refresh: "timerfd_poll ck i events w = Some (r, w') \<Longrightarrow> \<exists>due. refresh_due ck i w = Some (due, w')"
  by (auto simp: timerfd_poll_def split: Option.bind_splits prod.splits)

lemma read_queued:
  assumes q: "tf_queued {} w" and r: "timerfd_read ck i len w = Some (res, w')"
  shows "tf_queued {} w'"
proof (cases "len < 8")
  case True
  then show ?thesis using q r by (cases "bt_get (tr_timers w) i") (auto simp: timerfd_read_def)
next
  case False
  then obtain due w1 where d: "refresh_due ck i w = Some (due, w1)"
    using r by (cases "refresh_due ck i w") (auto simp: timerfd_read_def)
  show ?thesis
  proof (rule refresh_due_queued [OF q d])
    fix f assume q1: "tf_queued {} w1"
      and "bt_get (tr_timers w1) = (bt_get (tr_timers w))(i \<mapsto> f\<lparr>tf_inner := tf_advance (current_time_ns ck (tf_clock f)) (tf_inner f)\<rparr>)"
    then obtain g where g: "bt_get (tr_timers w1) i = Some g" by simp
    let ?g = "tf_bump (g\<lparr>tf_inner := tf_inner g\<lparr>ts_ticks := 0\<rparr>\<rparr>)"
    have "tf_queued {} (put_timer ?g w1)"
      using tr_ok_timer [OF tf_queued_ok [OF q1] g] g by (intro tf_queued_put [OF q1]) (simp_all add: tf_bump_def)
    then show ?thesis using r d g q1 False by (auto simp: timerfd_read_def Let_def split: if_splits)
  qed
qed

lemma set_time_op_queued:
  assumes q: "tf_queued {} w" and r: "set_time ck i flags spec w = Some (res, ws, w')"
  shows "tf_queued {} w'"
proof -
  obtain f where f: "bt_get (tr_timers w) i = Some f" using r by (cases "bt_get (tr_timers w) i") (simp_all add: set_time_def)
  note fi = tr_ok_timer [OF tf_queued_ok [OF q] f]
  have kept: "tf_queued {} (put_timer g w1)"
    if "set_time_locked i (tf_clock f) now n v a c (tf_inner f) w = (old, s, w1)"
      "g = tf_bump (f\<lparr>tf_inner := s\<rparr>) \<or> g = snd (tf_notify POLL_READ (tf_bump (f\<lparr>tf_inner := s\<rparr>)))" for now n v a c old s w1 g
    using that(2) fi by (intro set_time_queued [OF q f that(1)]) (auto simp: tf_bump_def tf_notify_def wq_notify_def wq_ok_def Let_def)
  show ?thesis
  proof (cases "interval_ns spec")
    case n: (Ok n)
    show ?thesis
    proof (cases "value_ns spec")
      case v: (Ok v)
      obtain old s w1 where l: "set_time_locked i (tf_clock f) (current_time_ns ck (tf_clock f)) n v (flags AND TFD_TIMER_ABSTIME \<noteq> 0)
          (flags AND TFD_TIMER_CANCEL_ON_SET \<noteq> 0) (tf_inner f) w = (old, s, w1)" by (metis prod_cases3)
      note kept [OF l]
      then show ?thesis
        using r f fi q l n v by (auto simp: set_time_def Let_def case_prod_unfold split: if_splits)
    qed (use r f q n in \<open>auto simp: set_time_def\<close>)
  qed (use r f q in \<open>auto simp: set_time_def\<close>)
qed

lemma drop_queued:
  assumes q: "tf_queued {} w" and r: "timerfd_drop i w = Some w'"
  shows "tf_queued {} w'"
proof -
  obtain f where f: "bt_get (tr_timers w) i = Some f" using r by (cases "bt_get (tr_timers w) i") (simp_all add: timerfd_drop_def)
  note fi = tr_ok_timer [OF tf_queued_ok [OF q] f]
  define w1 where "w1 = (if ts_expires (tf_inner f) \<noteq> 0
    then remove_deadline (deadline_class (tf_clock f)) (ts_expires (tf_inner f)) i w else w)"
  have q1: "tf_queued {i} w1" using tf_queued_remove [OF q f] tf_queued_unarmed [OF q f] by (simp add: w1_def)
  have dl: "deadlines_of c (remove_timer i w1) = deadlines_of c w1" for c by (cases c) (simp_all add: remove_timer_def)
  have ok: "tr_ok (remove_timer i w1)"
    using tf_queued_ok [OF q1] unfolding tr_ok_def dl by (auto simp: remove_timer_def split: if_splits)
  have "tf_armed c (remove_timer i w1) j d \<longleftrightarrow> j \<noteq> i \<and> tf_armed c w1 j d" for c j d
    by (auto simp: tf_armed_def remove_timer_def)
  then have "tf_queued {} (remove_timer i w1)" by (intro tf_queuedI [OF ok]) (auto simp: dl tf_queued_ids [OF q1])
  moreover have "w' = refresh_next_deadlines (remove_timer i w1)" using r f fi by (auto simp: timerfd_drop_def w1_def Let_def)
  ultimately show ?thesis using ok by simp
qed

lemma register_queued:
  assumes q: "tf_queued {} w" and f: "bt_get (tr_timers w) i = Some f" and n: "next_id (tf_waiters f) + 1 < usize_range"
    and r: "timerfd_register_waiter i events l w = Some (k, w')"
  shows "tf_queued {} w'"
proof -
  note fi = tr_ok_timer [OF tf_queued_ok [OF q] f]
  have "tf_queued {} (put_timer (f\<lparr>tf_waiters := snd (wq_register events l (tf_waiters f))\<rparr>) w)"
    using fi f n by (intro tf_queued_put [OF q]) simp_all
  then show ?thesis using r f by (auto simp: timerfd_register_waiter_def Let_def split: prod.splits)
qed

lemma unregister_queued:
  assumes q: "tf_queued {} w" and r: "timerfd_unregister_waiter i k w = Some w'"
  shows "tf_queued {} w'"
proof -
  obtain f where f: "bt_get (tr_timers w) i = Some f"
    using r by (cases "bt_get (tr_timers w) i") (simp_all add: timerfd_unregister_waiter_def)
  have "tf_queued {} (put_timer (f\<lparr>tf_waiters := snd (wq_unregister k (tf_waiters f))\<rparr>) w)"
    using tr_ok_timer [OF tf_queued_ok [OF q] f] f by (intro tf_queued_put [OF q]) simp_all
  then show ?thesis using r f by (simp add: timerfd_unregister_waiter_def)
qed

section \<open>The pass over both classes\<close>

definition tf_expired :: "clocks \<Rightarrow> timerfd_file \<Rightarrow> bool" where
  "tf_expired ck f \<longleftrightarrow> \<not> tf_idle (current_time_ns ck (tf_clock f)) (tf_inner f)"

definition clocks_ok :: "clocks \<Rightarrow> bool" where
  "clocks_ok ck \<longleftrightarrow> ck_monotonic ck < usize_range - 1 \<and> realtime_ns ck < usize_range - 1"

definition tf_after :: "clocks \<Rightarrow> timerfd_file \<Rightarrow> timerfd_file" where
  "tf_after ck f = (if tf_expired ck f then tf_passed (current_time_ns ck (tf_clock f)) f else f)"

lemma tf_due_expired: "tf_due c (class_now ck c) f \<longleftrightarrow> deadline_class (tf_clock f) = c \<and> tf_expired ck f"
  by (auto simp: tf_due_def tf_expired_def current_time_ns_def)

lemma class_pass:
  assumes "tf_did c now w ws w'" "\<forall>i f. bt_get (tr_timers w') i = Some f \<longrightarrow> \<not> tf_due c now f"
  shows "bt_get (tr_timers w') i = map_option (\<lambda>f. if tf_due c now f then tf_passed now f else f) (bt_get (tr_timers w) i)"
    and "bt_get (tr_timers w) i = Some f \<Longrightarrow> tf_due c now f \<Longrightarrow> set (tf_wakes f) \<subseteq> set ws"
    and "x \<in> set ws \<Longrightarrow> \<exists>i f. bt_get (tr_timers w) i = Some f \<and> tf_due c now f \<and> x \<in> set (tf_wakes f)"
proof -
  show "bt_get (tr_timers w') i = map_option (\<lambda>f. if tf_due c now f then tf_passed now f else f) (bt_get (tr_timers w) i)"
    using tf_did_file [OF assms(1), of i] assms(2) by (cases "bt_get (tr_timers w) i") auto
  show "set (tf_wakes f) \<subseteq> set ws" if "bt_get (tr_timers w) i = Some f" "tf_due c now f"
    using tf_did_file [OF assms(1), of i] assms(2) that by auto
  show "\<exists>i f. bt_get (tr_timers w) i = Some f \<and> tf_due c now f \<and> x \<in> set (tf_wakes f)" if "x \<in> set ws"
    using assms(1) that by (simp add: tf_did_def)
qed

lemma tf_passed_other: "deadline_class (tf_clock f) \<noteq> c \<Longrightarrow> \<not> tf_due c now f"
  by (simp add: tf_due_def)

lemma wake_expired_timers_returns:
  assumes q: "tf_queued {} w" and ck: "clocks_ok ck"
  shows "\<exists>ws w'. wake_expired_timers ck w = Some (ws, w') \<and> tf_queued {} w' \<and>
    (\<forall>i. bt_get (tr_timers w') i = map_option (tf_after ck) (bt_get (tr_timers w) i)) \<and>
    set ws = {x. \<exists>i f. bt_get (tr_timers w) i = Some f \<and> tf_expired ck f \<and> x \<in> set (tf_wakes f)}"
proof -
  let ?m = "class_now ck MonotonicClass" and ?r = "class_now ck RealtimeClass"
  have m: "?m < usize_range - 1" and r: "?r < usize_range - 1" using ck by (simp_all add: clocks_ok_def)
  obtain ws w1 where 1: "wake_expired_class MonotonicClass ?m w = Some (ws, w1)" "tf_queued {} w1" "tf_did MonotonicClass ?m w ws w1"
      "\<forall>i f. bt_get (tr_timers w1) i = Some f \<longrightarrow> \<not> tf_due MonotonicClass ?m f"
    using wake_expired_class_returns [OF q m] by blast
  obtain vs w2 where 2: "wake_expired_class RealtimeClass ?r w1 = Some (vs, w2)" "tf_queued {} w2" "tf_did RealtimeClass ?r w1 vs w2"
      "\<forall>i f. bt_get (tr_timers w2) i = Some f \<longrightarrow> \<not> tf_due RealtimeClass ?r f"
    using wake_expired_class_returns [OF 1(2) r] by blast
  note p1 = class_pass [OF 1(3, 4)] and p2 = class_pass [OF 2(3, 4)]
  have same: "bt_get (tr_timers w1) i = Some f \<and> tf_due RealtimeClass ?r f \<longleftrightarrow> bt_get (tr_timers w) i = Some f \<and> tf_due RealtimeClass ?r f" for i f
    using p1(1) [of i] by (cases "bt_get (tr_timers w) i") (auto simp: tf_due_def)
  have files: "bt_get (tr_timers w2) i = map_option (tf_after ck) (bt_get (tr_timers w) i)" for i
  proof (cases "bt_get (tr_timers w) i")
    case (Some f)
    then show ?thesis unfolding p2(1) p1(1)
      by (cases "deadline_class (tf_clock f)") (auto simp: tf_after_def tf_due_expired tf_passed_other current_time_ns_def simp del: class_now.simps)
  qed (simp add: p2(1) p1(1))
  have wakes: "set (ws @ vs) = {x. \<exists>i f. bt_get (tr_timers w) i = Some f \<and> tf_expired ck f \<and> x \<in> set (tf_wakes f)}"
  proof (intro set_eqI iffI)
    fix x assume x: "x \<in> set (ws @ vs)"
    show "x \<in> {x. \<exists>i f. bt_get (tr_timers w) i = Some f \<and> tf_expired ck f \<and> x \<in> set (tf_wakes f)}"
    proof (cases "x \<in> set ws")
      case True
      then show ?thesis using p1(3) [OF True] tf_due_expired [of MonotonicClass ck] by auto
    next
      case False
      then obtain i f where "bt_get (tr_timers w1) i = Some f \<and> tf_due RealtimeClass ?r f" "x \<in> set (tf_wakes f)"
        using p2(3) [of x] x by auto
      then show ?thesis using same [of i f] tf_due_expired [of RealtimeClass ck f] by auto
    qed
  next
    fix x assume "x \<in> {x. \<exists>i f. bt_get (tr_timers w) i = Some f \<and> tf_expired ck f \<and> x \<in> set (tf_wakes f)}"
    then obtain i f where f: "bt_get (tr_timers w) i = Some f" "tf_expired ck f" "x \<in> set (tf_wakes f)" by blast
    show "x \<in> set (ws @ vs)"
    proof (cases "deadline_class (tf_clock f)")
      case MonotonicClass
      then show ?thesis using f p1(2) [OF f(1)] tf_due_expired [of MonotonicClass ck f] by auto
    next
      case RealtimeClass
      then have "tf_due RealtimeClass ?r f" using f(2) by (simp only: tf_due_expired)
      then show ?thesis using f p2(2) [of i f] same [of i f] by auto
    qed
  qed
  have pass: "wake_expired_timers ck w = Some (ws @ vs, w2)" using 1(1) 2(1) by (simp add: wake_expired_timers_def)
  show ?thesis by (intro exI conjI allI) (fact pass, fact 2(2), fact files, fact wakes)
qed

text \<open>Whoever is registered for reading a timer that expires unread is woken.\<close>

lemma tf_wakes_listener:
  assumes "wq_ok (tf_waiters f)" "ts_ticks (tf_inner f) = 0" "bt_get (registrations (tf_waiters f)) k = Some r" "bit (wr_events r) 0"
  shows "wr_listener r \<in> fst ` set (tf_wakes f)"
  using wq_notify_wakes [OF assms(1, 3, 4), of POLL_READ] assms(2) by (simp add: tf_wakes_def wq_notify_def Let_def poll_bits)

section \<open>Published deadlines\<close>

lemma class_due:
  assumes q: "tf_queued {} w" and now: "now < usize_range - 1"
  shows "dl_next (deadlines_of c w) \<le> now \<longleftrightarrow> (\<exists>i f. bt_get (tr_timers w) i = Some f \<and> tf_due c now f)"
proof -
  have "(\<exists>d \<le> now. ids_at (deadlines_of c w) d \<noteq> {}) \<longleftrightarrow> (\<exists>i f. bt_get (tr_timers w) i = Some f \<and> tf_due c now f)"
    by (auto simp: tf_queued_ids [OF q] tf_armed_def tf_due_def tf_idle_def) (metis not_less)+
  then show ?thesis using dl_next_due [OF tr_ok_dl [OF tf_queued_ok [OF q]] now, of c] by simp
qed

lemma next_published:
  assumes "tf_queued {} w"
  shows "next_monotonic_deadline w = dl_next (deadlines_of MonotonicClass w)" "next_realtime_deadline w = dl_next (deadlines_of RealtimeClass w)"
  using tf_queued_ok [OF assms] by (simp_all add: tr_ok_def)

lemma deadline_due_expired:
  assumes q: "tf_queued {} w" and ck: "clocks_ok ck"
  shows "timerfd_deadline_due ck w \<longleftrightarrow> (\<exists>i f. bt_get (tr_timers w) i = Some f \<and> tf_expired ck f)"
proof -
  have "timerfd_deadline_due ck w \<longleftrightarrow>
      (\<exists>c. dl_next (deadlines_of c w) \<le> class_now ck c)"
  proof -
    have "(\<exists>c. P c) \<longleftrightarrow> P MonotonicClass \<or> P RealtimeClass" for P by (metis dl_class.exhaust)
    then show ?thesis by (simp add: timerfd_deadline_due_def next_published [OF q])
  qed
  also have "\<dots> \<longleftrightarrow> (\<exists>c i f. bt_get (tr_timers w) i = Some f \<and> tf_due c (class_now ck c) f)"
  proof -
    have "class_now ck c < usize_range - 1" for c using ck by (cases c) (simp_all add: clocks_ok_def)
    then show ?thesis using class_due [OF q] by simp
  qed
  finally show ?thesis unfolding tf_due_expired by blast
qed

lemma next_wakeup_due:
  assumes "clocks_ok ck"
  shows "timerfd_deadline_due ck w \<longleftrightarrow> (\<exists>d \<le> ck_monotonic ck. next_wakeup_deadline ck w = Some d)"
  using assms by (auto simp: timerfd_deadline_due_def next_wakeup_deadline_def clocks_ok_def saturating_add_def Let_def)

section \<open>Counting expirations\<close>

text \<open>The points in time, up to \<open>t\<close>, at which a timer expires that first expires at \<open>e\<close>.\<close>

definition tf_points :: "usize \<Rightarrow> usize \<Rightarrow> usize \<Rightarrow> usize set" where
  "tf_points e interval t = {x. x \<le> t \<and> (\<exists>k. x = e + k * interval)}"

lemma card_tf_points:
  assumes "e \<le> t"
  shows "card (tf_points e n t) = (if n = 0 then 1 else (t - e) div n + 1)"
proof (cases "n = 0")
  case True
  then have "tf_points e n t = {e}" using assms by (auto simp: tf_points_def)
  then show ?thesis using True by simp
next
  case False
  have "tf_points e n t = (\<lambda>k. e + k * n) ` {..(t - e) div n}"
  proof -
    have "e + k * n \<le> t \<longleftrightarrow> k \<le> (t - e) div n" for k
      using assms False by (simp add: less_eq_div_iff_mult_less_eq) linarith
    then show ?thesis by (auto simp: tf_points_def)
  qed
  moreover have "inj_on (\<lambda>k. e + k * n) {..(t - e) div n}" using False by (simp add: inj_on_def)
  ultimately show ?thesis using False by (simp add: card_image)
qed

lemma tf_points_le:
  assumes "0 < e" "e \<le> t"
  shows "card (tf_points e n t) \<le> t"
proof -
  have "(t - e) div n + 1 \<le> t" using assms div_le_dividend [of "t - e" n] by linarith
  then show ?thesis using assms by (simp add: card_tf_points)
qed

lemma tf_advance_exact:
  assumes s: "\<not> tf_idle t s"
    and b: "ts_ticks s + card (tf_points (ts_expires s) (ts_interval s) t) < usize_range" "t + ts_interval s < usize_range"
  shows "tf_advance t s = s\<lparr>ts_ticks := ts_ticks s + card (tf_points (ts_expires s) (ts_interval s) t),
    ts_expires := (if ts_interval s = 0 then 0 else ts_expires s + card (tf_points (ts_expires s) (ts_interval s) t) * ts_interval s)\<rparr>"
proof -
  let ?e = "ts_expires s" and ?n = "ts_interval s"
  have e: "?e \<le> t" "0 < ?e" using s by (auto simp: tf_idle_def)
  show ?thesis
  proof (cases "?n = 0")
    case True
    then show ?thesis using s e b by (simp add: tf_advance_def card_tf_points saturating_add_def)
  next
    case False
    define p where "p = (t - ?e) div ?n"
    have "p \<le> t - ?e" "p * ?n \<le> t - ?e" by (simp_all add: p_def)
    then have b': "p + 1 \<le> t" "?e + (p + 1) * ?n \<le> t + ?n" using e by (simp_all add: algebra_simps)
    then have "wadd p 1 = p + 1" "saturating_add (ts_ticks s) (p + 1) = ts_ticks s + (p + 1)"
      "saturating_mul (p + 1) ?n = (p + 1) * ?n" "saturating_add ?e ((p + 1) * ?n) = ?e + (p + 1) * ?n"
      using b e False by (simp_all add: wadd_exact saturating_add_def saturating_mul_def card_tf_points p_def [symmetric])
    then show ?thesis using s e False by (simp add: tf_advance_def card_tf_points p_def [symmetric] Let_def)
  qed
qed

lemma tf_points_later:
  assumes "e \<le> t1" "t1 \<le> t2" "0 < n"
  shows "card (tf_points e n t1) + (if t2 < e + card (tf_points e n t1) * n then 0
    else card (tf_points (e + card (tf_points e n t1) * n) n t2)) = card (tf_points e n t2)"
proof -
  define p where "p = (t1 - e) div n + 1"
  have p: "card (tf_points e n t1) = p" "card (tf_points e n t2) = (t2 - e) div n + 1" using assms by (simp_all add: card_tf_points p_def)
  show ?thesis
  proof (cases "t2 < e + p * n")
    case True
    have "t1 - e \<le> t2 - e" using assms by simp
    then have "(t1 - e) div n \<le> (t2 - e) div n" by (rule div_le_mono)
    moreover have "t2 - e < p * n" using True assms by linarith
    then have "(t2 - e) div n < p" using assms(3) by (simp add: div_less_iff_less_mult)
    ultimately show ?thesis using True by (simp add: p p_def)
  next
    case False
    define x where "x = t2 - (e + p * n)"
    have "t2 - e = x + p * n" using False by (simp add: x_def)
    then have "(t2 - e) div n = (t2 - (e + p * n)) div n + p" using assms(3) by (simp add: x_def [symmetric])
    then show ?thesis using False assms(3) by (simp add: p card_tf_points)
  qed
qed

lemma tf_advance_twice:
  assumes t: "t1 \<le> t2" and b: "ts_ticks s + t2 < usize_range" "t2 + ts_interval s < usize_range"
  shows "tf_advance t2 (tf_advance t1 s) = tf_advance t2 s"
proof (cases "tf_idle t1 s")
  case False
  let ?e = "ts_expires s" and ?n = "ts_interval s" and ?s = "tf_advance t1 s"
  define c where "c = card (tf_points ?e ?n t1)"
  have e: "?e \<le> t1" "0 < ?e" "\<not> tf_idle t2 s" using False t by (auto simp: tf_idle_def)
  have "card (tf_points ?e ?n t1) \<le> t1" "card (tf_points ?e ?n t2) \<le> t2" using e t by (simp_all add: tf_points_le)
  then have b1: "ts_ticks s + card (tf_points ?e ?n t1) < usize_range" "t1 + ?n < usize_range"
    and b2: "ts_ticks s + card (tf_points ?e ?n t2) < usize_range" using b t by simp_all
  have 1: "?s = s\<lparr>ts_ticks := ts_ticks s + c, ts_expires := (if ?n = 0 then 0 else ?e + c * ?n)\<rparr>"
    unfolding c_def by (rule tf_advance_exact [OF False b1])
  note 2 = tf_advance_exact [OF e(3) b2 b(2)]
  show ?thesis
  proof (cases "?n = 0")
    case True
    then show ?thesis using e t unfolding 2 by (simp add: 1 tf_idle_advance tf_idle_def c_def card_tf_points)
  next
    case n: False
    show ?thesis
    proof (cases "t2 < ?e + c * ?n")
      case True
      then have "card (tf_points ?e ?n t2) = c" using tf_points_later [OF e(1) t, of ?n] n by (simp add: c_def)
      then show ?thesis using True n unfolding 2 by (simp add: 1 tf_idle_advance tf_idle_def)
    next
      case late: False
      have c2: "c + card (tf_points (?e + c * ?n) ?n t2) = card (tf_points ?e ?n t2)"
        using tf_points_later [OF e(1) t, of ?n] n late by (simp add: c_def)
      then have "\<not> tf_idle t2 ?s" "ts_ticks ?s + card (tf_points (ts_expires ?s) (ts_interval ?s) t2) < usize_range"
        "t2 + ts_interval ?s < usize_range" using late n e b b2 by (simp_all add: 1 tf_idle_def)
      note 3 = tf_advance_exact [OF this]
      show ?thesis unfolding 3 2 using n c2 by (simp add: 1 c2 [symmetric] add_mult_distrib add.assoc)
    qed
  qed
qed (simp add: tf_idle_advance)

text \<open>A look at a timer at the time \<open>t\<close>, as a read, a poll or a query begins.\<close>

definition tf_look :: "usize \<Rightarrow> timerfd_clock \<Rightarrow> usize \<Rightarrow> timerfd_state \<times> timerfd_registry \<Rightarrow> timerfd_state \<times> timerfd_registry" where
  "tf_look i clock t = (\<lambda>(s, w). snd (refresh_due_locked i clock s t w))"

lemma fst_tf_look: "fst (tf_look i clock t x) = tf_advance t (fst x)"
  by (cases x) (simp add: tf_look_def refresh_eq tf_idle_advance)

lemma fst_fold_look: "fst (fold (tf_look i clock) ts x) = fold tf_advance ts (fst x)"
  by (induction ts arbitrary: x) (simp_all add: fst_tf_look)

lemma looks_unnoticed:
  assumes "sorted (ts @ [t])" "ts_ticks s + t < usize_range" "t + ts_interval s < usize_range"
  shows "tf_advance t (fold tf_advance ts s) = tf_advance t s"
  using assms
proof (induction ts arbitrary: t rule: rev_induct)
  case (snoc u ts)
  have "u \<le> t" "sorted (ts @ [u])" using snoc.prems(1) by (simp_all add: sorted_append)
  then show ?case using snoc.IH [of u] snoc.prems tf_advance_twice [of u t s] by simp
qed simp

section \<open>Runs\<close>

inductive tf_step :: "timerfd_registry \<Rightarrow> timerfd_registry \<Rightarrow> bool" where
  tf_create: "tr_next_id w < usize_range - 1 \<Longrightarrow> tf_step w (snd (timerfd_create clock w))"
| tf_set: "set_time ck i flags spec w = Some (res, ws, w') \<Longrightarrow> tf_step w w'"
| tf_get: "get_time ck i w = Some (spec, w') \<Longrightarrow> tf_step w w'"
| tf_read: "timerfd_read ck i len w = Some (res, w') \<Longrightarrow> tf_step w w'"
| tf_poll: "timerfd_poll ck i events w = Some (ready, w') \<Longrightarrow> tf_step w w'"
| tf_register: "bt_get (tr_timers w) i = Some f \<Longrightarrow> next_id (tf_waiters f) + 1 < usize_range \<Longrightarrow>
    timerfd_register_waiter i events l w = Some (k, w') \<Longrightarrow> tf_step w w'"
| tf_unregister: "timerfd_unregister_waiter i k w = Some w' \<Longrightarrow> tf_step w w'"
| tf_drop: "timerfd_drop i w = Some w' \<Longrightarrow> tf_step w w'"
| tf_pass: "clocks_ok ck \<Longrightarrow> wake_expired_timers ck w = Some (ws, w') \<Longrightarrow> tf_step w w'"

definition tf_reachable :: "timerfd_registry \<Rightarrow> bool" where
  "tf_reachable w \<longleftrightarrow> tf_step\<^sup>*\<^sup>* registry_new w"

lemma registry_new_queued: "tf_queued {} registry_new"
proof (rule tf_queuedI)
  have dl: "deadlines_of c registry_new = []" for c by (cases c) (simp_all add: registry_new_def)
  show "tr_ok registry_new" unfolding tr_ok_def dl by (simp add: registry_new_def bt_ok_def)
  show "i \<in> ids_at (deadlines_of c registry_new) d \<longleftrightarrow> tf_armed c registry_new i d \<and> i \<notin> {}" for c d i
    unfolding dl by (simp add: tf_armed_def registry_new_def)
qed

lemma refresh_kept: "tf_queued {} w \<Longrightarrow> refresh_due ck i w = Some (due, w') \<Longrightarrow> tf_queued {} w'"
  by (rule refresh_due_queued)

lemma tf_step_queued: "tf_step w w' \<Longrightarrow> tf_queued {} w \<Longrightarrow> tf_queued {} w'"
proof (induction rule: tf_step.induct)
  case (tf_pass ck w ws w')
  then show ?case using wake_expired_timers_returns [OF tf_pass.prems tf_pass.hyps(1)] by auto
qed (blast dest: create_queued set_time_op_queued get_time_refresh refresh_kept read_queued poll_refresh register_queued
  unregister_queued drop_queued)+

lemma tf_reachable_queued: "tf_reachable w \<Longrightarrow> tf_queued {} w"
  unfolding tf_reachable_def by (induction rule: rtranclp_induct) (auto intro: registry_new_queued tf_step_queued)

end
