(* ===== verification/Timer_Properties.thy ===== *)
theory Timer_Properties
  imports Itimer Timerfd_Runs "HOL-Library.Code_Target_Nat"
begin

text \<open>
  The properties of interval timers and timer descriptors: no expiry is missed, none is counted
  twice, and who waits for a timer is woken by the pass over expired timers.
\<close>

section \<open>Interval timers\<close>

text \<open>
  C36: In every state that setting timers, ending processes and expiring timers can reach, the
  pass over expired timers returns. It queues exactly one SIGALRM for each process whose timer
  has expired and none for any other; an expired timer with an interval is set to its first
  multiple in the future and one without is removed; no other timer changes. The published
  deadline has passed exactly when the pass has something to do, and no longer after it.
\<close>

theorem itimer_pass:
  assumes "rt_reachable s" "current < usize_range - 1"
  shows "\<exists>ws s'. take_expired current s = Some (ws, s') \<and>
    (\<forall>i. alarms i ws = (if rt_due current (bt_get (rt_timers s) i) then [(i, kernel_info SIGALRM 0)] else [])) \<and>
    (\<forall>i. bt_get (rt_timers s') i = (if rt_due current (bt_get (rt_timers s) i)
       then rt_renewed current (bt_get (rt_timers s) i) else bt_get (rt_timers s) i)) \<and>
    (rt_deadline_due current s \<longleftrightarrow> ws \<noteq> []) \<and> \<not> rt_deadline_due current s'"
proof -
  note inv = rt_reachable_inv [OF assms(1)]
  obtain ws s' where p: "take_expired current s = Some (ws, s')" "rt_inv s'" "rt_did current s ws s'"
      "\<forall>i. \<not> rt_due current (bt_get (rt_timers s') i)"
    using take_expired_returns [OF inv assms(2)] by blast
  note out = alarm_iff_due [OF p(3, 4)]
  have "ws \<noteq> [] \<longleftrightarrow> (\<exists>i. rt_due current (bt_get (rt_timers s) i))"
  proof
    assume "ws \<noteq> []"
    then have "alarms (fst (hd ws)) ws \<noteq> []" by (cases ws) (simp_all add: alarms_def)
    then show "\<exists>i. rt_due current (bt_get (rt_timers s) i)" using out(1) [of "fst (hd ws)"] by (auto split: if_splits)
  next
    assume "\<exists>i. rt_due current (bt_get (rt_timers s) i)"
    then obtain i where "rt_due current (bt_get (rt_timers s) i)" by blast
    then show "ws \<noteq> []" using out(1) [of i] by (auto simp: alarms_def)
  qed
  then have "rt_deadline_due current s \<longleftrightarrow> ws \<noteq> []" "\<not> rt_deadline_due current s'"
    using rt_deadline_due_iff [OF inv assms(2)] rt_deadline_due_iff [OF p(2) assms(2)] p(4) by simp_all
  then show ?thesis using p(1) out by blast
qed

definition sample_itimers :: real_timer_registry where
  "sample_itimers = snd (set_real_timer 7 100 50 20 (snd (set_real_timer 9 100 500 0 rt_empty)))"

lemma sample_itimers_timers:
  "bt_get (rt_timers sample_itimers) 7 = Some \<lparr>rt_deadline_nanos = Some 150, rt_interval_nanos = 20\<rparr>"
  by (simp add: sample_itimers_def set_real_timer_def rt_empty_def rt_unqueue_def rt_add_deadline_def publish_next_deadline_def
      saturating_add_def usize_range_def Let_def)

theorem itimer_pass_witness:
  "\<exists>ws s'. take_expired 200 sample_itimers = Some (ws, s') \<and> alarms 7 ws = [(7, kernel_info SIGALRM 0)] \<and>
     bt_get (rt_timers s') 7 = Some \<lparr>rt_deadline_nanos = Some 210, rt_interval_nanos = 20\<rparr>"
proof -
  have r: "rt_reachable sample_itimers" unfolding sample_itimers_def by (intro rt_reachable.intros)
  have b: "200 < usize_range - 1" by (simp add: usize_range_def)
  have due: "rt_due 200 (bt_get (rt_timers sample_itimers) 7)" by (simp add: sample_itimers_timers rt_due_def)
  obtain ws s' where p: "take_expired 200 sample_itimers = Some (ws, s')"
      "\<forall>i. alarms i ws = (if rt_due 200 (bt_get (rt_timers sample_itimers) i) then [(i, kernel_info SIGALRM 0)] else [])"
      "\<forall>i. bt_get (rt_timers s') i = (if rt_due 200 (bt_get (rt_timers sample_itimers) i)
         then rt_renewed 200 (bt_get (rt_timers sample_itimers) i) else bt_get (rt_timers sample_itimers) i)"
    using itimer_pass [OF r b] by blast
  have "bt_get (rt_timers s') 7 = Some \<lparr>rt_deadline_nanos = Some 210, rt_interval_nanos = 20\<rparr>"
    using p(3) [rule_format, of 7] due by (simp add: sample_itimers_timers rt_following_def usize_range_def)
  then show ?thesis using p(1) p(2) [rule_format, of 7] due by auto
qed

section \<open>Timer descriptors\<close>

text \<open>
  C37: In every state that the operations on timer descriptors can reach, the pass over expired
  timers returns. It brings every timer that has expired up to the time of its clock and leaves
  every other timer as it is; a listener registered for reading such a timer that was not
  readable is woken; and afterwards no deadline is due.
\<close>

theorem timerfd_pass:
  assumes "tf_reachable w" "clocks_ok ck"
  shows "\<exists>ws w'. wake_expired_timers ck w = Some (ws, w') \<and>
    (\<forall>i. bt_get (tr_timers w') i = map_option (tf_after ck) (bt_get (tr_timers w) i)) \<and>
    (\<forall>i f k r. bt_get (tr_timers w) i = Some f \<and> tf_expired ck f \<and> ts_ticks (tf_inner f) = 0 \<and>
       bt_get (registrations (tf_waiters f)) k = Some r \<and> bit (wr_events r) 0 \<longrightarrow> wr_listener r \<in> fst ` set ws) \<and>
    \<not> timerfd_deadline_due ck w'"
proof -
  note q = tf_reachable_queued [OF assms(1)]
  obtain ws w' where p: "wake_expired_timers ck w = Some (ws, w')" "tf_queued {} w'"
      "\<forall>i. bt_get (tr_timers w') i = map_option (tf_after ck) (bt_get (tr_timers w) i)"
      "set ws = {x. \<exists>i f. bt_get (tr_timers w) i = Some f \<and> tf_expired ck f \<and> x \<in> set (tf_wakes f)}"
    using wake_expired_timers_returns [OF q assms(2)] by blast
  have "wr_listener r \<in> fst ` set ws" if f: "bt_get (tr_timers w) i = Some f" and e: "tf_expired ck f"
    and r: "ts_ticks (tf_inner f) = 0" "bt_get (registrations (tf_waiters f)) k = Some r" "bit (wr_events r) 0" for i f k r
  proof -
    have "set (tf_wakes f) \<subseteq> set ws" unfolding p(4) using f e by blast
    then show ?thesis using tf_wakes_listener [OF _ r] tr_ok_timer [OF tf_queued_ok [OF q] f] by blast
  qed
  moreover have "\<not> tf_expired ck (tf_after ck f)" for f
    using assms(2) tf_advance_idle [of "current_time_ns ck (tf_clock f)" "tf_inner f"]
    by (cases "deadline_class (tf_clock f)") (auto simp: tf_after_def tf_expired_def clocks_ok_def current_time_ns_def)
  then have "\<not> timerfd_deadline_due ck w'" unfolding deadline_due_expired [OF p(2) assms(2)] using p(3) by auto
  ultimately show ?thesis using p(1, 3) by blast
qed

text \<open>A timer that expires at 150 and every 20 after, with a listener for reading.\<close>

definition clocks_at :: "usize \<Rightarrow> clocks" where
  "clocks_at t = \<lparr>ck_monotonic = t, ck_seconds = 0, ck_nanos = 0\<rparr>"

definition sample_new :: timerfd_registry where
  "sample_new = snd (timerfd_create Monotonic registry_new)"

definition sample_waited :: timerfd_registry where
  "sample_waited = snd (the (timerfd_register_waiter 1 POLL_READ 42 sample_new))"

definition sample_timer :: "usize \<Rightarrow> timerfd_registry" where
  "sample_timer interval = snd (snd (the (set_time (clocks_at 100) 1 0
     \<lparr>it_interval = ns_to_timespec interval, it_value = ns_to_timespec 50\<rparr> sample_waited)))"

definition sample_file :: "usize \<Rightarrow> timerfd_file" where
  "sample_file interval = \<lparr>tf_id = 1, tf_clock = Monotonic,
     tf_inner = \<lparr>ts_interval = interval, ts_expires = 150, ts_ticks = 0, ts_cancel_on_set = False\<rparr>, tf_version = 2,
     tf_waiters = \<lparr>next_id = 2, registrations = [(1, \<lparr>wr_events = POLL_READ, wr_listener = 42\<rparr>)], notify_scratch = []\<rparr>\<rparr>"

lemma sample_timer_files: "tr_timers (sample_timer 20) = [(1, sample_file 20)]" "tr_timers (sample_timer 0) = [(1, sample_file 0)]"
  by code_simp+

lemma set_time_known: "bt_get (tr_timers w) i = Some f \<Longrightarrow> \<exists>r. set_time ck i flags spec w = Some r"
  unfolding set_time_def by (simp only: bind.bind_lunit option.inject) (rule exI, rule refl)

lemma sample_timer_reachable: "tf_reachable (sample_timer n)"
proof -
  have "tf_step registry_new sample_new"
    unfolding sample_new_def by (rule tf_create) (simp add: registry_new_def usize_range_def)
  moreover have f: "map_option (\<lambda>f. next_id (tf_waiters f)) (bt_get (tr_timers sample_new) 1) = Some 1"
      "timerfd_register_waiter 1 POLL_READ 42 sample_new \<noteq> None"
    by code_simp+
  then obtain f where "bt_get (tr_timers sample_new) 1 = Some f" "next_id (tf_waiters f) = 1" by auto
  then have "tf_step sample_new sample_waited"
    using f(2) by (intro tf_register [where i = 1 and events = POLL_READ and l = 42 and
        k = "fst (the (timerfd_register_waiter 1 POLL_READ 42 sample_new))"]) (auto simp: sample_waited_def usize_range_def)
  moreover have "bt_get (tr_timers sample_waited) 1 \<noteq> None" by code_simp
  then obtain f where "bt_get (tr_timers sample_waited) 1 = Some f" by blast
  then obtain r where "set_time (clocks_at 100) 1 0
      \<lparr>it_interval = ns_to_timespec n, it_value = ns_to_timespec 50\<rparr> sample_waited = Some r"
    using set_time_known by blast
  then have "tf_step sample_waited (sample_timer n)"
    by (cases r) (auto simp: sample_timer_def intro: tf_set)
  ultimately show ?thesis unfolding tf_reachable_def by (meson converse_rtranclp_into_rtranclp rtranclp.rtrancl_refl)
qed

lemma clocks_at_ok: "clocks_ok (clocks_at 200)"
  by (simp add: clocks_ok_def clocks_at_def realtime_ns_def saturating_add_def saturating_mul_def usize_range_def)

lemma sample_file_expired: "tf_expired (clocks_at 200) (sample_file n)"
  by (simp add: tf_expired_def tf_idle_def sample_file_def current_time_ns_def clocks_at_def)

theorem timerfd_pass_witness:
  "\<exists>ws w'. wake_expired_timers (clocks_at 200) (sample_timer 20) = Some (ws, w') \<and> 42 \<in> fst ` set ws \<and>
     map_option (\<lambda>f. ts_ticks (tf_inner f)) (bt_get (tr_timers w') 1) = Some 3"
proof -
  obtain ws w' where p: "wake_expired_timers (clocks_at 200) (sample_timer 20) = Some (ws, w')"
      "\<forall>i. bt_get (tr_timers w') i = map_option (tf_after (clocks_at 200)) (bt_get (tr_timers (sample_timer 20)) i)"
      "\<forall>i f k r. bt_get (tr_timers (sample_timer 20)) i = Some f \<and> tf_expired (clocks_at 200) f \<and> ts_ticks (tf_inner f) = 0 \<and>
         bt_get (registrations (tf_waiters f)) k = Some r \<and> bit (wr_events r) 0 \<longrightarrow> wr_listener r \<in> fst ` set ws"
    using timerfd_pass [OF sample_timer_reachable clocks_at_ok, of 20] by blast
  have "42 \<in> fst ` set ws"
    using p(3) [rule_format, of 1 "sample_file 20" 1 "\<lparr>wr_events = POLL_READ, wr_listener = 42\<rparr>"] sample_file_expired [of 20]
    by (simp add: sample_timer_files) (simp add: sample_file_def poll_bits)
  moreover have "ts_ticks (tf_advance 200 (tf_inner (sample_file 20))) = 3" by code_simp
  then have "ts_ticks (tf_inner (tf_after (clocks_at 200) (sample_file 20))) = 3"
    using sample_file_expired [of 20] by (simp add: tf_after_def sample_file_def current_time_ns_def clocks_at_def)
  then have "map_option (\<lambda>f. ts_ticks (tf_inner f)) (bt_get (tr_timers w') 1) = Some 3"
    by (simp add: p(2) sample_timer_files)
  ultimately show ?thesis using p(1) by blast
qed

text \<open>
  C38: In every reachable state the published deadlines agree with the timers: the run loop finds
  the pass due exactly when some timer has expired on its own clock, whichever of the two
  classes of clocks it belongs to, and exactly then the time at which the machine is to wake up
  is not in the future.
\<close>

theorem timerfd_published:
  assumes "tf_reachable w" "clocks_ok ck"
  shows "(timerfd_deadline_due ck w \<longleftrightarrow> (\<exists>i f. bt_get (tr_timers w) i = Some f \<and> tf_expired ck f)) \<and>
    (timerfd_deadline_due ck w \<longleftrightarrow> (\<exists>d. next_wakeup_deadline ck w = Some d \<and> d \<le> ck_monotonic ck))"
  using deadline_due_expired [OF tf_reachable_queued [OF assms(1)] assms(2)] next_wakeup_due [OF assms(2), of w] by blast

theorem timerfd_published_witness:
  "timerfd_deadline_due (clocks_at 200) (sample_timer 20) \<and>
     (\<exists>d. next_wakeup_deadline (clocks_at 200) (sample_timer 20) = Some d \<and> d \<le> 200)"
proof -
  have f: "bt_get (tr_timers (sample_timer 20)) 1 = Some (sample_file 20)" by (simp add: sample_timer_files)
  have m: "ck_monotonic (clocks_at 200) = 200" by (simp add: clocks_at_def)
  show ?thesis
    using timerfd_published [OF sample_timer_reachable clocks_at_ok, of 20] f sample_file_expired [of 20] unfolding m by blast
qed

text \<open>
  C39: A timer counts each of its expirations once, however often it is looked at: after any
  sequence of looks the state is the one that the last look alone gives, and that look adds
  the number of points in time, up to then, at which the timer expires. Nothing of this
  depends on the registry. The bounds say that the counter and the next deadline fit 64 bits.
\<close>

theorem timerfd_counts:
  assumes "sorted (ts @ [t])" "ts_expires s \<noteq> 0" "ts_ticks s + t < usize_range" "t + ts_interval s < usize_range"
  shows "fst (fold (tf_look i clock) (ts @ [t]) (s, w)) = fst (tf_look i clock t (s, w)) \<and>
    ts_ticks (fst (tf_look i clock t (s, w))) = ts_ticks s + card {x. x \<le> t \<and> (\<exists>k. x = ts_expires s + k * ts_interval s)}"
proof
  show "fst (fold (tf_look i clock) (ts @ [t]) (s, w)) = fst (tf_look i clock t (s, w))"
    using looks_unnoticed [OF assms(1, 3, 4)] by (simp only: fst_fold_look fst_tf_look) simp
  show "ts_ticks (fst (tf_look i clock t (s, w))) = ts_ticks s + card {x. x \<le> t \<and> (\<exists>k. x = ts_expires s + k * ts_interval s)}"
  proof (cases "tf_idle t s")
    case True
    then have "{x. x \<le> t \<and> (\<exists>k. x = ts_expires s + k * ts_interval s)} = {}" using assms(2) by (auto simp: tf_idle_def)
    then show ?thesis using True by (simp add: fst_tf_look tf_idle_advance)
  next
    case False
    then have "card (tf_points (ts_expires s) (ts_interval s) t) \<le> t" by (intro tf_points_le) (auto simp: tf_idle_def)
    then show ?thesis
      using tf_advance_exact [OF False _ assms(4)] assms(3) by (simp add: fst_tf_look) (simp add: tf_points_def)
  qed
qed

theorem timerfd_counts_witness:
  "ts_ticks (fst (fold (tf_look 1 Monotonic) [160, 170, 180, 200] (tf_inner (sample_file 20), registry_new))) =
     card {x. x \<le> 200 \<and> (\<exists>k. x = 150 + k * (20 :: nat))}"
  using timerfd_counts [of "[160, 170, 180]" 200 "tf_inner (sample_file 20)" 1 Monotonic registry_new]
  by (simp add: sample_file_def usize_range_def)



end
